(* ===== verification/Prelude.thy ===== *)
theory Prelude
  imports Main "HOL-Library.Word" "HOL-Library.Monad_Syntax"
begin

text \<open>
  Shared vocabulary of the development: the machine types of the C++ sources,
  the value of a little-endian limb array, the convention for calls that abort,
  and the generic lemmas that the component theories use.

  Conventions.
  \<^item> An unsigned machine integer is a word of its width; a signed one is an
    \<open>int\<close>, with the lemmas of the component stating that no intermediate value leaves the
    width where the code relies on it.
  \<^item> A call that may not return (an \<open>assert\<close> that fails, a null pointer that is
    dereferenced, a loop that does not stop) has a result of type \<open>option\<close>, and
    \<open>None\<close> is "does not return".
\<close>

unbundle bit_operations_syntax

type_synonym uint8 = "8 word"
type_synonym uint16 = "16 word"
type_synonym uint32 = "32 word"
type_synonym uint64 = "64 word"
type_synonym bytes = "8 word list"

named_theorems limb_simps \<open>value lemmas of little-endian limb arrays\<close>

subsection \<open>Assertions\<close>

definition assert_opt :: "bool \<Rightarrow> unit option" where
  "assert_opt b = (if b then Some () else None)"

lemma assert_opt_simps [simp]:
  "assert_opt True = Some ()" "assert_opt False = None"
  by (simp_all add: assert_opt_def)

lemma assert_opt_bind [simp]:
  "Option.bind (assert_opt b) f = (if b then f () else None)"
  by (simp add: assert_opt_def)

lemma int_mult_div_le: "0 < b \<Longrightarrow> b * (a div b) \<le> (a :: int)"
  using mult_div_mod_eq [of b a] pos_mod_sign [of b a] by linarith

lemma int_less_mult_div: "0 < b \<Longrightarrow> (a :: int) < b * (a div b + 1)"
  using mult_div_mod_eq [of b a] pos_mod_bound [of b a]
  unfolding distrib_left mult_1_right by linarith

lemma int_div_lessI:
  fixes a b c :: int
  assumes "0 < b" "a < b * c"
  shows "a div b < c"
proof -
  have "b * (a div b) < b * c"
    using int_mult_div_le [OF assms(1), of a] assms(2) by linarith
  then show ?thesis using assms(1) by simp
qed

lemma int_le_divI: "0 < b \<Longrightarrow> b * c \<le> a \<Longrightarrow> c \<le> a div (b :: int)"
  using zdiv_mono1 [of "b * c" a b] by simp

subsection \<open>Words read as integers\<close>

lemma uint_drop_bit_eq: "uint (drop_bit n (w :: 'a::len word)) = uint w div 2 ^ n"
proof -
  have "uint (drop_bit n w) = drop_bit n (uint w)"
    by (rule bit_eqI) (auto simp: bit_uint_iff bit_drop_bit_eq dest: bit_imp_le_length)
  then show ?thesis
    by (simp only: drop_bit_eq_div)
qed

lemma uint_take_bit_eq: "uint (take_bit n (w :: 'a::len word)) = uint w mod 2 ^ n"
  using take_bit_eq_mod [of n "uint w"] by (simp only: unsigned_take_bit_eq)

lemma uint_push_bit_eq:
  "uint (push_bit n (w :: 'a::len word)) = (uint w * 2 ^ n) mod 2 ^ LENGTH('a)"
proof -
  have "uint (push_bit n w) = take_bit LENGTH('a) (push_bit n (uint w))"
    by (rule unsigned_push_bit_eq)
  then show ?thesis
    by (simp only: take_bit_eq_mod push_bit_eq_mult)
qed

lemma unat_drop_bit_div: "unat (drop_bit n (w :: 'a::len word)) = unat w div 2 ^ n"
  using drop_bit_eq_div [of n "unat w"] by (simp only: unat_drop_bit_eq)

subsection \<open>Limb arrays\<close>

text \<open>The number a little-endian array of 32-bit limbs stands for.\<close>

fun limbs_val :: "uint32 list \<Rightarrow> int" where
  "limbs_val [] = 0"
| "limbs_val (x # xs) = uint x + 2 ^ 32 * limbs_val xs"

lemma uint32_bound: "uint (x :: uint32) < 4294967296" "0 \<le> uint (x :: uint32)"
  using uint_lt2p [of x] by simp_all

lemma uint64_bound: "uint (x :: uint64) < 18446744073709551616" "0 \<le> uint (x :: uint64)"
  using uint_lt2p [of x] by simp_all

lemma limbs_val_nonneg [simp]: "0 \<le> limbs_val xs"
  by (induction xs) simp_all

lemma limbs_val_less: "limbs_val xs < 2 ^ (32 * length xs)"
proof (induction xs)
  case Nil
  show ?case by simp
next
  case (Cons x xs)
  have "limbs_val xs + 1 \<le> 2 ^ (32 * length xs)"
    using Cons.IH by simp
  then have "2 ^ 32 * (limbs_val xs + 1) \<le> (2 ^ 32 * 2 ^ (32 * length xs) :: int)"
    by (intro mult_left_mono) simp_all
  moreover have "uint x < 2 ^ 32"
    using uint32_bound(1) [of x] by simp
  ultimately show ?case
    by (simp add: power_add distrib_left)
qed

lemma limbs_val_append [limb_simps]:
  "limbs_val (xs @ ys) = limbs_val xs + 2 ^ (32 * length xs) * limbs_val ys"
  by (induction xs) (simp_all add: power_add algebra_simps)

lemma limbs_val_replicate_0 [simp, limb_simps]: "limbs_val (replicate n 0) = 0"
  by (induction n) simp_all

lemma limbs_val_eq_0_iff: "limbs_val xs = 0 \<longleftrightarrow> (\<forall>x \<in> set xs. x = 0)"
proof (induction xs)
  case Nil
  show ?case by simp
next
  case (Cons x xs)
  have "uint x + 2 ^ 32 * limbs_val xs = 0 \<longleftrightarrow> uint x = 0 \<and> limbs_val xs = 0"
    using add_nonneg_eq_0_iff [of "uint x" "2 ^ 32 * limbs_val xs"] by simp
  then show ?case
    using Cons.IH by (simp add: uint_0_iff)
qed

lemma limbs_val_inject:
  "length xs = length ys \<Longrightarrow> limbs_val xs = limbs_val ys \<longleftrightarrow> xs = ys"
proof (induction xs ys rule: list_induct2)
  case Nil
  show ?case by simp
next
  case (Cons x xs y ys)
  have "uint x = uint y \<and> limbs_val xs = limbs_val ys"
    if eq: "uint x + 2 ^ 32 * limbs_val xs = uint y + 2 ^ 32 * limbs_val ys"
    using arg_cong [OF eq, of "\<lambda>v. v mod 2 ^ 32"] arg_cong [OF eq, of "\<lambda>v. v div 2 ^ 32"]
      uint32_bound [of x] uint32_bound [of y] by simp
  then show ?case
    using Cons.IH by (auto simp: word_uint_eq_iff)
qed

lemma limbs_val_concat_bit: "limbs_val (x # xs) = concat_bit 32 (uint x) (limbs_val xs)"
proof -
  have "take_bit 32 (uint x) = uint x"
    by (simp add: take_bit_int_eq_self uint32_bound)
  then show ?thesis
    by (simp add: concat_bit_eq push_bit_eq_mult)
qed

lemma bit_limbs_val:
  "bit (limbs_val xs) n \<longleftrightarrow> n div 32 < length xs \<and> bit (xs ! (n div 32)) (n mod 32)"
proof (induction xs arbitrary: n)
  case Nil
  show ?case by simp
next
  case (Cons x xs)
  show ?case
  proof (cases "n < 32")
    case True
    then show ?thesis
      by (simp add: limbs_val_concat_bit bit_concat_bit_iff bit_uint_iff del: limbs_val.simps)
  next
    case False
    then have "n div 32 = Suc ((n - 32) div 32)" "n mod 32 = (n - 32) mod 32"
      by (simp_all add: le_div_geq le_mod_geq)
    with False Cons.IH [of "n - 32"] show ?thesis
      by (simp add: limbs_val_concat_bit bit_concat_bit_iff del: limbs_val.simps)
  qed
qed

end
