(* ===== verification/CryptoCommon.thy ===== *)
theory CryptoCommon
  imports Prelude
begin

text \<open>
  The endian readers and writers of \<open>src/src/crypto/common.h\<close>, on byte lists: a writer
  returns the bytes it stores, a reader takes the bytes at its pointer. Each pair is a
  round trip in both directions.
\<close>

definition WriteLE16 :: "uint16 \<Rightarrow> bytes" where
  "WriteLE16 x = [ucast x, ucast (drop_bit 8 x)]"

definition ReadLE16 :: "bytes \<Rightarrow> uint16" where
  "ReadLE16 p = ucast (p ! 0) OR push_bit 8 (ucast (p ! 1))"

definition WriteLE32 :: "uint32 \<Rightarrow> bytes" where
  "WriteLE32 x = [ucast x, ucast (drop_bit 8 x), ucast (drop_bit 16 x), ucast (drop_bit 24 x)]"

definition ReadLE32 :: "bytes \<Rightarrow> uint32" where
  "ReadLE32 p = ucast (p ! 0) OR push_bit 8 (ucast (p ! 1))
     OR push_bit 16 (ucast (p ! 2)) OR push_bit 24 (ucast (p ! 3))"

definition WriteLE64 :: "uint64 \<Rightarrow> bytes" where
  "WriteLE64 x = map (\<lambda>i. ucast (drop_bit (8 * i) x)) [0..<8]"

definition ReadLE64 :: "bytes \<Rightarrow> uint64" where
  "ReadLE64 p = ucast (p ! 0) OR push_bit 8 (ucast (p ! 1))
     OR push_bit 16 (ucast (p ! 2)) OR push_bit 24 (ucast (p ! 3))
     OR push_bit 32 (ucast (p ! 4)) OR push_bit 40 (ucast (p ! 5))
     OR push_bit 48 (ucast (p ! 6)) OR push_bit 56 (ucast (p ! 7))"

definition WriteBE32 :: "uint32 \<Rightarrow> bytes" where
  "WriteBE32 x = [ucast (drop_bit 24 x), ucast (drop_bit 16 x), ucast (drop_bit 8 x), ucast x]"

definition ReadBE32 :: "bytes \<Rightarrow> uint32" where
  "ReadBE32 p = push_bit 24 (ucast (p ! 0)) OR push_bit 16 (ucast (p ! 1))
     OR push_bit 8 (ucast (p ! 2)) OR ucast (p ! 3)"

definition WriteBE64 :: "uint64 \<Rightarrow> bytes" where
  "WriteBE64 x = map (\<lambda>i. ucast (drop_bit (56 - 8 * i) x)) [0..<8]"

definition ReadBE64 :: "bytes \<Rightarrow> uint64" where
  "ReadBE64 p = push_bit 56 (ucast (p ! 0)) OR push_bit 48 (ucast (p ! 1))
     OR push_bit 40 (ucast (p ! 2)) OR push_bit 32 (ucast (p ! 3))
     OR push_bit 24 (ucast (p ! 4)) OR push_bit 16 (ucast (p ! 5))
     OR push_bit 8 (ucast (p ! 6)) OR ucast (p ! 7)"

lemma length_Write [simp]:
  "length (WriteLE16 h) = 2" "length (WriteLE32 x) = 4" "length (WriteLE64 y) = 8"
  "length (WriteBE32 x) = 4" "length (WriteBE64 y) = 8"
  by (simp_all add: WriteLE16_def WriteLE32_def WriteLE64_def WriteBE32_def WriteBE64_def)

text \<open>The locale states what a reader and a writer of one width promise each other.\<close>

locale endian_codec =
  fixes enc :: "'w::len word \<Rightarrow> bytes"
    and dec :: "bytes \<Rightarrow> 'w word"
    and n :: nat
  assumes length_enc: "length (enc x) = n"
    and dec_enc: "dec (enc x) = x"
    and enc_dec: "length p = n \<Longrightarrow> enc (dec p) = p"
begin

lemma enc_inject: "enc x = enc y \<longleftrightarrow> x = y"
  by (metis dec_enc)

lemma dec_inject: "length p = n \<Longrightarrow> length q = n \<Longrightarrow> dec p = dec q \<longleftrightarrow> p = q"
  by (metis enc_dec)

lemma enc_append_inject: "enc x @ r = enc y @ s \<longleftrightarrow> x = y \<and> r = s"
  by (metis append_eq_append_conv dec_enc length_enc)

lemma dec_take_enc: "dec (take n (enc x @ r)) = x"
  by (simp add: length_enc dec_enc)

lemma concat_enc_inject:
  "length xs = length ys \<Longrightarrow> concat (map enc xs) = concat (map enc ys) \<longleftrightarrow> xs = ys"
  by (induction xs ys rule: list_induct2) (auto simp: enc_append_inject)

end

lemma length4_conv: "length p = 4 \<Longrightarrow> p = [p ! 0, p ! 1, p ! 2, p ! 3]"
  by (rule nth_equalityI) (auto simp: numeral_nat less_Suc_eq)

lemma length8_conv:
  "length p = 8 \<Longrightarrow> p = [p ! 0, p ! 1, p ! 2, p ! 3, p ! 4, p ! 5, p ! 6, p ! 7]"
  by (rule nth_equalityI) (auto simp: numeral_nat less_Suc_eq)

lemma upt8: "[0..<8] = [0, 1, 2, 3, 4, 5, 6, 7 :: nat]"
  by (simp add: upt_rec)

text \<open>One byte of a word, moved back to its place.\<close>

lemma bit_byte_in_place:
  fixes x :: "'a::len word"
  shows "bit (push_bit k (ucast (ucast (drop_bit k x) :: uint8)) :: 'a word) n
    \<longleftrightarrow> k \<le> n \<and> n < k + 8 \<and> bit x n"
  by (auto simp: bit_simps dest: bit_imp_le_length)

lemma bit_low_byte:
  fixes x :: "'a::len word"
  shows "bit (ucast (ucast x :: uint8) :: 'a word) n \<longleftrightarrow> n < 8 \<and> bit x n"
  by (auto simp: bit_simps dest: bit_imp_le_length)

lemmas byte_defs = ReadLE16_def WriteLE16_def ReadLE32_def WriteLE32_def ReadLE64_def WriteLE64_def
  ReadBE32_def WriteBE32_def ReadBE64_def WriteBE64_def

lemmas in_place = bit_or_iff bit_byte_in_place bit_low_byte

interpretation LE32: endian_codec WriteLE32 ReadLE32 4
proof
  show "ReadLE32 (WriteLE32 x) = x" for x
    by (rule bit_word_eqI) (auto simp: byte_defs in_place)
  show "WriteLE32 (ReadLE32 p) = p" if "length p = 4" for p
    by (subst (1 2) length4_conv [OF that])
       (simp add: byte_defs, intro conjI; rule bit_word_eqI; auto simp: bit_simps dest: bit_imp_le_length)
qed simp

interpretation LE16: endian_codec WriteLE16 ReadLE16 2
proof
  show "ReadLE16 (WriteLE16 x) = x" for x
    by (rule bit_word_eqI) (auto simp: byte_defs in_place)
  show "WriteLE16 (ReadLE16 p) = p" if "length p = 2" for p
  proof -
    from that obtain a b where p: "p = [a, b]"
      by (auto simp: length_Suc_conv numeral_2_eq_2)
    show ?thesis unfolding p
      by (simp add: byte_defs, intro conjI; rule bit_word_eqI; auto simp: bit_simps dest: bit_imp_le_length)
  qed
qed simp

interpretation BE32: endian_codec WriteBE32 ReadBE32 4
proof
  show "ReadBE32 (WriteBE32 x) = x" for x
    by (rule bit_word_eqI) (auto simp: byte_defs in_place)
  show "WriteBE32 (ReadBE32 p) = p" if "length p = 4" for p
    by (subst (1 2) length4_conv [OF that])
       (simp add: byte_defs, intro conjI; rule bit_word_eqI; auto simp: bit_simps dest: bit_imp_le_length)
qed simp

interpretation LE64: endian_codec WriteLE64 ReadLE64 8
proof
  show "ReadLE64 (WriteLE64 x) = x" for x
    by (rule bit_word_eqI) (auto simp: byte_defs upt8 in_place)
  show "WriteLE64 (ReadLE64 p) = p" if "length p = 8" for p
    by (subst (1 2) length8_conv [OF that])
       (simp add: byte_defs upt8, intro conjI; rule bit_word_eqI; auto simp: bit_simps dest: bit_imp_le_length)
qed simp

interpretation BE64: endian_codec WriteBE64 ReadBE64 8
proof
  show "ReadBE64 (WriteBE64 x) = x" for x
    by (rule bit_word_eqI) (auto simp: byte_defs upt8 in_place)
  show "WriteBE64 (ReadBE64 p) = p" if "length p = 8" for p
    by (subst (1 2) length8_conv [OF that])
       (simp add: byte_defs upt8, intro conjI; rule bit_word_eqI; auto simp: bit_simps dest: bit_imp_le_length)
qed simp

end
