(* ===== verification/ArithUint256.thy ===== *)
theory ArithUint256
  imports CryptoCommon
begin

text \<open>
  The fixed-width big integers of \<open>src/src/arith_uint256.h\<close> and
  \<open>src/src/arith_uint256.cpp\<close>: the class template \<open>base_uint<256>\<close>, its subclass
  \<open>arith_uint256\<close> with the compact target encoding, and the conversions from and to the
  byte blob \<open>uint256\<close>. An object is its array \<open>pn\<close> of eight 32-bit limbs, least
  significant limb first; the loops over the array are written as the source has them.

  The lemmas show that every operation computes the arithmetic operation on the value
  \<open>limbs_val pn\<close> modulo \<open>2 ^ 256\<close>, that the shift-and-subtract division is integer
  division, and that the compact encoding is a truncating, monotone round trip.
\<close>

section \<open>Definitions\<close>

definition WIDTH :: nat where
  "WIDTH = 8"

type_synonym base_uint = "uint32 list"

type_synonym uint256 = bytes

definition wf_uint :: "base_uint \<Rightarrow> bool" where
  "wf_uint pn \<longleftrightarrow> length pn = WIDTH"

subsection \<open>Construction and bitwise operators\<close>

definition base_uint_zero :: base_uint where
  "base_uint_zero = replicate WIDTH 0"

definition base_uint_of_u64 :: "uint64 \<Rightarrow> base_uint" where
  "base_uint_of_u64 b = [ucast b, ucast (drop_bit 32 b)] @ replicate (WIDTH - 2) 0"

definition base_is_zero :: "base_uint \<Rightarrow> bool" where
  "base_is_zero pn = list_all (\<lambda>p. p = 0) pn"

definition base_not :: "base_uint \<Rightarrow> base_uint" where
  "base_not pn = map (\<lambda>p. NOT p) pn"

definition base_xor :: "base_uint \<Rightarrow> base_uint \<Rightarrow> base_uint" where
  "base_xor a b = map2 (\<lambda>x y. x XOR y) a b"

definition base_and :: "base_uint \<Rightarrow> base_uint \<Rightarrow> base_uint" where
  "base_and a b = map2 (\<lambda>x y. x AND y) a b"

definition base_or :: "base_uint \<Rightarrow> base_uint \<Rightarrow> base_uint" where
  "base_or a b = map2 (\<lambda>x y. x OR y) a b"

subsection \<open>Increment, decrement, addition, subtraction\<close>

fun base_inc :: "base_uint \<Rightarrow> base_uint" where
  "base_inc [] = []"
| "base_inc (p # ps) = (if p + 1 = 0 then (p + 1) # base_inc ps else (p + 1) # ps)"

fun base_dec :: "base_uint \<Rightarrow> base_uint" where
  "base_dec [] = []"
| "base_dec (p # ps) = (if p - 1 = -1 then (p - 1) # base_dec ps else (p - 1) # ps)"

definition base_uminus :: "base_uint \<Rightarrow> base_uint" where
  "base_uminus pn = base_inc (map (\<lambda>p. NOT p) pn)"

fun add_loop :: "uint64 \<Rightarrow> base_uint \<Rightarrow> base_uint \<Rightarrow> base_uint" where
  "add_loop carry (p # ps) (b # bs) =
     (let n = carry + ucast p + ucast b
      in ucast (n AND 0xffffffff) # add_loop (drop_bit 32 n) ps bs)"
| "add_loop carry _ _ = []"

definition base_add :: "base_uint \<Rightarrow> base_uint \<Rightarrow> base_uint" where
  "base_add a b = add_loop 0 a b"

definition base_sub :: "base_uint \<Rightarrow> base_uint \<Rightarrow> base_uint" where
  "base_sub a b = base_add a (base_uminus b)"

definition base_add_u64 :: "base_uint \<Rightarrow> uint64 \<Rightarrow> base_uint" where
  "base_add_u64 a b = base_add a (base_uint_of_u64 b)"

subsection \<open>Shifts\<close>

definition shl_step :: "nat \<Rightarrow> nat \<Rightarrow> base_uint \<Rightarrow> base_uint \<Rightarrow> nat \<Rightarrow> base_uint" where
  "shl_step k s a pn i =
     (let pn1 = (if i + k + 1 < WIDTH \<and> s \<noteq> 0
                 then pn[i + k + 1 := (pn ! (i + k + 1)) OR drop_bit (32 - s) (a ! i)]
                 else pn)
      in if i + k < WIDTH
         then pn1[i + k := (pn1 ! (i + k)) OR push_bit s (a ! i)]
         else pn1)"

definition base_shl :: "base_uint \<Rightarrow> nat \<Rightarrow> base_uint" where
  "base_shl a shift =
     foldl (shl_step (shift div 32) (shift mod 32) a) (replicate WIDTH 0) [0..<WIDTH]"

definition shr_step :: "nat \<Rightarrow> nat \<Rightarrow> base_uint \<Rightarrow> base_uint \<Rightarrow> nat \<Rightarrow> base_uint" where
  "shr_step k s a pn i =
     (let pn1 = (if k + 1 \<le> i \<and> s \<noteq> 0
                 then pn[i - k - 1 := (pn ! (i - k - 1)) OR push_bit (32 - s) (a ! i)]
                 else pn)
      in if k \<le> i
         then pn1[i - k := (pn1 ! (i - k)) OR drop_bit s (a ! i)]
         else pn1)"

definition base_shr :: "base_uint \<Rightarrow> nat \<Rightarrow> base_uint" where
  "base_shr a shift =
     foldl (shr_step (shift div 32) (shift mod 32) a) (replicate WIDTH 0) [0..<WIDTH]"

subsection \<open>Multiplication\<close>

fun mul32_loop :: "uint32 \<Rightarrow> uint64 \<Rightarrow> base_uint \<Rightarrow> base_uint" where
  "mul32_loop b32 carry [] = []"
| "mul32_loop b32 carry (p # ps) =
     (let n = carry + ucast b32 * ucast p
      in ucast (n AND 0xffffffff) # mul32_loop b32 (drop_bit 32 n) ps)"

definition base_mul32 :: "base_uint \<Rightarrow> uint32 \<Rightarrow> base_uint" where
  "base_mul32 pn b32 = mul32_loop b32 0 pn"

text \<open>
  \<open>mul_row aj carry ps bs\<close> is the inner loop for one limb \<open>a.pn[j]\<close>: \<open>ps\<close> is
  \<open>pn[j], pn[j+1], ...\<close> and \<open>bs\<close> is \<open>b.pn[0], b.pn[1], ...\<close>; it stops with the
  array, which is the source's \<open>i + j < WIDTH\<close>.
\<close>

fun mul_row :: "uint32 \<Rightarrow> uint64 \<Rightarrow> base_uint \<Rightarrow> base_uint \<Rightarrow> base_uint" where
  "mul_row aj carry (p # ps) (b # bs) =
     (let n = carry + ucast p + ucast aj * ucast b
      in ucast (n AND 0xffffffff) # mul_row aj (drop_bit 32 n) ps bs)"
| "mul_row aj carry ps _ = ps"

definition base_mul :: "base_uint \<Rightarrow> base_uint \<Rightarrow> base_uint" where
  "base_mul a b =
     foldl (\<lambda>pn j. take j pn @ mul_row (a ! j) 0 (drop j pn) b) base_uint_zero [0..<WIDTH]"

subsection \<open>Comparison and size\<close>

fun CompareTo_loop :: "base_uint \<Rightarrow> base_uint \<Rightarrow> nat \<Rightarrow> int" where
  "CompareTo_loop a b 0 = 0"
| "CompareTo_loop a b (Suc i) =
     (if a ! i < b ! i then - 1
      else if a ! i > b ! i then 1
      else CompareTo_loop a b i)"

definition CompareTo :: "base_uint \<Rightarrow> base_uint \<Rightarrow> int" where
  "CompareTo a b = CompareTo_loop a b WIDTH"

definition base_less :: "base_uint \<Rightarrow> base_uint \<Rightarrow> bool" where
  "base_less a b \<longleftrightarrow> CompareTo a b < 0"

definition base_greater :: "base_uint \<Rightarrow> base_uint \<Rightarrow> bool" where
  "base_greater a b \<longleftrightarrow> CompareTo a b > 0"

definition base_ge :: "base_uint \<Rightarrow> base_uint \<Rightarrow> bool" where
  "base_ge a b \<longleftrightarrow> CompareTo a b \<ge> 0"

definition EqualTo :: "base_uint \<Rightarrow> uint64 \<Rightarrow> bool" where
  "EqualTo pn b =
     (if \<not> list_all (\<lambda>i. pn ! i = 0) [2..<WIDTH] then False
      else if (ucast (pn ! 1) :: uint64) \<noteq> drop_bit 32 b then False
      else if (ucast (pn ! 0) :: uint64) \<noteq> b AND 0xffffffff then False
      else True)"

fun bits_word :: "uint32 \<Rightarrow> nat \<Rightarrow> nat \<Rightarrow> nat" where
  "bits_word w pos 0 = 32 * pos + 1"
| "bits_word w pos (Suc n) =
     (if w AND push_bit (Suc n) 1 \<noteq> 0 then 32 * pos + Suc n + 1 else bits_word w pos n)"

fun bits_loop :: "base_uint \<Rightarrow> nat \<Rightarrow> nat" where
  "bits_loop pn 0 = 0"
| "bits_loop pn (Suc pos) =
     (if pn ! pos \<noteq> 0 then bits_word (pn ! pos) pos 31 else bits_loop pn pos)"

definition base_bits :: "base_uint \<Rightarrow> nat" where
  "base_bits pn = bits_loop pn WIDTH"

definition GetLow64 :: "base_uint \<Rightarrow> uint64" where
  "GetLow64 pn = ucast (pn ! 0) OR push_bit 32 (ucast (pn ! 1))"

subsection \<open>Division\<close>

text \<open>
  \<open>div_loop (Suc s) q num d\<close> is the loop body at \<open>shift = s\<close>; \<open>div_loop 0\<close> is the
  loop's exit at \<open>shift = -1\<close>. Division by zero throws \<open>uint_error\<close>: \<open>None\<close>.
\<close>

fun div_loop :: "nat \<Rightarrow> base_uint \<Rightarrow> base_uint \<Rightarrow> base_uint \<Rightarrow> base_uint" where
  "div_loop 0 q num d = q"
| "div_loop (Suc s) q num d =
     (if base_ge num d
      then div_loop s (q[s div 32 := (q ! (s div 32)) OR push_bit (s mod 32) 1])
             (base_sub num d) (base_shr d 1)
      else div_loop s q num (base_shr d 1))"

definition base_div :: "base_uint \<Rightarrow> base_uint \<Rightarrow> base_uint option" where
  "base_div a b =
     (let num_bits = base_bits a; div_bits = base_bits b
      in if div_bits = 0 then None
         else if div_bits > num_bits then Some base_uint_zero
         else let shift = num_bits - div_bits
              in Some (div_loop (Suc shift) base_uint_zero a (base_shl b shift)))"

subsection \<open>The compact encoding\<close>

text \<open>\<open>SetCompact\<close> returns the new value, \<open>*pfNegative\<close> and \<open>*pfOverflow\<close>.\<close>

definition SetCompact :: "uint32 \<Rightarrow> base_uint \<times> bool \<times> bool" where
  "SetCompact nCompact =
     (let nSize = unat (drop_bit 24 nCompact);
          nWord = nCompact AND 0x007fffff;
          (nWord', this) =
            (if nSize \<le> 3
             then let w = drop_bit (8 * (3 - nSize)) nWord in (w, base_uint_of_u64 (ucast w))
             else (nWord, base_shl (base_uint_of_u64 (ucast nWord)) (8 * (nSize - 3))));
          fNegative = (nWord' \<noteq> 0 \<and> nCompact AND 0x00800000 \<noteq> 0);
          fOverflow = (nWord' \<noteq> 0 \<and> (nSize > 34 \<or> (nWord' > 0xff \<and> nSize > 33)
                                        \<or> (nWord' > 0xffff \<and> nSize > 32)))
      in (this, fNegative, fOverflow))"

definition GetCompact :: "base_uint \<Rightarrow> bool \<Rightarrow> uint32 option" where
  "GetCompact pn fNegative =
     (let nSize = (base_bits pn + 7) div 8;
          nCompact = (if nSize \<le> 3
                      then ucast (push_bit (8 * (3 - nSize)) (GetLow64 pn)) :: uint32
                      else ucast (GetLow64 (base_shr pn (8 * (nSize - 3)))));
          (nCompact', nSize') =
            (if nCompact AND 0x00800000 \<noteq> 0 then (drop_bit 8 nCompact, nSize + 1)
             else (nCompact, nSize))
      in if nCompact' AND NOT 0x007fffff \<noteq> 0 then None
         else if \<not> nSize' < 256 then None
         else let c = nCompact' OR push_bit 24 (word_of_nat nSize')
              in Some (c OR (if fNegative \<and> c AND 0x007fffff \<noteq> 0 then 0x00800000 else 0)))"

subsection \<open>Conversions to and from the byte blob\<close>

definition ArithToUint256 :: "base_uint \<Rightarrow> uint256" where
  "ArithToUint256 a = concat (map (\<lambda>x. WriteLE32 (a ! x)) [0..<WIDTH])"

definition UintToArith256 :: "uint256 \<Rightarrow> base_uint" where
  "UintToArith256 a = map (\<lambda>x. ReadLE32 (take 4 (drop (4 * x) a))) [0..<WIDTH]"

section \<open>Addition, subtraction, multiplication\<close>

abbreviation uval :: "base_uint \<Rightarrow> int" where
  "uval \<equiv> limbs_val"

abbreviation M256 :: int where
  "M256 \<equiv> 2 ^ 256"

lemma WIDTH_simp [simp]: "WIDTH = 8"
  by (simp add: WIDTH_def)

lemma wf_uint_length [simp]: "wf_uint a \<Longrightarrow> length a = 8"
  by (simp add: wf_uint_def)

lemma uval_bounds: "wf_uint a \<Longrightarrow> uval a < M256"
  using limbs_val_less [of a] by (simp add: wf_uint_def)

lemma uval_inject: "wf_uint a \<Longrightarrow> wf_uint b \<Longrightarrow> uval a = uval b \<longleftrightarrow> a = b"
  by (simp add: wf_uint_def limbs_val_inject)

lemma wf_base_zero [simp]: "wf_uint base_uint_zero"
  by (simp add: wf_uint_def base_uint_zero_def)

lemma uval_zero [simp]: "uval base_uint_zero = 0"
  by (simp add: base_uint_zero_def)

lemma wf_base_of_u64 [simp]: "wf_uint (base_uint_of_u64 b)"
  by (simp add: wf_uint_def base_uint_of_u64_def)

lemma uint_drop_bit_32 [simp]: "uint (drop_bit 32 (n :: uint64)) = uint n div 2 ^ 32"
  by (rule uint_drop_bit_eq)

lemma uint_ucast_64_32: "uint (ucast (n :: uint64) :: uint32) = uint n mod 2 ^ 32"
  by (simp add: unsigned_ucast_eq take_bit_eq_mod)

lemma uint_div_2p32: "uint (b :: uint64) div 2 ^ 32 mod 2 ^ 32 = uint b div 2 ^ 32"
proof (rule mod_pos_pos_trivial)
  show "0 \<le> uint b div 2 ^ 32"
    by (simp add: pos_imp_zdiv_nonneg_iff)
  show "uint b div 2 ^ 32 < 2 ^ 32"
    using uint64_bound [of b] by simp
qed

lemma uint_split_u64:
  "uint (ucast b :: uint32) + 2 ^ 32 * uint (ucast (drop_bit 32 b) :: uint32) = uint (b :: uint64)"
  unfolding uint_ucast_64_32 uint_drop_bit_32 uint_div_2p32
  by (rule mod_mult_div_eq)

lemma uval_of_u64 [simp]: "uval (base_uint_of_u64 b) = uint b"
  using uint_split_u64 [of b] by (simp add: base_uint_of_u64_def)

text \<open>
  One carry step: the 64-bit accumulator \<open>n\<close> is split into the limb that is stored and
  the carry that goes on.
\<close>

lemma and_ffffffff: "n AND 0xffffffff = take_bit 32 (n :: uint64)"
  by (simp add: take_bit_eq_mask mask_eq_exp_minus_1)

lemma limb_carry_split:
  "uint (ucast (n AND 0xffffffff) :: uint32) + 2 ^ 32 * uint (drop_bit 32 n) = uint (n :: uint64)"
proof -
  have "ucast (n AND 0xffffffff) = (ucast n :: uint32)"
    unfolding and_ffffffff by (rule bit_word_eqI) (auto simp: bit_simps)
  then show ?thesis
    unfolding uint_drop_bit_32 by (simp only: uint_ucast_64_32 mod_mult_div_eq)
qed

lemma uint_ucast_32_64 [simp]: "uint (ucast (x :: uint32) :: uint64) = uint x"
  by (simp add: uint_up_ucast is_up)

lemma uint_add64:
  "uint a + uint b < 2 ^ 64 \<Longrightarrow> uint (a + b :: uint64) = uint a + uint b"
  by (simp add: uint_word_ariths)

lemma uint_mult64:
  "uint a * uint b < 2 ^ 64 \<Longrightarrow> uint (a * b :: uint64) = uint a * uint b"
  by (simp add: uint_word_ariths)

lemma uint32_mult_bound: "uint (x :: uint32) * uint (y :: uint32) \<le> (2 ^ 32 - 1) * (2 ^ 32 - 1)"
  using uint32_bound [of x] uint32_bound [of y] by (intro mult_mono) simp_all

lemma add_loop_val:
  "length a = length b \<Longrightarrow> uint c \<le> 1 \<Longrightarrow>
   \<exists>k. uval (add_loop c a b) + 2 ^ (32 * length a) * k = uval a + uval b + uint c"
proof (induction c a b rule: add_loop.induct)
  case (1 carry p ps b bs)
  let ?n = "carry + ucast p + ucast b"
  have n: "uint ?n = uint carry + uint p + uint b"
    using "1.prems"(2) uint32_bound [of p] uint32_bound [of b]
    by (simp add: uint_add64)
  have c: "uint (drop_bit 32 ?n) \<le> 1"
    unfolding uint_drop_bit_32 n
    using "1.prems"(2) uint32_bound [of p] uint32_bound [of b] by simp
  obtain k where k: "uval (add_loop (drop_bit 32 ?n) ps bs) + 2 ^ (32 * length ps) * k
      = uval ps + uval bs + uint (drop_bit 32 ?n)"
    using "1.IH" [OF refl _ c] "1.prems"(1) by auto
  have "uval (add_loop carry (p # ps) (b # bs)) + 2 ^ (32 * length (p # ps)) * k
      = uint (ucast (?n AND 0xffffffff) :: uint32)
        + 2 ^ 32 * (uval (add_loop (drop_bit 32 ?n) ps bs) + 2 ^ (32 * length ps) * k)"
    by (simp add: Let_def power_add algebra_simps)
  also have "\<dots> = uint ?n + 2 ^ 32 * (uval ps + uval bs)"
    unfolding k using limb_carry_split [of ?n] by (simp only: distrib_left add_ac)
  also have "\<dots> = uval (p # ps) + uval (b # bs) + uint carry"
    by (simp add: n)
  finally show ?case by blast
qed (auto intro: exI [of _ 0])

lemma length_add_loop: "length a = length b \<Longrightarrow> length (add_loop c a b) = length a"
  by (induction c a b rule: add_loop.induct) (simp_all add: Let_def)

lemma wf_base_add [simp]: "wf_uint a \<Longrightarrow> wf_uint b \<Longrightarrow> wf_uint (base_add a b)"
  by (simp add: wf_uint_def base_add_def length_add_loop)

lemma mod_M256_I: "\<lbrakk>v + M256 * k = w; 0 \<le> v; v < M256\<rbrakk> \<Longrightarrow> v = w mod M256"
  by (metis mod_mult_self2 mod_pos_pos_trivial)

lemma uval_add:
  assumes "wf_uint a" "wf_uint b"
  shows "uval (base_add a b) = (uval a + uval b) mod M256"
proof -
  obtain k where "uval (base_add a b) + M256 * k = uval a + uval b"
    using add_loop_val [of a b 0] assms by (auto simp: base_add_def)
  then show ?thesis
    by (rule mod_M256_I) (use uval_bounds [of "base_add a b"] assms in simp_all)
qed

lemma length_base_inc [simp]: "length (base_inc a) = length a"
  by (induction a rule: base_inc.induct) simp_all

lemma base_inc_val:
  "\<exists>k. uval (base_inc a) + 2 ^ (32 * length a) * k = uval a + 1"
proof (induction a rule: base_inc.induct)
  case 1
  show ?case by (intro exI [of _ 1]) simp
next
  case (2 p ps)
  show ?case
  proof (cases "p + 1 = 0")
    case True
    then have "p = - 1"
      by (simp add: add_eq_0_iff2)
    then have p: "uint p = 2 ^ 32 - 1"
      by (simp add: unsigned_minus_1_eq_mask mask_eq_exp_minus_1)
    obtain k where "uval (base_inc ps) + 2 ^ (32 * length ps) * k = uval ps + 1"
      using "2.IH" [OF True] by blast
    then have "2 ^ 32 * (uval (base_inc ps) + 2 ^ (32 * length ps) * k) = 2 ^ 32 * (uval ps + 1)"
      by simp
    with True p show ?thesis
      by (intro exI [of _ k]) (simp add: power_add algebra_simps)
  next
    case False
    then have "uint (p + 1) = uint p + 1"
      using uint32_bound [of p] uint_0_iff [of "p + 1"] by (auto simp: uint_plus_if' split: if_splits)
    with False show ?thesis
      by (intro exI [of _ 0]) simp
  qed
qed

lemma uval_map_not: "uval (map (\<lambda>p. NOT p) a) = 2 ^ (32 * length a) - 1 - uval a"
proof (induction a)
  case Nil
  show ?case by simp
next
  case (Cons x a)
  have "uint (NOT x) = 2 ^ 32 - 1 - uint x"
    by (simp add: unsigned_not_eq take_bit_not_eq_mask_diff mask_eq_exp_minus_1
        take_bit_int_eq_self uint32_bound)
  with Cons.IH show ?case
    by (simp add: power_add algebra_simps)
qed

lemma wf_base_uminus [simp]: "wf_uint a \<Longrightarrow> wf_uint (base_uminus a)"
  by (simp add: wf_uint_def base_uminus_def)

lemma wf_base_not [simp]: "wf_uint a \<Longrightarrow> wf_uint (base_not a)"
  by (simp add: wf_uint_def base_not_def)

lemma uval_not: "wf_uint a \<Longrightarrow> uval (base_not a) = M256 - 1 - uval a"
  by (simp add: base_not_def uval_map_not)

lemma uval_uminus:
  assumes "wf_uint a"
  shows "uval (base_uminus a) = (- uval a) mod M256"
proof -
  obtain k where "uval (base_uminus a) + M256 * k = M256 - uval a"
    using base_inc_val [of "map (\<lambda>p. NOT p) a"] assms
    by (auto simp: base_uminus_def uval_map_not)
  then have "uval (base_uminus a) + M256 * (k - 1) = - uval a"
    by (simp add: algebra_simps)
  then show ?thesis
    by (rule mod_M256_I) (use uval_bounds [of "base_uminus a"] assms in simp_all)
qed

lemma wf_base_sub [simp]: "wf_uint a \<Longrightarrow> wf_uint b \<Longrightarrow> wf_uint (base_sub a b)"
  by (simp add: base_sub_def)

lemma uval_sub:
  "wf_uint a \<Longrightarrow> wf_uint b \<Longrightarrow> uval (base_sub a b) = (uval a - uval b) mod M256"
  by (simp add: base_sub_def uval_add uval_uminus mod_simps)

lemma uval_sub_le:
  "wf_uint a \<Longrightarrow> wf_uint b \<Longrightarrow> uval b \<le> uval a \<Longrightarrow> uval (base_sub a b) = uval a - uval b"
  using uval_bounds [of a] limbs_val_nonneg [of b]
  by (simp add: uval_sub del: limbs_val_nonneg)

lemma length_mul32_loop [simp]: "length (mul32_loop b c a) = length a"
  by (induction b c a rule: mul32_loop.induct) (simp_all add: Let_def)

lemma mul32_step:
  assumes "uint c < 2 ^ 32"
  shows "uint (c + ucast (b :: uint32) * ucast (p :: uint32) :: uint64) = uint c + uint b * uint p"
    and "uint (drop_bit 32 (c + ucast b * ucast p :: uint64)) < 2 ^ 32"
proof -
  note mb = uint32_mult_bound [of b p]
  have m: "uint (ucast b * ucast p :: uint64) = uint b * uint p"
    using mb by (subst uint_mult64) simp_all
  show n: "uint (c + ucast b * ucast p :: uint64) = uint c + uint b * uint p"
    using mb m assms by (subst uint_add64) simp_all
  show "uint (drop_bit 32 (c + ucast b * ucast p :: uint64)) < 2 ^ 32"
    unfolding uint_drop_bit_32 n using mb assms by simp
qed

lemma mul32_loop_val:
  "uint c < 2 ^ 32 \<Longrightarrow>
   \<exists>k. uval (mul32_loop b c a) + 2 ^ (32 * length a) * k = uint c + uint b * uval a"
proof (induction b c a rule: mul32_loop.induct)
  case (1 b c)
  show ?case by (auto intro: exI [of _ "uint c"])
next
  case (2 b c p ps)
  let ?n = "c + ucast b * ucast p :: uint64"
  note n = mul32_step [OF "2.prems", of b p]
  obtain k where k: "uval (mul32_loop b (drop_bit 32 ?n) ps) + 2 ^ (32 * length ps) * k
      = uint (drop_bit 32 ?n) + uint b * uval ps"
    using "2.IH" [OF refl n(2)] by blast
  have "uval (mul32_loop b c (p # ps)) + 2 ^ (32 * length (p # ps)) * k
      = uint (ucast (?n AND 0xffffffff) :: uint32)
        + 2 ^ 32 * (uval (mul32_loop b (drop_bit 32 ?n) ps) + 2 ^ (32 * length ps) * k)"
    by (simp add: Let_def power_add algebra_simps)
  also have "\<dots> = uint ?n + 2 ^ 32 * (uint b * uval ps)"
    unfolding k using limb_carry_split [of ?n] by (simp only: distrib_left add_ac)
  also have "\<dots> = uint c + uint b * uval (p # ps)"
    by (simp add: n(1) algebra_simps)
  finally show ?case by blast
qed

lemma wf_base_mul32 [simp]: "wf_uint a \<Longrightarrow> wf_uint (base_mul32 a b)"
  by (simp add: wf_uint_def base_mul32_def)

lemma uval_mul32:
  assumes "wf_uint a"
  shows "uval (base_mul32 a b) = (uval a * uint b) mod M256"
proof -
  obtain k where "uval (base_mul32 a b) + M256 * k = uval a * uint b"
    using mul32_loop_val [of 0 b a] assms by (auto simp: base_mul32_def mult.commute)
  then show ?thesis
    by (rule mod_M256_I) (use uval_bounds [of "base_mul32 a b"] assms in simp_all)
qed

lemma length_mul_row [simp]: "length (mul_row aj c ps bs) = length ps"
  by (induction aj c ps bs rule: mul_row.induct) (simp_all add: Let_def)

lemma mul_row_step:
  assumes "uint c < 2 ^ 32"
  shows "uint (c + ucast (p :: uint32) + ucast (aj :: uint32) * ucast (b :: uint32) :: uint64)
           = uint c + uint p + uint aj * uint b"
    and "uint (drop_bit 32 (c + ucast p + ucast aj * ucast b :: uint64)) < 2 ^ 32"
proof -
  note mb = uint32_mult_bound [of aj b] and pb = uint32_bound [of p]
  have m: "uint (ucast aj * ucast b :: uint64) = uint aj * uint b"
    using mb by (subst uint_mult64) simp_all
  have cp: "uint (c + ucast p :: uint64) = uint c + uint p"
    using pb assms by (subst uint_add64) simp_all
  show n: "uint (c + ucast p + ucast aj * ucast b :: uint64) = uint c + uint p + uint aj * uint b"
    using mb m pb cp assms by (subst uint_add64) simp_all
  show "uint (drop_bit 32 (c + ucast p + ucast aj * ucast b :: uint64)) < 2 ^ 32"
    unfolding uint_drop_bit_32 n using mb pb assms by simp
qed

lemma mul_row_val:
  "uint c < 2 ^ 32 \<Longrightarrow> length ps \<le> length bs \<Longrightarrow>
   \<exists>k. uval (mul_row aj c ps bs) + 2 ^ (32 * length ps) * k
       = uint c + uval ps + uint aj * uval bs"
proof (induction aj c ps bs rule: mul_row.induct)
  case (1 aj c p ps b bs)
  let ?n = "c + ucast p + ucast aj * ucast b :: uint64"
  note n = mul_row_step [OF "1.prems"(1), of p aj b]
  obtain k where k: "uval (mul_row aj (drop_bit 32 ?n) ps bs) + 2 ^ (32 * length ps) * k
      = uint (drop_bit 32 ?n) + uval ps + uint aj * uval bs"
    using "1.IH" [OF refl n(2)] "1.prems"(2) by auto
  have "uval (mul_row aj c (p # ps) (b # bs)) + 2 ^ (32 * length (p # ps)) * k
      = uint (ucast (?n AND 0xffffffff) :: uint32)
        + 2 ^ 32 * (uval (mul_row aj (drop_bit 32 ?n) ps bs) + 2 ^ (32 * length ps) * k)"
    by (simp add: Let_def power_add algebra_simps)
  also have "\<dots> = uint ?n + 2 ^ 32 * (uval ps + uint aj * uval bs)"
    unfolding k using limb_carry_split [of ?n] by (simp only: distrib_left add_ac)
  also have "\<dots> = uint c + uval (p # ps) + uint aj * uval (b # bs)"
    unfolding n(1) by (simp add: algebra_simps)
  finally show ?case by blast
qed simp_all

text \<open>
  After the rows \<open>0, ..., n - 1\<close> the array holds the product of the first \<open>n\<close> limbs of
  \<open>a\<close> with \<open>b\<close>, modulo \<open>2 ^ 256\<close>.
\<close>

lemma uval_take_drop: "uval a = uval (take n a) + 2 ^ (32 * min n (length a)) * uval (drop n a)"
  using limbs_val_append [of "take n a" "drop n a"] by (simp add: min.commute)

lemma uval_take_Suc:
  assumes "n < length a"
  shows "uval (take (Suc n) a) = uval (take n a) + 2 ^ (32 * n) * uint (a ! n)"
  using assms by (simp add: take_Suc_conv_app_nth limbs_val_append)

lemma mul_rows_val:
  assumes "wf_uint a" "wf_uint b" "n \<le> 8"
  defines "row \<equiv> \<lambda>pn j. take j pn @ mul_row (a ! j) 0 (drop j pn) b"
  shows "length (foldl row base_uint_zero [0..<n]) = 8
    \<and> uval (foldl row base_uint_zero [0..<n]) = (uval (take n a) * uval b) mod M256"
  using assms(3)
proof (induction n)
  case 0
  show ?case
    by (simp add: base_uint_zero_def)
next
  case (Suc n)
  define pn where "pn = foldl row base_uint_zero [0..<n]"
  have len: "length pn = 8" and val: "uval pn = (uval (take n a) * uval b) mod M256"
    using Suc by (simp_all add: pn_def)
  have n: "n < 8" using Suc.prems by simp
  obtain k where k: "uval (mul_row (a ! n) 0 (drop n pn) b) + 2 ^ (32 * (8 - n)) * k
      = uval (drop n pn) + uint (a ! n) * uval b"
    using mul_row_val [of 0 "drop n pn" b "a ! n"] assms(2) len by auto
  have p: "(2 :: int) ^ (32 * n) * 2 ^ (32 * (8 - n)) = M256"
  proof -
    have "32 * n + 32 * (8 - n) = 256"
      using n by simp
    then show ?thesis
      by (simp only: power_add [symmetric])
  qed
  have "uval (row pn n) + M256 * k
      = uval (take n pn) + 2 ^ (32 * n) * (uval (mul_row (a ! n) 0 (drop n pn) b)
          + 2 ^ (32 * (8 - n)) * k)"
    using len n by (simp add: row_def limbs_val_append distrib_left mult.assoc [symmetric] p)
  also have "\<dots> = uval pn + 2 ^ (32 * n) * (uint (a ! n) * uval b)"
    unfolding k using uval_take_drop [of pn n] len n by (simp add: distrib_left)
  finally have eq: "uval (row pn n) + M256 * k = uval pn + 2 ^ (32 * n) * (uint (a ! n) * uval b)" .
  have row_len: "length (row pn n) = 8"
    using len n by (simp add: row_def)
  have "uval (row pn n) = (uval pn + 2 ^ (32 * n) * (uint (a ! n) * uval b)) mod M256"
    using eq by (rule mod_M256_I) (use limbs_val_less [of "row pn n"] row_len in simp_all)
  also have "\<dots> = (uval (take n a) * uval b + 2 ^ (32 * n) * (uint (a ! n) * uval b)) mod M256"
    unfolding val by (rule mod_add_left_eq)
  also have "\<dots> = (uval (take (Suc n) a) * uval b) mod M256"
    using assms(1) n by (simp add: uval_take_Suc distrib_right mult.assoc)
  finally show ?case
    using row_len by (simp add: pn_def)
qed

lemma wf_base_mul [simp]: "wf_uint a \<Longrightarrow> wf_uint b \<Longrightarrow> wf_uint (base_mul a b)"
  using mul_rows_val [of a b 8] by (simp add: base_mul_def wf_uint_def)

lemma uval_mul:
  "wf_uint a \<Longrightarrow> wf_uint b \<Longrightarrow> uval (base_mul a b) = (uval a * uval b) mod M256"
  using mul_rows_val [of a b 8] by (simp add: base_mul_def)

section \<open>Comparison\<close>

lemma uint32_word_less: "(x :: uint32) < y \<longleftrightarrow> uint x < uint y"
  by (rule word_less_def)

lemma CompareTo_loop_sgn:
  "i \<le> length a \<Longrightarrow> length a = length b \<Longrightarrow>
   CompareTo_loop a b i = sgn (uval (take i a) - uval (take i b))"
proof (induction i)
  case 0
  show ?case by simp
next
  case (Suc i)
  have lt: "uval (take i a) < 2 ^ (32 * i)" "uval (take i b) < 2 ^ (32 * i)"
    using limbs_val_less [of "take i a"] limbs_val_less [of "take i b"] Suc.prems by simp_all
  have gap: "sgn (u + 2 ^ (32 * i) * x - (v + 2 ^ (32 * i) * y)) = (if x < y then - 1 else 1)"
    if "x \<noteq> y" "0 \<le> u" "0 \<le> v" "u < 2 ^ (32 * i)" "v < 2 ^ (32 * i)" for u v x y :: int
  proof (cases "x < y")
    case True
    then have "2 ^ (32 * i) * (x + 1) \<le> 2 ^ (32 * i) * y"
      by (intro mult_left_mono) simp_all
    then have "u + 2 ^ (32 * i) * x < v + 2 ^ (32 * i) * y"
      using that by (simp add: distrib_left)
    with True show ?thesis by simp
  next
    case False
    with that(1) have "2 ^ (32 * i) * (y + 1) \<le> 2 ^ (32 * i) * x"
      by (intro mult_left_mono) simp_all
    then have "v + 2 ^ (32 * i) * y < u + 2 ^ (32 * i) * x"
      using that by (simp add: distrib_left)
    with False show ?thesis by simp
  qed
  have "CompareTo_loop a b (Suc i)
      = (if uint (a ! i) = uint (b ! i) then CompareTo_loop a b i
         else if uint (a ! i) < uint (b ! i) then - 1 else 1)"
    by (simp add: word_less_def word_uint_eq_iff)
  then show ?case
    using Suc gap [OF _ _ _ lt, of "uint (a ! i)" "uint (b ! i)"]
    by (simp add: uval_take_Suc)
qed

lemma CompareTo_sgn: "wf_uint a \<Longrightarrow> wf_uint b \<Longrightarrow> CompareTo a b = sgn (uval a - uval b)"
  using CompareTo_loop_sgn [of 8 a b] by (simp add: CompareTo_def)

lemma base_less_iff [simp]: "wf_uint a \<Longrightarrow> wf_uint b \<Longrightarrow> base_less a b \<longleftrightarrow> uval a < uval b"
  by (simp add: base_less_def CompareTo_sgn)

lemma base_greater_iff [simp]:
  "wf_uint a \<Longrightarrow> wf_uint b \<Longrightarrow> base_greater a b \<longleftrightarrow> uval a > uval b"
  by (simp add: base_greater_def CompareTo_sgn)

lemma base_ge_iff [simp]: "wf_uint a \<Longrightarrow> wf_uint b \<Longrightarrow> base_ge a b \<longleftrightarrow> uval a \<ge> uval b"
  by (simp add: base_ge_def CompareTo_sgn sgn_if)

section \<open>Bit length\<close>

lemma bit_top_iff: "0 \<le> k \<Longrightarrow> k < 2 ^ Suc n \<Longrightarrow> bit (k :: int) n \<longleftrightarrow> 2 ^ n \<le> k"
proof (cases "2 ^ n \<le> k")
  case True
  assume "0 \<le> k" "k < 2 ^ Suc n"
  with True have "k div 2 ^ n = 1"
    by (intro int_div_pos_eq [of _ _ _ "k - 2 ^ n"]) simp_all
  with True show ?thesis
    by (simp add: bit_iff_odd)
next
  case False
  assume "0 \<le> k"
  with False show ?thesis
    by (simp add: bit_iff_odd)
qed

lemma bits_word_spec:
  "w \<noteq> 0 \<Longrightarrow> uint w < 2 ^ Suc n \<Longrightarrow>
   \<exists>m \<le> n. bits_word w pos n = 32 * pos + m + 1 \<and> 2 ^ m \<le> uint w \<and> uint w < 2 ^ Suc m"
proof (induction n)
  case 0
  from 0 have "uint w < 2" "uint w \<noteq> 0"
    by (simp_all add: uint_0_iff)
  then have "uint w = 1"
    using uint32_bound(2) [of w] by linarith
  then show ?case by simp
next
  case (Suc n)
  have b: "w AND push_bit (Suc n) 1 \<noteq> 0 \<longleftrightarrow> 2 ^ Suc n \<le> uint w"
    using bit_top_iff [OF _ Suc.prems(2)] bit_uint_iff [of w "Suc n"] bit_imp_le_length [of w "Suc n"]
    unfolding bit_iff_and_push_bit_not_eq_0 [symmetric] by auto
  show ?case
  proof (cases "2 ^ Suc n \<le> uint w")
    case True
    then show ?thesis
      using b Suc.prems(2) by (intro exI [of _ "Suc n"]) simp
  next
    case False
    then show ?thesis
      using b Suc.IH Suc.prems(1) by (auto simp: le_Suc_eq)
  qed
qed

lemma bits_loop_spec:
  "pos \<le> length pn \<Longrightarrow>
   (if uval (take pos pn) = 0 then bits_loop pn pos = 0
    else 2 ^ (bits_loop pn pos - 1) \<le> uval (take pos pn) \<and> uval (take pos pn) < 2 ^ bits_loop pn pos
         \<and> 0 < bits_loop pn pos \<and> bits_loop pn pos \<le> 32 * pos)"
proof (induction pos)
  case 0
  show ?case by simp
next
  case (Suc pos)
  let ?lo = "uval (take pos pn)" and ?w = "pn ! pos"
  have v: "uval (take (Suc pos) pn) = ?lo + 2 ^ (32 * pos) * uint ?w"
    using Suc.prems by (simp add: uval_take_Suc)
  have lo: "?lo < 2 ^ (32 * pos)"
    using limbs_val_less [of "take pos pn"] Suc.prems by simp
  show ?case
  proof (cases "?w = 0")
    case True
    then show ?thesis
      using Suc v by (auto split: if_splits)
  next
    case False
    have "uint ?w < 2 ^ Suc 31"
      using uint32_bound [of ?w] by simp
    from bits_word_spec [OF False this] obtain m where m: "m \<le> 31"
      "bits_word ?w pos 31 = 32 * pos + m + 1" "2 ^ m \<le> uint ?w" "uint ?w < 2 ^ Suc m"
      by blast
    have "2 ^ (32 * pos) * 2 ^ m \<le> 2 ^ (32 * pos) * uint ?w"
      using m(3) by (intro mult_left_mono) simp_all
    also have "\<dots> \<le> ?lo + 2 ^ (32 * pos) * uint ?w" by simp
    finally have lower: "2 ^ (32 * pos + m) \<le> uval (take (Suc pos) pn)"
      unfolding v power_add .
    have "2 ^ (32 * pos) * (uint ?w + 1) \<le> 2 ^ (32 * pos) * 2 ^ Suc m"
      using m(4) by (intro mult_left_mono) simp_all
    then have upper: "uval (take (Suc pos) pn) < 2 ^ (32 * pos + Suc m)"
      unfolding v power_add using lo by (simp add: distrib_left)
    have "uval (take (Suc pos) pn) \<noteq> 0"
      using lower by (metis not_le zero_less_numeral zero_less_power)
    then show ?thesis
      using False lower upper m(1,2) by simp
  qed
qed

lemma base_bits_0_iff: "wf_uint a \<Longrightarrow> base_bits a = 0 \<longleftrightarrow> uval a = 0"
  using bits_loop_spec [of 8 a] by (auto simp: base_bits_def split: if_splits)

lemma base_bits_upper: "wf_uint a \<Longrightarrow> uval a < 2 ^ base_bits a"
  using bits_loop_spec [of 8 a] by (auto simp: base_bits_def split: if_splits)

lemma base_bits_lower: "wf_uint a \<Longrightarrow> uval a \<noteq> 0 \<Longrightarrow> 2 ^ (base_bits a - 1) \<le> uval a"
  using bits_loop_spec [of 8 a] by (auto simp: base_bits_def split: if_splits)

lemma base_bits_le: "wf_uint a \<Longrightarrow> base_bits a \<le> 256"
  using bits_loop_spec [of 8 a] by (auto simp: base_bits_def split: if_splits)

lemma base_bits_less_iff: "wf_uint a \<Longrightarrow> base_bits a \<le> n \<longleftrightarrow> uval a < 2 ^ n"
proof
  assume wf: "wf_uint a" and n: "base_bits a \<le> n"
  have "uval a < 2 ^ base_bits a" by (rule base_bits_upper [OF wf])
  also have "\<dots> \<le> 2 ^ n" using n by (simp add: power_increasing)
  finally show "uval a < 2 ^ n" .
next
  assume wf: "wf_uint a" and lt: "uval a < 2 ^ n"
  show "base_bits a \<le> n"
  proof (rule ccontr)
    assume "\<not> base_bits a \<le> n"
    then have n: "n \<le> base_bits a - 1" and nz: "base_bits a \<noteq> 0" by simp_all
    have "(2 :: int) ^ n \<le> 2 ^ (base_bits a - 1)"
      using n by (simp add: power_increasing)
    also have "\<dots> \<le> uval a"
      using base_bits_lower [OF wf] nz by (simp add: base_bits_0_iff [OF wf])
    finally show False using lt by simp
  qed
qed

section \<open>Shifts\<close>

lemma shl_step_nth:
  assumes "length pn = 8" "j < 8"
  shows "shl_step k s a pn i ! j =
    (pn ! j OR (if j = i + k + 1 \<and> s \<noteq> 0 then drop_bit (32 - s) (a ! i) else 0))
    OR (if j = i + k then push_bit s (a ! i) else 0)"
  using assms by (simp add: shl_step_def Let_def nth_list_update)

lemma length_shl_step [simp]: "length (shl_step k s a pn i) = length pn"
  by (simp add: shl_step_def Let_def)

lemma shl_fold_nth:
  fixes k s n :: nat and a :: base_uint
  defines "r \<equiv> \<lambda>n. foldl (shl_step k s a) (replicate 8 0) [0..<n]"
  shows "length (r n) = 8"
    and "j < 8 \<Longrightarrow> r n ! j =
     (if k + 1 \<le> j \<and> j < n + k + 1 \<and> s \<noteq> 0 then drop_bit (32 - s) (a ! (j - k - 1)) else 0)
     OR (if k \<le> j \<and> j < n + k then push_bit s (a ! (j - k)) else 0)"
proof -
  show len: "length (r n) = 8" for n
    by (induction n) (simp_all add: r_def)
  show "j < 8 \<Longrightarrow> r n ! j =
     (if k + 1 \<le> j \<and> j < n + k + 1 \<and> s \<noteq> 0 then drop_bit (32 - s) (a ! (j - k - 1)) else 0)
     OR (if k \<le> j \<and> j < n + k then push_bit s (a ! (j - k)) else 0)"
  proof (induction n)
    case 0
    then show ?case by (auto simp: r_def)
  next
    case (Suc n)
    have "r (Suc n) ! j = shl_step k s a (r n) n ! j"
      by (simp add: r_def)
    with Suc show ?case
      by (cases "j = n + k + 1"; cases "j = n + k") (simp_all add: shl_step_nth len less_Suc_eq)
  qed
qed

lemma wf_base_shl [simp]: "wf_uint (base_shl a n)"
  using shl_fold_nth(1) [of "n div 32" "n mod 32" a 8] by (simp add: base_shl_def wf_uint_def)

text \<open>Bit \<open>m\<close> of the shifted array is bit \<open>m - n\<close> of the original one.\<close>

lemma limb_index_sub:
  fixes j r k s :: nat
  assumes "r < 32" "s < 32" "32 * k + s \<le> 32 * j + r"
  shows "s \<le> r \<Longrightarrow> k \<le> j \<and> (32 * j + r - (32 * k + s)) div 32 = j - k
           \<and> (32 * j + r - (32 * k + s)) mod 32 = r - s"
    and "r < s \<Longrightarrow> k + 1 \<le> j \<and> (32 * j + r - (32 * k + s)) div 32 = j - k - 1
           \<and> (32 * j + r - (32 * k + s)) mod 32 = r + 32 - s"
proof -
  assume "s \<le> r"
  then have "k \<le> j" and "32 * j + r - (32 * k + s) = 32 * (j - k) + (r - s)"
    using assms by auto
  then show "k \<le> j \<and> (32 * j + r - (32 * k + s)) div 32 = j - k
           \<and> (32 * j + r - (32 * k + s)) mod 32 = r - s"
    using assms(1) by (simp only: div_mult_self4 mod_mult_self4) simp
next
  assume "r < s"
  then have "k + 1 \<le> j" and "32 * j + r - (32 * k + s) = 32 * (j - k - 1) + (r + 32 - s)"
    using assms by auto
  then show "k + 1 \<le> j \<and> (32 * j + r - (32 * k + s)) div 32 = j - k - 1
           \<and> (32 * j + r - (32 * k + s)) mod 32 = r + 32 - s"
    using assms(2) \<open>r < s\<close> by (simp only: div_mult_self4 mod_mult_self4) simp
qed

lemma bit_word32_ge: "32 \<le> n \<Longrightarrow> \<not> bit (w :: uint32) n"
  using bit_imp_le_length [of w n] by auto

lemma base_shl_bit_limb:
  assumes "j < 8" "r < 32" "s < 32"
  shows "bit (base_shl a (32 * k + s) ! j) r \<longleftrightarrow> 32 * k + s \<le> 32 * j + r
    \<and> bit (a ! ((32 * j + r - (32 * k + s)) div 32)) ((32 * j + r - (32 * k + s)) mod 32)"
proof -
  have nth: "base_shl a (32 * k + s) ! j =
     (if k + 1 \<le> j \<and> s \<noteq> 0 then drop_bit (32 - s) (a ! (j - k - 1)) else 0)
     OR (if k \<le> j then push_bit s (a ! (j - k)) else 0)"
    using shl_fold_nth(2) [of j k s a 8] assms by (simp add: base_shl_def)
  show ?thesis
  proof (cases "s \<le> r")
    case True
    moreover have "32 * k + s \<le> 32 * j + r \<longleftrightarrow> k \<le> j"
      using assms True by linarith
    ultimately show ?thesis
      using limb_index_sub(1) [OF assms(2,3), of k j] assms unfolding nth
      by (auto simp: bit_simps bit_word32_ge)
  next
    case False
    then have "32 * k + s \<le> 32 * j + r \<longleftrightarrow> k + 1 \<le> j"
      using assms by linarith
    with False show ?thesis
      using limb_index_sub(2) [OF assms(2,3), of k j] assms unfolding nth
      by (auto simp: bit_simps add.commute)
  qed
qed

lemma base_shl_bit:
  assumes "m div 32 < 8"
  shows "bit (base_shl a n ! (m div 32)) (m mod 32)
    \<longleftrightarrow> n \<le> m \<and> bit (a ! ((m - n) div 32)) ((m - n) mod 32)"
  using base_shl_bit_limb [of "m div 32" "m mod 32" "n mod 32" a "n div 32"] assms
  by simp

lemma uval_shl:
  assumes "wf_uint a"
  shows "uval (base_shl a n) = (uval a * 2 ^ n) mod M256"
proof -
  have "uval (base_shl a n) = take_bit 256 (push_bit n (uval a))"
  proof (rule bit_eqI)
    fix m :: nat
    have "m div 32 < 8 \<longleftrightarrow> m < 256"
      by (simp add: div_less_iff_less_mult)
    moreover have "n \<le> m \<Longrightarrow> m < 256 \<Longrightarrow> (m - n) div 32 < 8"
      by (simp add: div_less_iff_less_mult)
    ultimately show "bit (uval (base_shl a n)) m = bit (take_bit 256 (push_bit n (uval a))) m"
      using base_shl_bit [of m a n] assms
      by (auto simp: bit_limbs_val bit_take_bit_iff bit_push_bit_iff)
  qed
  then show ?thesis
    by (simp add: take_bit_eq_mod push_bit_eq_mult)
qed

lemma length_shr_step [simp]: "length (shr_step k s a pn i) = length pn"
  by (simp add: shr_step_def Let_def)

lemma shr_step_nth:
  assumes "length pn = 8" "j < 8" "i < 8"
  shows "shr_step k s a pn i ! j =
    (pn ! j OR (if i = j + k + 1 \<and> s \<noteq> 0 then push_bit (32 - s) (a ! i) else 0))
    OR (if i = j + k then drop_bit s (a ! i) else 0)"
  using assms by (auto simp: shr_step_def Let_def nth_list_update)

lemma shr_fold_nth:
  fixes k s n :: nat and a :: base_uint
  defines "r \<equiv> \<lambda>n. foldl (shr_step k s a) (replicate 8 0) [0..<n]"
  shows "length (r n) = 8"
    and "j < 8 \<Longrightarrow> n \<le> 8 \<Longrightarrow> r n ! j =
     (if j + k + 1 < n \<and> s \<noteq> 0 then push_bit (32 - s) (a ! (j + k + 1)) else 0)
     OR (if j + k < n then drop_bit s (a ! (j + k)) else 0)"
proof -
  show len: "length (r n) = 8" for n
    by (induction n) (simp_all add: r_def)
  show "j < 8 \<Longrightarrow> n \<le> 8 \<Longrightarrow> r n ! j =
     (if j + k + 1 < n \<and> s \<noteq> 0 then push_bit (32 - s) (a ! (j + k + 1)) else 0)
     OR (if j + k < n then drop_bit s (a ! (j + k)) else 0)"
  proof (induction n)
    case 0
    then show ?case by (auto simp: r_def)
  next
    case (Suc n)
    have "r (Suc n) ! j = shr_step k s a (r n) n ! j"
      by (simp add: r_def)
    with Suc show ?case
      by (cases "n = j + k + 1"; cases "n = j + k") (simp_all add: shr_step_nth len less_Suc_eq or.commute)
  qed
qed

lemma wf_base_shr [simp]: "wf_uint (base_shr a n)"
  using shr_fold_nth(1) [of "n div 32" "n mod 32" a 8] by (simp add: base_shr_def wf_uint_def)

lemma base_shr_bit_limb:
  assumes "j < 8" "r < 32" "s < 32" and wf: "wf_uint a"
  shows "bit (base_shr a (32 * k + s) ! j) r \<longleftrightarrow>
    (32 * j + r + (32 * k + s)) div 32 < 8
    \<and> bit (a ! ((32 * j + r + (32 * k + s)) div 32)) ((32 * j + r + (32 * k + s)) mod 32)"
proof -
  have nth: "base_shr a (32 * k + s) ! j =
     (if j + k + 1 < 8 \<and> s \<noteq> 0 then push_bit (32 - s) (a ! (j + k + 1)) else 0)
     OR (if j + k < 8 then drop_bit s (a ! (j + k)) else 0)"
    using shr_fold_nth(2) [of j 8 k s a] assms by (simp add: base_shr_def)
  show ?thesis
  proof (cases "r + s < 32")
    case True
    have "32 * j + r + (32 * k + s) = 32 * (j + k) + (r + s)" by simp
    with True have "(32 * j + r + (32 * k + s)) div 32 = j + k \<and>
        (32 * j + r + (32 * k + s)) mod 32 = r + s"
      by (simp only: div_mult_self4 mod_mult_self4) simp
    with True assms show ?thesis
      unfolding nth by (auto simp: bit_simps add.commute)
  next
    case False
    have "32 * j + r + (32 * k + s) = 32 * (j + k + 1) + (r + s - 32)"
      using False by simp
    moreover have "r + s - 32 < 32" using assms by simp
    ultimately have "(32 * j + r + (32 * k + s)) div 32 = j + k + 1 \<and>
        (32 * j + r + (32 * k + s)) mod 32 = r + s - 32"
      by (simp only: div_mult_self4 mod_mult_self4) simp
    with False assms show ?thesis
      unfolding nth by (auto simp: bit_simps bit_word32_ge add.commute)
  qed
qed

lemma uval_shr:
  assumes "wf_uint a"
  shows "uval (base_shr a n) = uval a div 2 ^ n"
proof -
  have "uval (base_shr a n) = drop_bit n (uval a)"
  proof (rule bit_eqI)
    fix m :: nat
    have "m div 32 < 8" if "(n + m) div 32 < 8"
      using that div_le_mono [of m "n + m" 32] by simp
    then show "bit (uval (base_shr a n)) m = bit (drop_bit n (uval a)) m"
      using base_shr_bit_limb [of "m div 32" "m mod 32" "n mod 32" a "n div 32"] assms
      by (auto simp: bit_limbs_val bit_drop_bit_eq add.commute)
  qed
  then show ?thesis
    by (simp add: drop_bit_eq_div)
qed

section \<open>Division\<close>

lemma set_limb_bit:
  assumes "wf_uint q" "s < 256"
  shows "uval (q[s div 32 := (q ! (s div 32)) OR push_bit (s mod 32) 1]) = set_bit s (uval q)"
proof (rule bit_eqI)
  fix m :: nat
  have s: "s div 32 < 8"
    using assms(2) by (simp add: div_less_iff_less_mult)
  have "m = s \<longleftrightarrow> m div 32 = s div 32 \<and> m mod 32 = s mod 32"
    by (metis div_mult_mod_eq)
  then show "bit (uval (q[s div 32 := (q ! (s div 32)) OR push_bit (s mod 32) 1])) m
      = bit (set_bit s (uval q)) m"
    using s assms(1)
    by (auto simp: bit_limbs_val bit_set_bit_iff nth_list_update bit_simps bit_1_iff)
qed

lemma div_loop_correct:
  assumes "wf_uint b" "0 < uval b"
  shows "\<lbrakk>wf_uint q; wf_uint num; wf_uint d; s \<le> 256;
      2 ^ s dvd uval q; uval num < uval b * 2 ^ s; 0 < s \<Longrightarrow> uval d = uval b * 2 ^ (s - 1)\<rbrakk>
    \<Longrightarrow> wf_uint (div_loop s q num d)
      \<and> uval (div_loop s q num d) = uval q + uval num div uval b"
proof (induction s arbitrary: q num d)
  case 0
  then show ?case by simp
next
  case (Suc s)
  have d: "uval d = uval b * 2 ^ s"
    using Suc.prems(7) by simp
  have d': "0 < s \<Longrightarrow> uval (base_shr d 1) = uval b * 2 ^ (s - 1)"
    using Suc.prems(3) by (cases s) (simp_all add: uval_shr d)
  have dvd: "2 ^ s dvd uval q"
    using Suc.prems(5) by (rule dvd_trans [rotated]) (simp add: le_imp_power_dvd)
  show ?case
  proof (cases "uval d \<le> uval num")
    case True
    let ?q = "q[s div 32 := (q ! (s div 32)) OR push_bit (s mod 32) 1]"
    and ?num = "base_sub num d"
    have nb: "\<not> bit (uval q) s"
      using Suc.prems(5) by (auto simp: bit_iff_odd dvd_def)
    have q: "uval ?q = uval q + 2 ^ s"
      using set_limb_bit [OF Suc.prems(1), of s] Suc.prems(4) nb by (simp add: set_bit_eq)
    have num: "uval ?num = uval num - uval b * 2 ^ s"
      using uval_sub_le [OF Suc.prems(2,3) True] by (simp add: d)
    have "wf_uint (div_loop s ?q ?num (base_shr d 1))
      \<and> uval (div_loop s ?q ?num (base_shr d 1)) = uval ?q + uval ?num div uval b"
    proof (rule Suc.IH)
      show "wf_uint ?q" using Suc.prems(1) by (simp add: wf_uint_def)
      show "wf_uint ?num" using Suc.prems(2,3) by simp
      show "wf_uint (base_shr d 1)" by simp
      show "s \<le> 256" using Suc.prems(4) by simp
      show "2 ^ s dvd uval ?q" unfolding q using dvd by simp
      show "uval ?num < uval b * 2 ^ s" using Suc.prems(6) by (simp add: num)
    qed (rule d')
    moreover have "uval num div uval b = 2 ^ s + uval ?num div uval b"
      using assms(2) div_mult_self2 [of "uval b" "uval ?num" "2 ^ s"] by (simp add: num add.commute)
    ultimately show ?thesis
      using True Suc.prems(2,3) q by simp
  next
    case False
    have "wf_uint (div_loop s q num (base_shr d 1))
      \<and> uval (div_loop s q num (base_shr d 1)) = uval q + uval num div uval b"
      by (rule Suc.IH) (use Suc.prems False dvd d d' in simp_all)
    then show ?thesis
      using False Suc.prems(2,3) by simp
  qed
qed

lemma base_div_correct:
  assumes "wf_uint a" "wf_uint b"
  shows "base_div a b = None \<longleftrightarrow> uval b = 0"
    and "uval b \<noteq> 0 \<Longrightarrow> \<exists>q. base_div a b = Some q \<and> wf_uint q \<and> uval q = uval a div uval b"
proof -
  show "base_div a b = None \<longleftrightarrow> uval b = 0"
    using assms by (simp add: base_div_def Let_def base_bits_0_iff)
  assume nz: "uval b \<noteq> 0"
  then have pos: "0 < uval b" using limbs_val_nonneg [of b] by linarith
  show "\<exists>q. base_div a b = Some q \<and> wf_uint q \<and> uval q = uval a div uval b"
  proof (cases "base_bits b > base_bits a")
    case True
    have "base_bits a \<le> base_bits b - 1" using True by linarith
    then have "uval a < 2 ^ (base_bits b - 1)"
      by (simp only: base_bits_less_iff [OF assms(1)])
    also have "\<dots> \<le> uval b" using base_bits_lower [OF assms(2) nz] .
    finally have "uval a div uval b = 0" by simp
    with True nz assms show ?thesis
      by (simp add: base_div_def Let_def base_bits_0_iff)
  next
    case False
    define shift where "shift = base_bits a - base_bits b"
    have bits: "shift + base_bits b = base_bits a" "base_bits a \<le> 256" "0 < base_bits b"
      using False base_bits_le [OF assms(1)] base_bits_0_iff [OF assms(2)] nz
      by (simp_all add: shift_def)
    have "uval b * 2 ^ shift < 2 ^ base_bits b * 2 ^ shift"
      using base_bits_upper [OF assms(2)] by simp
    also have "\<dots> = (2 :: int) ^ base_bits a"
      using bits(1) by (simp add: power_add [symmetric] add.commute)
    also have "\<dots> \<le> M256"
      using bits(2) by (intro power_increasing) simp_all
    finally have shl: "uval (base_shl b shift) = uval b * 2 ^ shift"
      using assms(2) by (simp add: uval_shl)
    have "uval a < 2 ^ base_bits a" by (rule base_bits_upper [OF assms(1)])
    also have "\<dots> = 2 ^ (base_bits b - 1) * (2 :: int) ^ Suc shift"
      using bits by (subst power_add [symmetric]) simp
    also have "\<dots> \<le> uval b * 2 ^ Suc shift"
      using base_bits_lower [OF assms(2) nz] by (intro mult_right_mono) simp_all
    finally have num: "uval a < uval b * 2 ^ Suc shift" .
    have "wf_uint (div_loop (Suc shift) base_uint_zero a (base_shl b shift))
      \<and> uval (div_loop (Suc shift) base_uint_zero a (base_shl b shift))
          = uval base_uint_zero + uval a div uval b"
      using num bits by (intro div_loop_correct [OF assms(2) pos]) (simp_all add: assms shl)
    with False bits(3) show ?thesis
      by (simp add: base_div_def Let_def shift_def)
  qed
qed

section \<open>The compact encoding\<close>

lemma uint_GetLow64:
  assumes "wf_uint a"
  shows "uint (GetLow64 a) = uval a mod 2 ^ 64"
proof -
  have "uint (GetLow64 a) = take_bit 64 (uval a)"
  proof (rule bit_eqI)
    fix n :: nat
    consider "n < 32" | "32 \<le> n" "n < 64" | "64 \<le> n" by linarith
    then show "bit (uint (GetLow64 a)) n = bit (take_bit 64 (uval a)) n"
    proof cases
      case 1
      then show ?thesis
        using assms by (simp add: GetLow64_def bit_take_bit_iff bit_limbs_val bit_simps)
    next
      case 2
      then have "n div 32 = 1" "n mod 32 = n - 32"
        by (simp_all add: le_div_geq le_mod_geq)
      with 2 show ?thesis
        using assms by (auto simp: GetLow64_def bit_take_bit_iff bit_limbs_val bit_simps bit_word32_ge)
    next
      case 3
      then show ?thesis
        by (simp add: bit_take_bit_iff bit_uint_iff)
    qed
  qed
  then show ?thesis
    by (simp add: take_bit_eq_mod)
qed

lemma and_7fffff: "(n :: uint32) AND 0x007fffff = take_bit 23 n"
  by (simp add: take_bit_eq_mask mask_eq_exp_minus_1)

lemma uint_and_7fffff: "uint ((n :: uint32) AND 0x007fffff) = uint n mod 2 ^ 23"
  unfolding and_7fffff by (rule uint_take_bit_eq)

lemma and_800000_iff: "(n :: uint32) AND 0x00800000 \<noteq> 0 \<longleftrightarrow> bit n 23"
  using bit_iff_and_push_bit_not_eq_0 [of n 23] by simp

text \<open>The mantissa and the exponent of a compact target.\<close>

abbreviation compact_size :: "uint32 \<Rightarrow> nat" where
  "compact_size c \<equiv> unat (drop_bit 24 c)"

abbreviation compact_word :: "uint32 \<Rightarrow> int" where
  "compact_word c \<equiv> uint c mod 2 ^ 23"

lemma SetCompact_wf: "wf_uint (fst (SetCompact c))"
  by (simp add: SetCompact_def Let_def)

lemma SetCompact_value:
  "uval (fst (SetCompact c)) =
    (if compact_size c \<le> 3 then compact_word c div 2 ^ (8 * (3 - compact_size c))
     else (compact_word c * 2 ^ (8 * (compact_size c - 3))) mod M256)"
  by (simp add: SetCompact_def Let_def uval_shl uint_drop_bit_eq uint_and_7fffff
      uint_up_ucast is_up del: drop_bit_and)

lemma SetCompact_negative:
  "fst (snd (SetCompact c)) \<longleftrightarrow>
    (if compact_size c \<le> 3 then compact_word c div 2 ^ (8 * (3 - compact_size c)) \<noteq> 0
     else compact_word c \<noteq> 0) \<and> bit c 23"
  using uint_0_iff [of "drop_bit (8 * (3 - compact_size c)) (c AND 0x007fffff)"]
    uint_0_iff [of "c AND 0x007fffff"]
  by (simp add: SetCompact_def Let_def and_800000_iff uint_drop_bit_eq uint_and_7fffff
      del: drop_bit_and)

text \<open>The overflow flag says exactly that the encoded number does not fit 256 bits.\<close>

lemma mult_pow_less_M256:
  fixes w :: int
  assumes "w < 2 ^ j" "j + 8 * k = 256"
  shows "w * 2 ^ (8 * k) < M256"
proof -
  have "w * 2 ^ (8 * k) < 2 ^ j * 2 ^ (8 * k)"
    using assms(1) by simp
  also have "\<dots> = M256"
    using assms(2) by (simp only: power_add [symmetric])
  finally show ?thesis .
qed

lemma mult_pow_ge_M256:
  fixes w :: int
  assumes "2 ^ j \<le> w" "j + 8 * k = 256"
  shows "M256 \<le> w * 2 ^ (8 * k)"
proof -
  have "M256 = 2 ^ j * 2 ^ (8 * k)"
    using assms(2) by (simp only: power_add [symmetric])
  also have "\<dots> \<le> w * 2 ^ (8 * k)"
    using assms(1) by simp
  finally show ?thesis .
qed

lemma compact_overflow_arith:
  fixes w :: int and n :: nat
  assumes "0 < w" "w < 2 ^ 23" "3 < n"
  shows "(34 < n \<or> 255 < w \<and> 33 < n \<or> 65535 < w \<and> 32 < n)
    \<longleftrightarrow> M256 \<le> w * 2 ^ (8 * (n - 3))"
proof -
  consider "n \<le> 32" | "n = 33" | "n = 34" | "34 < n" by linarith
  then show ?thesis
  proof cases
    case 1
    have "w * 2 ^ (8 * (n - 3)) \<le> w * 2 ^ (8 * 29)"
      using assms(1) 1 by (intro mult_left_mono power_increasing) simp_all
    also have "\<dots> < M256"
      using assms(2) by (intro mult_pow_less_M256 [of _ 24]) simp_all
    finally show ?thesis using 1 by simp
  next
    case 2
    have "w * 2 ^ (8 * 30) < M256" if "w < 2 ^ 16"
      using that by (rule mult_pow_less_M256) simp
    moreover have "M256 \<le> w * 2 ^ (8 * 30)" if "2 ^ 16 \<le> w"
      using that by (rule mult_pow_ge_M256) simp
    ultimately show ?thesis
      using 2 by (cases "w < 2 ^ 16") auto
  next
    case 3
    have "w * 2 ^ (8 * 31) < M256" if "w < 2 ^ 8"
      using that by (rule mult_pow_less_M256) simp
    moreover have "M256 \<le> w * 2 ^ (8 * 31)" if "2 ^ 8 \<le> w"
      using that by (rule mult_pow_ge_M256) simp
    ultimately show ?thesis
      using 3 by (cases "w < 2 ^ 8") auto
  next
    case 4
    have "M256 \<le> w * 2 ^ (8 * 32)"
      using assms(1) by (intro mult_pow_ge_M256 [of 0]) simp_all
    also have "\<dots> \<le> w * 2 ^ (8 * (n - 3))"
      using assms(1) 4 by (intro mult_left_mono power_increasing) simp_all
    finally show ?thesis using 4 by simp
  qed
qed

lemma SetCompact_overflow:
  "snd (snd (SetCompact c)) \<longleftrightarrow>
    3 < compact_size c \<and> M256 \<le> compact_word c * 2 ^ (8 * (compact_size c - 3))"
proof (cases "compact_size c \<le> 3")
  case True
  then show ?thesis
    by (simp add: SetCompact_def Let_def)
next
  case False
  let ?w = "c AND 0x007fffff"
  have w: "uint ?w = compact_word c" by (rule uint_and_7fffff)
  have lt: "compact_word c < 2 ^ 23" "0 \<le> compact_word c" by simp_all
  show ?thesis
  proof (cases "?w = 0")
    case True
    then have "compact_word c = 0" using w by simp
    with True False show ?thesis
      by (simp add: SetCompact_def Let_def)
  next
    case nz: False
    then have "0 < compact_word c"
      using w lt(2) uint_0_iff [of ?w] by linarith
    from compact_overflow_arith [OF this lt(1), of "compact_size c"] False nz w show ?thesis
      by (simp add: SetCompact_def Let_def word_less_def)
  qed
qed

lemma SetCompact_exact:
  assumes "\<not> snd (snd (SetCompact c))"
  shows "uval (fst (SetCompact c)) =
    (if compact_size c \<le> 3 then compact_word c div 2 ^ (8 * (3 - compact_size c))
     else compact_word c * 2 ^ (8 * (compact_size c - 3)))"
  using assms unfolding SetCompact_overflow SetCompact_value by (auto simp: mod_pos_pos_trivial)

text \<open>
  \<open>compact_of v m e\<close>: the number \<open>v\<close> is encoded with the mantissa \<open>m\<close> and the size \<open>e\<close>,
  that is, \<open>m * 256 ^ (e - 3)\<close> is \<open>v\<close> with its low bytes cut off, and the mantissa is normalised.
\<close>

definition compact_of :: "int \<Rightarrow> int \<Rightarrow> nat \<Rightarrow> bool" where
  "compact_of v m e \<longleftrightarrow> e \<le> 33 \<and> m = (v * 2 ^ 24) div 2 ^ (8 * e) \<and> m < 2 ^ 23
     \<and> (if v = 0 then e = 0 else 2 ^ 15 \<le> m)"

lemma scaled_div_small:
  "n \<le> 3 \<Longrightarrow> (v * 2 ^ 24) div 2 ^ (8 * n) = (v :: int) * 2 ^ (8 * (3 - n))"
proof -
  assume "n \<le> 3"
  then have "8 * (3 - n) + 8 * n = 24" by simp
  then have "(2 :: int) ^ 24 = 2 ^ (8 * (3 - n)) * 2 ^ (8 * n)"
    by (simp only: power_add [symmetric])
  then have "v * 2 ^ 24 = (v * 2 ^ (8 * (3 - n))) * 2 ^ (8 * n)"
    by (simp only: mult.assoc)
  then show ?thesis
    by (metis nonzero_mult_div_cancel_right power_not_zero zero_neq_numeral)
qed

lemma scaled_div_big:
  "3 \<le> n \<Longrightarrow> (v * 2 ^ 24) div 2 ^ (8 * n) = (v :: int) div 2 ^ (8 * (n - 3))"
proof -
  assume "3 \<le> n"
  then have "(2 :: int) ^ (8 * n) = 2 ^ (8 * (n - 3)) * 2 ^ 24"
    by (subst power_add [symmetric]) simp
  then show ?thesis
    by (simp add: div_mult_mult2)
qed

text \<open>The mantissa before the sign bit is moved out of the way.\<close>

lemma GetCompact_raw:
  assumes wf: "wf_uint a"
  defines "n \<equiv> (base_bits a + 7) div 8"
  defines "c \<equiv> (if n \<le> 3 then ucast (push_bit (8 * (3 - n)) (GetLow64 a)) :: uint32
                else ucast (GetLow64 (base_shr a (8 * (n - 3)))))"
  shows "n \<le> 32" and "uint c < 2 ^ 24" and "uint c = (uval a * 2 ^ 24) div 2 ^ (8 * n)"
    and "uval a = 0 \<Longrightarrow> n = 0" and "uval a \<noteq> 0 \<Longrightarrow> 2 ^ 16 \<le> uint c"
proof -
  let ?m = "(uval a * 2 ^ 24) div 2 ^ (8 * n)"
  have b8: "base_bits a \<le> 8 * n" "n \<noteq> 0 \<Longrightarrow> 8 * (n - 1) < base_bits a"
    unfolding n_def by (simp, linarith)
  show n32: "n \<le> 32"
    using base_bits_le [OF wf] unfolding n_def by linarith
  show z: "uval a = 0 \<Longrightarrow> n = 0"
    using base_bits_0_iff [OF wf] by (simp add: n_def)
  have up: "uval a < 2 ^ (8 * n)"
    using base_bits_less_iff [OF wf, of "8 * n"] b8(1) by simp
  then have lt: "?m < 2 ^ 24"
    by (intro int_div_lessI) simp_all
  have nn: "0 \<le> ?m"
    by (simp add: pos_imp_zdiv_nonneg_iff)
  have small: "uint (ucast (push_bit (8 * (3 - n)) (GetLow64 a)) :: uint32) = ?m" if "n \<le> 3"
  proof -
    have m: "?m = uval a * 2 ^ (8 * (3 - n))"
      using that by (rule scaled_div_small)
    have "uval a * 1 \<le> uval a * 2 ^ (8 * (3 - n))"
      by (intro mult_left_mono) simp_all
    then have low: "uint (GetLow64 a) = uval a"
      using lt m by (simp add: uint_GetLow64 [OF wf])
    have "uint (push_bit (8 * (3 - n)) (GetLow64 a)) = ?m"
      using lt unfolding m uint_push_bit_eq low by simp
    with lt nn show ?thesis
      by (simp only: uint_ucast_64_32) (simp add: mod_pos_pos_trivial)
  qed
  have big: "uint (ucast (GetLow64 (base_shr a (8 * (n - 3)))) :: uint32) = ?m" if "3 \<le> n"
  proof -
    have "uval (base_shr a (8 * (n - 3))) = ?m"
      using scaled_div_big [OF that] by (simp add: uval_shr [OF wf])
    with lt nn show ?thesis
      by (simp only: uint_ucast_64_32 uint_GetLow64 [OF wf_base_shr]) (simp add: mod_pos_pos_trivial)
  qed
  show c: "uint c = ?m"
    using small big by (cases "n \<le> 3") (simp_all add: c_def)
  show "uint c < 2 ^ 24" using lt c by simp
  show "2 ^ 16 \<le> uint c" if nz: "uval a \<noteq> 0"
  proof -
    have n: "n \<noteq> 0"
      using nz b8(1) base_bits_0_iff [OF wf] by auto
    have "2 ^ (8 * n) * 2 ^ 16 = 2 ^ (8 * (n - 1)) * (2 :: int) ^ 24"
      using n by (simp only: power_add [symmetric]) simp
    also have "\<dots> \<le> 2 ^ (base_bits a - 1) * 2 ^ 24"
      using b8(2) n by (intro mult_right_mono power_increasing) simp_all
    also have "\<dots> \<le> uval a * 2 ^ 24"
      using base_bits_lower [OF wf nz] by (intro mult_right_mono) simp_all
    finally show ?thesis
      unfolding c by (intro int_le_divI) simp_all
  qed
qed

lemma uint_or_size:
  assumes "uint m < 2 ^ 24" "e < 256"
  shows "uint (m OR push_bit 24 (word_of_nat e) :: uint32) = uint m + 2 ^ 24 * int e"
proof -
  have e: "uint (push_bit 24 (word_of_nat e) :: uint32) = 2 ^ 24 * int e"
    unfolding uint_push_bit_eq using assms(2) by (simp add: unsigned_of_nat take_bit_eq_mod)
  have "uint (m OR push_bit 24 (word_of_nat e)) = uint m OR push_bit 24 (int e)"
    unfolding unsigned_or_eq e by (simp add: push_bit_eq_mult mult.commute)
  also have "\<dots> = concat_bit 24 (uint m) (int e)"
    using assms(1) by (simp add: concat_bit_def take_bit_int_eq_self)
  also have "\<dots> = uint m + 2 ^ 24 * int e"
    using assms(1) by (simp add: concat_bit_eq take_bit_int_eq_self push_bit_eq_mult mult.commute)
  finally show ?thesis .
qed

lemma and_not_7fffff_iff: "(n :: uint32) AND NOT 0x007fffff = 0 \<longleftrightarrow> uint n < 2 ^ 23"
proof -
  have "n AND NOT 0x007fffff = 0 \<longleftrightarrow> take_bit 23 n = n"
    by (auto simp: bit_eq_iff bit_simps and_7fffff [symmetric])
  also have "\<dots> \<longleftrightarrow> uint n < 2 ^ 23"
    unfolding word_uint_eq_iff uint_take_bit_eq
    by (metis mod_pos_pos_trivial pos_mod_bound uint_nonnegative zero_less_numeral zero_less_power)
  finally show ?thesis .
qed

lemma GetCompact_spec:
  assumes wf: "wf_uint a"
  shows "\<exists>c m e. GetCompact a False = Some c \<and> uint c = m + 2 ^ 24 * int e \<and> compact_of (uval a) m e"
proof -
  define n where "n = (base_bits a + 7) div 8"
  define c0 where "c0 = (if n \<le> 3 then ucast (push_bit (8 * (3 - n)) (GetLow64 a)) :: uint32
                else ucast (GetLow64 (base_shr a (8 * (n - 3)))))"
  note raw = GetCompact_raw [OF wf, folded n_def, folded c0_def]
  define c1 where "c1 = (if bit c0 23 then drop_bit 8 c0 else c0)"
  define e where "e = (if bit c0 23 then n + 1 else n)"
  have top: "bit c0 23 \<longleftrightarrow> 2 ^ 23 \<le> uint c0"
    using bit_top_iff [of "uint c0" 23] raw(2) by (simp add: bit_uint_iff)
  have c1: "uint c1 < 2 ^ 23"
    using raw(2) top int_div_lessI [of 256 "uint c0" "2 ^ 23"] by (simp add: c1_def uint_drop_bit_eq)
  have e: "e \<le> 33" "e < 256"
    using raw(1) by (simp_all add: e_def)
  have eq: "GetCompact a False = Some (c1 OR push_bit 24 (word_of_nat e))"
    using c1 e and_not_7fffff_iff [of c1]
    by (cases "bit c0 23")
       (simp_all add: GetCompact_def Let_def n_def [symmetric] c0_def [symmetric] and_800000_iff
         c1_def e_def)
  have val: "uint (c1 OR push_bit 24 (word_of_nat e)) = uint c1 + 2 ^ 24 * int e"
    using c1 e by (intro uint_or_size) simp_all
  have "(2 :: int) ^ (8 * (n + 1)) = 2 ^ (8 * n) * 2 ^ 8"
    by (simp only: power_add [symmetric] distrib_left mult_1_right)
  then have next_byte: "x div 2 ^ (8 * (n + 1)) = x div 2 ^ (8 * n) div 2 ^ 8" for x :: int
    using zdiv_zmult2_eq [of "2 ^ 8" x "2 ^ (8 * n)"] by (simp only: zero_le_numeral zero_le_power)
  have "uint c1 = (uval a * 2 ^ 24) div 2 ^ (8 * e)"
    by (cases "bit c0 23")
       (simp_all only: c1_def e_def if_True if_False uint_drop_bit_eq next_byte raw(3))
  moreover have "uval a \<noteq> 0 \<Longrightarrow> 2 ^ 15 \<le> uint c1"
    using raw(5) top int_le_divI [of 256 "2 ^ 15" "uint c0"] by (simp add: c1_def uint_drop_bit_eq)
  moreover have "uval a = 0 \<Longrightarrow> e = 0"
    using raw(3,4) top by (simp add: e_def)
  ultimately have "compact_of (uval a) (uint c1) e"
    using c1 e by (simp add: compact_of_def)
  with eq val show ?thesis by blast
qed

lemma compact_fields:
  assumes "uint c = m + 2 ^ 24 * int e" "0 \<le> m" "m < 2 ^ 23"
  shows "compact_size c = e" "compact_word c = m" "\<not> bit c 23"
proof -
  have "int (compact_size c) = uint c div 2 ^ 24"
    by (simp only: uint_nat [symmetric] uint_drop_bit_eq)
  also have "\<dots> = int e"
    using assms by simp
  finally show "compact_size c = e" using of_nat_eq_iff by blast
  have "(2 :: int) ^ 24 * int e = 2 ^ 23 * (2 * int e)" by simp
  then show "compact_word c = m"
    using assms by (simp only: assms(1) mod_mult_self2) simp
  have "bit c 23 \<longleftrightarrow> bit (uint c) 23"
    by (simp add: bit_uint_iff)
  also have "\<dots> \<longleftrightarrow> odd (uint c div 2 ^ 23)"
    by (rule bit_iff_odd)
  also have "uint c div 2 ^ 23 = 2 * int e"
    using assms by (simp only: assms(1) \<open>(2 :: int) ^ 24 * int e = 2 ^ 23 * (2 * int e)\<close>
        div_mult_self2) simp
  finally show "\<not> bit c 23" by simp
qed

text \<open>Decoding what \<open>GetCompact\<close> produced.\<close>

lemma decode_encoded:
  assumes "compact_of v m e" "0 \<le> v" "v < M256" "uint c = m + 2 ^ 24 * int e"
  shows "SetCompact c = (fst (SetCompact c), False, False)"
    and "uval (fst (SetCompact c)) * 2 ^ 24 \<le> v * 2 ^ 24"
    and "if e \<le> 3 then uval (fst (SetCompact c)) = v
         else uval (fst (SetCompact c)) = m * 2 ^ (8 * (e - 3))"
proof -
  have m: "m = (v * 2 ^ 24) div 2 ^ (8 * e)" "m < 2 ^ 23"
    using assms(1) by (simp_all add: compact_of_def)
  have m0: "0 \<le> m"
    using assms(2) by (simp add: m(1) pos_imp_zdiv_nonneg_iff)
  note f = compact_fields [OF assms(4) m0 m(2)]
  have big: "m * 2 ^ (8 * (e - 3)) \<le> v" if "3 < e"
  proof -
    have "m = v div 2 ^ (8 * (e - 3))"
      using scaled_div_big [of e v] that m(1) by simp
    then show ?thesis
      using int_mult_div_le [of "2 ^ (8 * (e - 3))" v] by (simp add: mult.commute)
  qed
  have ov: "\<not> snd (snd (SetCompact c))"
    using big assms(3) unfolding SetCompact_overflow f by auto
  moreover have "\<not> fst (snd (SetCompact c))"
    using f(3) by (simp add: SetCompact_negative)
  ultimately show "SetCompact c = (fst (SetCompact c), False, False)"
    by (metis prod.collapse)
  show val: "if e \<le> 3 then uval (fst (SetCompact c)) = v
         else uval (fst (SetCompact c)) = m * 2 ^ (8 * (e - 3))"
    using SetCompact_exact [OF ov, unfolded f] scaled_div_small [of e v] m(1) by simp
  show "uval (fst (SetCompact c)) * 2 ^ 24 \<le> v * 2 ^ 24"
    using val big by (auto split: if_splits)
qed

lemma compact_of_nonneg: "compact_of v m e \<Longrightarrow> 0 \<le> v \<Longrightarrow> 0 \<le> m"
  by (simp add: compact_of_def pos_imp_zdiv_nonneg_iff)

lemma compact_of_scaled:
  assumes "compact_of v m e"
  shows "m * 2 ^ (8 * e) \<le> v * 2 ^ 24" "v * 2 ^ 24 < (m + 1) * 2 ^ (8 * e)"
proof -
  have m: "m = (v * 2 ^ 24) div 2 ^ (8 * e)"
    using assms by (simp add: compact_of_def)
  show "m * 2 ^ (8 * e) \<le> v * 2 ^ 24"
    unfolding m using int_mult_div_le [of "2 ^ (8 * e)" "v * 2 ^ 24"] by (simp only: mult.commute) simp
  show "v * 2 ^ 24 < (m + 1) * 2 ^ (8 * e)"
    unfolding m using int_less_mult_div [of "2 ^ (8 * e)" "v * 2 ^ 24"] by (simp add: mult.commute)
qed

lemma compact_of_size_mono:
  assumes "compact_of v m e" "compact_of v' m' e'" "0 \<le> v" "v \<le> v'"
  shows "e \<le> e'"
proof (cases "v = 0")
  case True
  with assms(1) show ?thesis by (simp add: compact_of_def)
next
  case False
  have m: "2 ^ 15 \<le> m" and m': "m' < 2 ^ 23"
    using assms False by (simp_all add: compact_of_def)
  show ?thesis
  proof (rule ccontr)
    assume "\<not> e \<le> e'"
    then have "(2 :: int) ^ (8 * (e' + 1)) \<le> 2 ^ (8 * e)"
      by (intro power_increasing) simp_all
    then have "2 ^ 15 * 2 ^ (8 * (e' + 1)) \<le> m * 2 ^ (8 * e)"
      using m by (intro mult_mono) simp_all
    also have "\<dots> \<le> v * 2 ^ 24" by (rule compact_of_scaled [OF assms(1)])
    also have "\<dots> \<le> v' * 2 ^ 24" using assms(4) by simp
    also have "\<dots> < (m' + 1) * 2 ^ (8 * e')" by (rule compact_of_scaled [OF assms(2)])
    also have "\<dots> \<le> 2 ^ 23 * 2 ^ (8 * e')"
      using m' by (intro mult_right_mono) simp_all
    finally show False
      by (simp add: power_add)
  qed
qed

lemma compact_of_unique:
  assumes "compact_of v m e" "compact_of v m' e'" "0 \<le> v"
  shows "m = m' \<and> e = e'"
proof -
  have "e = e'"
    using compact_of_size_mono [OF assms(1,2,3)] compact_of_size_mono [OF assms(2,1,3)] by simp
  with assms show ?thesis by (simp add: compact_of_def)
qed

text \<open>The decoded number has the same mantissa and size as the number itself.\<close>

lemma compact_of_decoded:
  assumes "compact_of v m e" "0 \<le> v" "v < M256" "uint c = m + 2 ^ 24 * int e"
  shows "compact_of (uval (fst (SetCompact c))) m e"
proof (cases "e \<le> 3")
  case True
  with decode_encoded(3) [OF assms] assms(1) show ?thesis by simp
next
  case False
  then have nz: "v \<noteq> 0" using assms(1) by (auto simp: compact_of_def)
  have val: "uval (fst (SetCompact c)) = m * 2 ^ (8 * (e - 3))"
    using decode_encoded(3) [OF assms] False by simp
  have "8 * (e - 3) + 24 = 8 * e" using False by simp
  then have "uval (fst (SetCompact c)) * 2 ^ 24 = m * 2 ^ (8 * e)"
    unfolding val by (simp only: mult.assoc power_add [symmetric])
  then have "(uval (fst (SetCompact c)) * 2 ^ 24) div 2 ^ (8 * e) = m"
    by (simp only:) simp
  moreover have "uval (fst (SetCompact c)) \<noteq> 0"
    using nz assms(1) by (auto simp: val compact_of_def)
  ultimately show ?thesis
    using assms(1) nz by (simp add: compact_of_def)
qed

subsection \<open>Properties of the component\<close>

lemma GetCompact_SetCompact:
  assumes "wf_uint a"
  shows "\<exists>c t. GetCompact a False = Some c \<and> SetCompact c = (t, False, False) \<and> wf_uint t
    \<and> uval t \<le> uval a \<and> (uval a - uval t) * 2 ^ 15 \<le> uval t \<and> GetCompact t False = Some c"
proof -
  obtain c m e where c: "GetCompact a False = Some c" "uint c = m + 2 ^ 24 * int e"
    and enc: "compact_of (uval a) m e"
    using GetCompact_spec [OF assms] by blast
  define t where "t = fst (SetCompact c)"
  have wf: "wf_uint t" by (simp add: t_def SetCompact_wf)
  have dec: "SetCompact c = (t, False, False)" "uval t * 2 ^ 24 \<le> uval a * 2 ^ 24"
    "if e \<le> 3 then uval t = uval a else uval t = m * 2 ^ (8 * (e - 3))"
    using decode_encoded [OF enc limbs_val_nonneg uval_bounds [OF assms] c(2)]
    by (simp_all add: t_def)
  have close: "(uval a - uval t) * 2 ^ 15 \<le> uval t"
  proof (cases "e \<le> 3")
    case True
    with dec(3) show ?thesis by simp
  next
    case False
    then have "uval a \<noteq> 0" using enc by (auto simp: compact_of_def)
    then have m: "2 ^ 15 \<le> m" using enc by (simp add: compact_of_def)
    have "m = uval a div 2 ^ (8 * (e - 3))"
      using enc scaled_div_big [of e "uval a"] False by (simp add: compact_of_def)
    then have "uval a - uval t \<le> 2 ^ (8 * (e - 3))"
      using dec(3) False int_less_mult_div [of "2 ^ (8 * (e - 3))" "uval a"]
      by (simp add: distrib_left mult.commute)
    then have "(uval a - uval t) * 2 ^ 15 \<le> 2 ^ (8 * (e - 3)) * m"
      using m by (intro mult_mono) simp_all
    with dec(3) False show ?thesis by (simp add: mult.commute)
  qed
  obtain c' m' e' where c': "GetCompact t False = Some c'" "uint c' = m' + 2 ^ 24 * int e'"
    and enc': "compact_of (uval t) m' e'"
    using GetCompact_spec [OF wf] by blast
  have "compact_of (uval t) m e"
    unfolding t_def using enc limbs_val_nonneg uval_bounds [OF assms] c(2) by (rule compact_of_decoded)
  from compact_of_unique [OF this enc'] have "c' = c"
    using c(2) c'(2) by (simp add: word_uint_eq_iff)
  with c c' dec wf close show ?thesis by auto
qed

text \<open>The two examples of the class comment: \<open>0x1234560000\<close> and \<open>0xc0de000000\<close>.\<close>

text \<open>
  C1. Encoding a 256-bit target into \<open>nBits\<close> never fails an assertion; decoding the result sets
  neither the negative nor the overflow flag and gives a target that is at most the original one and
  short of it by less than one part in \<open>2 ^ 15\<close>; and encoding the decoded target again gives the same
  \<open>nBits\<close>.
\<close>

theorem compact_roundtrip:
  assumes "wf_uint a"
  shows "\<exists>c t. GetCompact a False = Some c \<and> SetCompact c = (t, False, False) \<and> wf_uint t
    \<and> uval t \<le> uval a \<and> (uval a - uval t) * 2 ^ 15 \<le> uval t \<and> GetCompact t False = Some c"
  by (rule GetCompact_SetCompact [OF assms])

theorem compact_roundtrip_witness:
  "wf_uint (base_uint_of_u64 0x1234560000) \<and> GetCompact (base_uint_of_u64 0x1234560000) False = Some 0x05123456
   \<and> GetCompact (base_uint_of_u64 0xc0de000000) False = Some 0x0600c0de
   \<and> (\<exists>c t. GetCompact (base_uint_of_u64 0x1234560000) False = Some c \<and> SetCompact c = (t, False, False)
       \<and> uval t \<le> uval (base_uint_of_u64 0x1234560000) \<and> GetCompact t False = Some c)"
proof -
  have "GetCompact (base_uint_of_u64 0x1234560000) False = Some 0x05123456"
    "GetCompact (base_uint_of_u64 0xc0de000000) False = Some 0x0600c0de"
    by code_simp+
  then show ?thesis
    using compact_roundtrip [OF wf_base_of_u64, of "0x1234560000"] by auto
qed

text \<open>
  C2. The shift-and-subtract loop of \<open>operator/=\<close> is integer division: it throws exactly when the
  divisor is zero, and otherwise the quotient is the truncated quotient of the two values.
\<close>

theorem division_correct:
  "wf_uint a \<Longrightarrow> wf_uint b \<Longrightarrow>
   (case base_div a b of
      None \<Rightarrow> uval b = 0
    | Some q \<Rightarrow> uval b \<noteq> 0 \<and> wf_uint q \<and> uval q = uval a div uval b)"
  using base_div_correct [of a b] by (cases "uval b = 0") auto

theorem division_correct_witness:
  "wf_uint (base_uint_of_u64 1000) \<and> wf_uint (base_uint_of_u64 7)
   \<and> base_div (base_uint_of_u64 1000) (base_uint_of_u64 7) = Some (base_uint_of_u64 142)
   \<and> uval (base_uint_of_u64 142) = uval (base_uint_of_u64 1000) div uval (base_uint_of_u64 7)"
proof -
  have "base_div (base_uint_of_u64 1000) (base_uint_of_u64 7) = Some (base_uint_of_u64 142)"
    by code_simp
  then show ?thesis
    using division_correct [of "base_uint_of_u64 1000" "base_uint_of_u64 7"] by simp
qed

text \<open>
  C3. The limb loops of addition, subtraction, multiplication and negation compute the ring
  operations modulo \<open>2 ^ 256\<close>, and \<open>CompareTo\<close> is the order of the values.
\<close>

theorem ring_operations_correct:
  assumes "wf_uint a" "wf_uint b"
  shows "uval (base_add a b) = (uval a + uval b) mod 2 ^ 256
    \<and> uval (base_sub a b) = (uval a - uval b) mod 2 ^ 256
    \<and> uval (base_mul a b) = (uval a * uval b) mod 2 ^ 256
    \<and> uval (base_uminus a) = (- uval a) mod 2 ^ 256
    \<and> CompareTo a b = sgn (uval a - uval b)"
  using assms by (simp only: uval_add uval_sub uval_mul uval_uminus CompareTo_sgn)

theorem ring_operations_correct_witness:
  "base_mul (base_not base_uint_zero) (base_uint_of_u64 3) = base_uminus (base_uint_of_u64 3)
   \<and> uval (base_mul (base_not base_uint_zero) (base_uint_of_u64 3))
       = (uval (base_not base_uint_zero) * 3) mod 2 ^ 256"
proof -
  have "base_mul (base_not base_uint_zero) (base_uint_of_u64 3) = base_uminus (base_uint_of_u64 3)"
    by code_simp
  then show ?thesis
    using ring_operations_correct [of "base_not base_uint_zero" "base_uint_of_u64 3"] by simp
qed

lemma chunks4_nth:
  assumes "length a = 32" "x < 8"
  shows "length (take 4 (drop (4 * x) a)) = 4"
  using assms by simp

lemma concat_chunks4:
  "length a = 4 * n \<Longrightarrow> concat (map (\<lambda>x. take 4 (drop (4 * x) a)) [0..<n]) = a"
proof (induction n arbitrary: a)
  case 0
  then show ?case by simp
next
  case (Suc n)
  have "concat (map (\<lambda>x. take 4 (drop (4 * x) (take (4 * n) a))) [0..<n]) = take (4 * n) a"
    using Suc by simp
  moreover have "map (\<lambda>x. take 4 (drop (4 * x) (take (4 * n) a))) [0..<n]
      = map (\<lambda>x. take 4 (drop (4 * x) a)) [0..<n]"
    by (intro map_cong) (auto simp: drop_take min_def)
  ultimately show ?case
    using Suc.prems by simp
qed

lemma length_ArithToUint256 [simp]: "length (ArithToUint256 a) = 32"
  by (simp add: ArithToUint256_def length_concat comp_def sum_list_triv)

lemma nth_chunk_concat:
  "(\<And>y. length (f y) = 4) \<Longrightarrow> x < n \<Longrightarrow> take 4 (drop (4 * x) (concat (map f [0..<n]))) = f x"
proof (induction n)
  case 0
  then show ?case by simp
next
  case (Suc n)
  have len: "length (concat (map f [0..<n])) = 4 * n"
    using Suc.prems(1) by (simp add: length_concat comp_def sum_list_triv)
  show ?case
  proof (cases "x = n")
    case True
    with len Suc.prems(1) show ?thesis by simp
  next
    case False
    with Suc len show ?thesis by simp
  qed
qed

text \<open>
  The conversion between the arithmetic type and the 32-byte blob is a bijection: both round
  trips are the identity.
\<close>

theorem uint256_roundtrip:
  assumes "wf_uint a" "length u = 32"
  shows "UintToArith256 (ArithToUint256 a) = a \<and> ArithToUint256 (UintToArith256 u) = u"
proof
  show "UintToArith256 (ArithToUint256 a) = a"
  proof (rule nth_equalityI)
    fix i assume "i < length (UintToArith256 (ArithToUint256 a))"
    then show "UintToArith256 (ArithToUint256 a) ! i = a ! i"
      by (simp add: UintToArith256_def ArithToUint256_def nth_chunk_concat LE32.dec_enc)
  qed (simp add: UintToArith256_def assms)
  have "map (\<lambda>x. WriteLE32 (UintToArith256 u ! x)) [0..<8] = map (\<lambda>x. take 4 (drop (4 * x) u)) [0..<8]"
    using assms(2)
    by (intro map_cong) (simp_all add: UintToArith256_def LE32.enc_dec del: upt_Suc)
  then show "ArithToUint256 (UintToArith256 u) = u"
    using concat_chunks4 [of u 8] assms(2) by (simp only: ArithToUint256_def WIDTH_simp)
qed

theorem uint256_roundtrip_witness:
  "ArithToUint256 (base_uint_of_u64 0x0102) = [2, 1] @ replicate 30 0
   \<and> UintToArith256 (ArithToUint256 (base_uint_of_u64 0x0102)) = base_uint_of_u64 0x0102
   \<and> ArithToUint256 (UintToArith256 (replicate 32 7)) = replicate 32 7"
proof -
  have "ArithToUint256 (base_uint_of_u64 0x0102) = [2, 1] @ replicate 30 0"
    by code_simp
  then show ?thesis
    using uint256_roundtrip [of "base_uint_of_u64 0x0102" "replicate 32 7"] by simp
qed

lemma ucast_32_64_eq_iff:
  assumes "uint (x :: uint64) < 2 ^ 32"
  shows "ucast (p :: uint32) = x \<longleftrightarrow> p = ucast x"
  using assms by (auto simp: word_uint_eq_iff uint_ucast_64_32 uint_ucast_32_64 mod_pos_pos_trivial)

lemma EqualTo_iff:
  assumes "wf_uint a"
  shows "EqualTo a b \<longleftrightarrow> uval a = uint b"
proof -
  obtain p0 p1 p2 p3 p4 p5 p6 p7 where a: "a = [p0, p1, p2, p3, p4, p5, p6, p7]"
    using assms length8_conv [of a] by (auto simp: wf_uint_def)
  have 1: "ucast p1 = drop_bit 32 b \<longleftrightarrow> p1 = ucast (drop_bit 32 b)"
    by (rule ucast_32_64_eq_iff) (use uint64_bound [of b] in \<open>simp add: uint_drop_bit_eq\<close>)
  have 0: "ucast p0 = b AND 0xffffffff \<longleftrightarrow> p0 = ucast b"
    unfolding and_ffffffff
    by (subst ucast_32_64_eq_iff) (simp_all add: word_uint_eq_iff uint_ucast_64_32 uint_take_bit_eq)
  have 2: "[2..<WIDTH] = [2,3,4,5,6,7]" by (simp add: upt_rec)
  have 3: "replicate 6 0 = [0, 0, 0, 0, 0, 0 :: uint32]" by (simp add: numeral_eq_Suc)
  have "EqualTo a b \<longleftrightarrow> a = base_uint_of_u64 b"
    unfolding EqualTo_def 2
    by (auto simp: a base_uint_of_u64_def 0 1 3)
  also have "\<dots> \<longleftrightarrow> uval a = uint b"
    using uval_inject [OF assms, of "base_uint_of_u64 b"] by simp
  finally show ?thesis .
qed

section \<open>The interface the difficulty code relies on\<close>

text \<open>
  What a client that rescales a target needs of the big integers: values in range, multiplication and
  division as on the values, and a comparison. The client lemmas are proved from the laws alone.
\<close>

locale uint_arith =
  fixes wf :: "'u \<Rightarrow> bool"
    and val :: "'u \<Rightarrow> int"
    and modulus :: int
    and of_u64 :: "uint64 \<Rightarrow> 'u"
    and mul :: "'u \<Rightarrow> 'u \<Rightarrow> 'u"
    and mul32 :: "'u \<Rightarrow> uint32 \<Rightarrow> 'u"
    and quo :: "'u \<Rightarrow> 'u \<Rightarrow> 'u option"
    and gt :: "'u \<Rightarrow> 'u \<Rightarrow> bool"
  assumes val_nonneg: "wf a \<Longrightarrow> 0 \<le> val a"
    and val_bound: "wf a \<Longrightarrow> val a < modulus"
    and wf_of_u64: "wf (of_u64 x)"
    and val_of_u64: "val (of_u64 x) = uint x"
    and wf_mul: "wf a \<Longrightarrow> wf b \<Longrightarrow> wf (mul a b)"
    and val_mul: "wf a \<Longrightarrow> wf b \<Longrightarrow> val (mul a b) = (val a * val b) mod modulus"
    and wf_mul32: "wf a \<Longrightarrow> wf (mul32 a n)"
    and val_mul32: "wf a \<Longrightarrow> val (mul32 a n) = (val a * uint n) mod modulus"
    and quo_Some: "wf a \<Longrightarrow> wf b \<Longrightarrow> val b \<noteq> 0 \<Longrightarrow>
      \<exists>q. quo a b = Some q \<and> wf q \<and> val q = val a div val b"
    and gt_iff: "wf a \<Longrightarrow> wf b \<Longrightarrow> gt a b \<longleftrightarrow> val b < val a"
begin

lemma scale:
  assumes "wf a" "uint d \<noteq> 0" "val a * uint t < modulus"
  shows "\<exists>q. quo (mul a (of_u64 t)) (of_u64 d) = Some q \<and> wf q \<and> val q = val a * uint t div uint d"
proof -
  have "val (mul a (of_u64 t)) = val a * uint t"
    using assms(3) val_nonneg [OF assms(1)]
    by (simp add: val_mul assms(1) wf_of_u64 val_of_u64 mod_pos_pos_trivial)
  then show ?thesis
    using quo_Some [of "mul a (of_u64 t)" "of_u64 d"] assms(1,2)
    by (simp add: wf_mul wf_of_u64 val_of_u64)
qed

lemma scale32:
  assumes "wf a" "uint d \<noteq> 0" "val a * uint t < modulus"
  shows "\<exists>q. quo (mul32 a t) (of_u64 d) = Some q \<and> wf q \<and> val q = val a * uint t div uint d"
  using quo_Some [of "mul32 a t" "of_u64 d"] assms val_nonneg [OF assms(1)]
  by (auto simp: wf_mul32 wf_of_u64 val_of_u64 val_mul32 mod_pos_pos_trivial)

lemma scale32_total:
  assumes "wf a" "uint d \<noteq> 0"
  shows "\<exists>q. quo (mul32 a t) (of_u64 d) = Some q \<and> wf q \<and>
    val q = (val a * uint t) mod modulus div uint d"
  using quo_Some [of "mul32 a t" "of_u64 d"] assms
  by (auto simp: wf_mul32 wf_of_u64 val_of_u64 val_mul32)

lemma cap_le:
  assumes "wf a" "wf limit"
  shows "wf (if gt a limit then limit else a)"
    and "val (if gt a limit then limit else a) = min (val a) (val limit)"
  using assms by (auto simp: gt_iff)

end

interpretation u256: uint_arith wf_uint uval M256 base_uint_of_u64 base_mul base_mul32 base_div
  base_greater
proof
  show "wf_uint a \<Longrightarrow> uval a < M256" for a by (rule uval_bounds)
  show "wf_uint a \<Longrightarrow> wf_uint b \<Longrightarrow> uval b \<noteq> 0 \<Longrightarrow>
    \<exists>q. base_div a b = Some q \<and> wf_uint q \<and> uval q = uval a div uval b" for a b
    by (rule base_div_correct(2))
qed (simp_all add: uval_mul uval_mul32)

end
