(* ===== verification/StrEncodings.thy ===== *)
theory StrEncodings
  imports Prelude
begin

text \<open>
  The text encodings of src/src/utilstrencodings.cpp and src/src/utilstrencodings.h: hexadecimal,
  Base64 and Base32 with their decoders, and the timing-resistant comparison.  A \<open>std::string\<close> is a
  list of characters; a C string is the same list, and reading at its end gives the terminating NUL
  (\<open>c_at\<close>).  A vector of bytes is a list of 8-bit words.  The working variables \<open>enc\<close>, \<open>dec\<close> and \<open>left\<close>
  of the Base64 and Base32 loops never need more than eight bits, so they are bytes here.
\<close>

section \<open>Characters\<close>

definition char_code :: "char \<Rightarrow> nat" where
  "char_code c = of_char c"

definition c_at :: "string \<Rightarrow> nat \<Rightarrow> char" where
  "c_at s i = (if i < length s then s ! i else CHR 0x00)"

definition isspace :: "char \<Rightarrow> bool" where
  "isspace c \<longleftrightarrow> c = CHR '' '' \<or> c = CHR 0x09 \<or> c = CHR 0x0A \<or> c = CHR 0x0B \<or> c = CHR 0x0C \<or> c = CHR 0x0D"

definition CHARS_ALPHA_NUM :: string where
  "CHARS_ALPHA_NUM = ''abcdefghijklmnopqrstuvwxyzABCDEFGHIJKLMNOPQRSTUVWXYZ0123456789''"

datatype SafeChars = SAFE_CHARS_DEFAULT | SAFE_CHARS_UA_COMMENT | SAFE_CHARS_FILENAME

fun SAFE_CHARS :: "SafeChars \<Rightarrow> string" where
  "SAFE_CHARS SAFE_CHARS_DEFAULT = CHARS_ALPHA_NUM @ '' .,;-_/:?@()''"
| "SAFE_CHARS SAFE_CHARS_UA_COMMENT = CHARS_ALPHA_NUM @ '' .,;-_?@''"
| "SAFE_CHARS SAFE_CHARS_FILENAME = CHARS_ALPHA_NUM @ ''.-_''"

definition SanitizeString :: "string \<Rightarrow> SafeChars \<Rightarrow> string" where
  "SanitizeString str rule = filter (\<lambda>c. c \<in> set (SAFE_CHARS rule)) str"

section \<open>Hexadecimal\<close>

definition p_util_hexdigit :: "int list" where
  "p_util_hexdigit =
     replicate 48 (- 1) @ [0, 1, 2, 3, 4, 5, 6, 7, 8, 9] @ replicate 7 (- 1) @
     [0xa, 0xb, 0xc, 0xd, 0xe, 0xf] @ replicate 26 (- 1) @
     [0xa, 0xb, 0xc, 0xd, 0xe, 0xf] @ replicate 153 (- 1)"

definition HexDigit :: "char \<Rightarrow> int" where
  "HexDigit c = p_util_hexdigit ! char_code c"

definition IsHex :: "string \<Rightarrow> bool" where
  "IsHex str =
     (if list_ex (\<lambda>c. HexDigit c < 0) str then False
      else length str > 0 \<and> length str mod 2 = 0)"

definition IsHexNumber :: "string \<Rightarrow> bool" where
  "IsHexNumber str =
     (let starting_location =
        (if length str > 2 \<and> str ! 0 = CHR ''0'' \<and> str ! 1 = CHR ''x'' then 2 else 0)
      in if list_ex (\<lambda>c. HexDigit c < 0) (drop starting_location str) then False
         else length str > starting_location)"

text \<open>
  The loop of \<open>ParseHex\<close>: white space is skipped before a pair of digits; the first character that is
  no digit, the terminating NUL included, ends it.
\<close>

fun ParseHex :: "string \<Rightarrow> bytes" where
  "ParseHex [] = []"
| "ParseHex [c] = []"
| "ParseHex (c # d # psz) =
     (if isspace c then ParseHex (d # psz)
      else if HexDigit c = - 1 then []
      else if HexDigit d = - 1 then []
      else (push_bit 4 (word_of_int (HexDigit c)) OR word_of_int (HexDigit d)) # ParseHex psz)"

definition hexmap :: string where
  "hexmap = ''0123456789abcdef''"

definition hex_byte :: "uint8 \<Rightarrow> string" where
  "hex_byte val = [hexmap ! unat (drop_bit 4 val), hexmap ! unat (val AND 15)]"

fun HexStr_loop :: "bool \<Rightarrow> bool \<Rightarrow> bytes \<Rightarrow> string" where
  "HexStr_loop fSpaces isFirst [] = []"
| "HexStr_loop fSpaces isFirst (val # it) =
     (if fSpaces \<and> \<not> isFirst then '' '' else []) @ hex_byte val @ HexStr_loop fSpaces False it"

definition HexStr :: "bytes \<Rightarrow> bool \<Rightarrow> string" where
  "HexStr vch fSpaces = HexStr_loop fSpaces True vch"

section \<open>Base64\<close>

definition pbase64 :: string where
  "pbase64 = ''ABCDEFGHIJKLMNOPQRSTUVWXYZabcdefghijklmnopqrstuvwxyz0123456789+/''"

text \<open>The loop of \<open>EncodeBase64\<close> with the code after it, in the modes 0, 1 and 2 the loop uses.\<close>

fun EncodeBase64_loop :: "nat \<Rightarrow> uint8 \<Rightarrow> bytes \<Rightarrow> string" where
  "EncodeBase64_loop mode left [] =
     (if mode \<noteq> 0 then pbase64 ! unat left # CHR ''='' # (if mode = 1 then ''='' else []) else [])"
| "EncodeBase64_loop mode left (enc # pch) =
     (if mode = 0 then
        pbase64 ! unat (drop_bit 2 enc) # EncodeBase64_loop 1 (push_bit 4 (enc AND 3)) pch
      else if mode = 1 then
        pbase64 ! unat (left OR drop_bit 4 enc) # EncodeBase64_loop 2 (push_bit 2 (enc AND 15)) pch
      else
        pbase64 ! unat (left OR drop_bit 6 enc) # pbase64 ! unat (enc AND 63) # EncodeBase64_loop 0 left pch)"

definition EncodeBase64 :: "bytes \<Rightarrow> string" where
  "EncodeBase64 pch = EncodeBase64_loop 0 0 pch"

definition decode64_table :: "int list" where
  "decode64_table =
     replicate 43 (- 1) @ [62, - 1, - 1, - 1, 63, 52, 53, 54, 55, 56, 57, 58, 59, 60, 61] @ replicate 7 (- 1) @
     [0, 1, 2, 3, 4, 5, 6, 7, 8, 9, 10, 11, 12, 13, 14, 15, 16, 17, 18, 19, 20, 21, 22, 23, 24, 25] @
     replicate 6 (- 1) @
     [26, 27, 28, 29, 30, 31, 32, 33, 34, 35, 36, 37, 38, 39, 40, 41, 42, 43, 44, 45, 46, 47, 48, 49, 50, 51] @
     replicate 133 (- 1)"

definition decode64 :: "char \<Rightarrow> int" where
  "decode64 c = decode64_table ! char_code c"

text \<open>The loop of \<open>DecodeBase64\<close> ends with \<open>mode\<close>, \<open>left\<close>, the bytes decoded and the rest of the input.\<close>

fun DecodeBase64_loop :: "nat \<Rightarrow> uint8 \<Rightarrow> bytes \<Rightarrow> string \<Rightarrow> nat \<times> uint8 \<times> bytes \<times> string" where
  "DecodeBase64_loop mode left vchRet [] = (mode, left, vchRet, [])"
| "DecodeBase64_loop mode left vchRet (c # p) =
     (if decode64 c = - 1 then (mode, left, vchRet, c # p)
      else let dec = word_of_int (decode64 c)
           in if mode = 0 then DecodeBase64_loop 1 dec vchRet p
              else if mode = 1 then
                DecodeBase64_loop 2 (dec AND 15) (vchRet @ [push_bit 2 left OR drop_bit 4 dec]) p
              else if mode = 2 then
                DecodeBase64_loop 3 (dec AND 3) (vchRet @ [push_bit 4 left OR drop_bit 2 dec]) p
              else DecodeBase64_loop 0 left (vchRet @ [push_bit 6 left OR dec]) p)"

definition DecodeBase64 :: "string \<Rightarrow> bytes \<times> bool" where
  "DecodeBase64 s =
     (let (mode, left, vchRet, p) = DecodeBase64_loop 0 0 [] s;
          pfInvalid =
            (if mode = 0 then False
             else if mode = 1 then True
             else if mode = 2 then
               left \<noteq> 0 \<or> c_at p 0 \<noteq> CHR ''='' \<or> c_at p 1 \<noteq> CHR ''='' \<or> decode64 (c_at p 2) \<noteq> - 1
             else left \<noteq> 0 \<or> c_at p 0 \<noteq> CHR ''='' \<or> decode64 (c_at p 1) \<noteq> - 1)
      in (vchRet, pfInvalid))"

section \<open>Base32\<close>

definition pbase32 :: string where
  "pbase32 = ''abcdefghijklmnopqrstuvwxyz234567''"

definition nPadding :: "nat list" where
  "nPadding = [0, 6, 4, 3, 1]"

fun EncodeBase32_loop :: "nat \<Rightarrow> uint8 \<Rightarrow> bytes \<Rightarrow> string" where
  "EncodeBase32_loop mode left [] =
     (if mode \<noteq> 0 then pbase32 ! unat left # replicate (nPadding ! mode) CHR ''='' else [])"
| "EncodeBase32_loop mode left (enc # pch) =
     (if mode = 0 then
        pbase32 ! unat (drop_bit 3 enc) # EncodeBase32_loop 1 (push_bit 2 (enc AND 7)) pch
      else if mode = 1 then
        pbase32 ! unat (left OR drop_bit 6 enc) # pbase32 ! unat (drop_bit 1 enc AND 31) #
          EncodeBase32_loop 2 (push_bit 4 (enc AND 1)) pch
      else if mode = 2 then
        pbase32 ! unat (left OR drop_bit 4 enc) # EncodeBase32_loop 3 (push_bit 1 (enc AND 15)) pch
      else if mode = 3 then
        pbase32 ! unat (left OR drop_bit 7 enc) # pbase32 ! unat (drop_bit 2 enc AND 31) #
          EncodeBase32_loop 4 (push_bit 3 (enc AND 3)) pch
      else
        pbase32 ! unat (left OR drop_bit 5 enc) # pbase32 ! unat (enc AND 31) # EncodeBase32_loop 0 left pch)"

definition EncodeBase32 :: "bytes \<Rightarrow> string" where
  "EncodeBase32 pch = EncodeBase32_loop 0 0 pch"

definition decode32_table :: "int list" where
  "decode32_table =
     replicate 50 (- 1) @ [26, 27, 28, 29, 30, 31] @ replicate 9 (- 1) @
     [0, 1, 2, 3, 4, 5, 6, 7, 8, 9, 10, 11, 12, 13, 14, 15, 16, 17, 18, 19, 20, 21, 22, 23, 24, 25] @
     replicate 6 (- 1) @
     [0, 1, 2, 3, 4, 5, 6, 7, 8, 9, 10, 11, 12, 13, 14, 15, 16, 17, 18, 19, 20, 21, 22, 23, 24, 25] @
     replicate 133 (- 1)"

definition decode32 :: "char \<Rightarrow> int" where
  "decode32 c = decode32_table ! char_code c"

fun DecodeBase32_loop :: "nat \<Rightarrow> uint8 \<Rightarrow> bytes \<Rightarrow> string \<Rightarrow> nat \<times> uint8 \<times> bytes \<times> string" where
  "DecodeBase32_loop mode left vchRet [] = (mode, left, vchRet, [])"
| "DecodeBase32_loop mode left vchRet (c # p) =
     (if decode32 c = - 1 then (mode, left, vchRet, c # p)
      else let dec = word_of_int (decode32 c)
           in if mode = 0 then DecodeBase32_loop 1 dec vchRet p
              else if mode = 1 then
                DecodeBase32_loop 2 (dec AND 3) (vchRet @ [push_bit 3 left OR drop_bit 2 dec]) p
              else if mode = 2 then DecodeBase32_loop 3 (push_bit 5 left OR dec) vchRet p
              else if mode = 3 then
                DecodeBase32_loop 4 (dec AND 15) (vchRet @ [push_bit 1 left OR drop_bit 4 dec]) p
              else if mode = 4 then
                DecodeBase32_loop 5 (dec AND 1) (vchRet @ [push_bit 4 left OR drop_bit 1 dec]) p
              else if mode = 5 then DecodeBase32_loop 6 (push_bit 5 left OR dec) vchRet p
              else if mode = 6 then
                DecodeBase32_loop 7 (dec AND 7) (vchRet @ [push_bit 2 left OR drop_bit 3 dec]) p
              else DecodeBase32_loop 0 left (vchRet @ [push_bit 5 left OR dec]) p)"

text \<open>\<open>padded k p\<close>: the rest of the input starts with \<open>k\<close> characters \<open>=\<close> and no digit follows them.\<close>

definition padded :: "nat \<Rightarrow> string \<Rightarrow> bool" where
  "padded k p \<longleftrightarrow> list_all (\<lambda>i. c_at p i = CHR ''='') [0..<k] \<and> decode32 (c_at p k) = - 1"

definition DecodeBase32 :: "string \<Rightarrow> bytes \<times> bool" where
  "DecodeBase32 s =
     (let (mode, left, vchRet, p) = DecodeBase32_loop 0 0 [] s;
          pfInvalid =
            (if mode = 0 then False
             else if mode = 1 \<or> mode = 3 \<or> mode = 6 then True
             else if mode = 2 then left \<noteq> 0 \<or> \<not> padded 6 p
             else if mode = 4 then left \<noteq> 0 \<or> \<not> padded 4 p
             else if mode = 5 then left \<noteq> 0 \<or> \<not> padded 3 p
             else left \<noteq> 0 \<or> \<not> padded 1 p)
      in (vchRet, pfInvalid))"

section \<open>Comparison\<close>

text \<open>The accumulator collects the difference of the lengths and of every pair of elements.\<close>

definition TimingResistantEqual :: "bytes \<Rightarrow> bytes \<Rightarrow> bool" where
  "TimingResistantEqual a b =
     (if length b = 0 then length a = 0
      else foldl (\<lambda>accumulator i. accumulator OR unat (a ! i XOR b ! (i mod length b)))
             (length a XOR length b) [0..<length a] = 0)"

section \<open>Bytes\<close>

lemma and_low_mask8:
  "(x :: uint8) AND 1 = take_bit 1 x" "x AND 3 = take_bit 2 x" "x AND 7 = take_bit 3 x" "x AND 15 = take_bit 4 x"
  "x AND 31 = take_bit 5 x" "x AND 63 = take_bit 6 x"
  by (simp_all add: take_bit_eq_mask mask_eq_exp_minus_1)

lemma bit8_high: "8 \<le> n \<Longrightarrow> \<not> bit (x :: uint8) n"
  using bit_imp_le_length [of x n] by auto

lemma word8_eqI:
  assumes "bit (a :: uint8) 0 = bit b 0" "bit a 1 = bit b 1" "bit a 2 = bit b 2" "bit a 3 = bit b 3"
    "bit a 4 = bit b 4" "bit a 5 = bit b 5" "bit a 6 = bit b 6" "bit a 7 = bit b 7"
  shows "a = b"
proof (rule bit_word_eqI)
  fix n assume "n < LENGTH(8)"
  then have "n = 0 \<or> n = 1 \<or> n = 2 \<or> n = 3 \<or> n = 4 \<or> n = 5 \<or> n = 6 \<or> n = 7" by auto
  then show "bit a n = bit b n" using assms by auto
qed

lemma unat8_lessI:
  assumes "take_bit k x = (x :: uint8)"
  shows "unat x < 2 ^ k"
proof -
  have "unat x = unat (take_bit k x)" by (simp only: assms)
  also have "\<dots> = take_bit k (unat x)" by (rule unsigned_take_bit_eq)
  finally show ?thesis using take_bit_nat_less_exp [of k "unat x"] by linarith
qed

lemmas byte_bits =
  bit_push_bit_iff bit_drop_bit_eq bit_or_iff bit_take_bit_iff bit_0_eq comp_def bot_apply

text \<open>
  A byte \<open>b\<close> is cut after its high \<open>8 - k\<close> bits; the low \<open>k\<close> bits are carried over to the left of the
  high bits of the next byte \<open>c\<close>.  The decoder puts them together again.
\<close>

lemma rejoin:
  "push_bit 2 (drop_bit 2 b) OR drop_bit 4 (push_bit 4 (take_bit 2 b) OR drop_bit 4 c) = (b :: uint8)"
  "push_bit 4 (drop_bit 4 b) OR drop_bit 2 (push_bit 2 (take_bit 4 b) OR drop_bit 6 c) = b"
  "push_bit 6 (drop_bit 6 b) OR take_bit 6 b = b"
  "push_bit 3 (drop_bit 3 b) OR drop_bit 2 (push_bit 2 (take_bit 3 b) OR drop_bit 6 c) = b"
  "push_bit 1 (drop_bit 1 b) OR drop_bit 4 (push_bit 4 (take_bit 1 b) OR drop_bit 4 c) = b"
  "push_bit 4 (drop_bit 4 b) OR drop_bit 1 (push_bit 1 (take_bit 4 b) OR drop_bit 7 c) = b"
  "push_bit 2 (drop_bit 2 b) OR drop_bit 3 (push_bit 3 (take_bit 2 b) OR drop_bit 5 c) = b"
  "push_bit 5 (drop_bit 5 b) OR take_bit 5 b = b"
  by (rule word8_eqI; simp only: byte_bits; simp add: bit8_high eval_nat_numeral)+

lemma rejoin_last:
  "push_bit 2 (drop_bit 2 b) OR drop_bit 4 (push_bit 4 (take_bit 2 b)) = (b :: uint8)"
  "push_bit 4 (drop_bit 4 b) OR drop_bit 2 (push_bit 2 (take_bit 4 b)) = b"
  "push_bit 3 (drop_bit 3 b) OR drop_bit 2 (push_bit 2 (take_bit 3 b)) = b"
  "push_bit 1 (drop_bit 1 b) OR drop_bit 4 (push_bit 4 (take_bit 1 b)) = b"
  "push_bit 4 (drop_bit 4 b) OR drop_bit 1 (push_bit 1 (take_bit 4 b)) = b"
  "push_bit 2 (drop_bit 2 b) OR drop_bit 3 (push_bit 3 (take_bit 2 b)) = b"
  by (rule word8_eqI; simp only: byte_bits; simp add: bit8_high eval_nat_numeral)+

lemma carried:
  "take_bit 4 (push_bit 4 (take_bit 2 b) OR drop_bit 4 c) = drop_bit 4 (c :: uint8)"
  "take_bit 2 (push_bit 2 (take_bit 4 b) OR drop_bit 6 c) = drop_bit 6 c"
  "take_bit 2 (push_bit 2 (take_bit 3 b) OR drop_bit 6 c) = drop_bit 6 c"
  "take_bit 4 (push_bit 4 (take_bit 1 b) OR drop_bit 4 c) = drop_bit 4 c"
  "take_bit 1 (push_bit 1 (take_bit 4 b) OR drop_bit 7 c) = drop_bit 7 c"
  "take_bit 3 (push_bit 3 (take_bit 2 b) OR drop_bit 5 c) = drop_bit 5 c"
  "push_bit 5 (drop_bit 6 c) OR take_bit 5 (drop_bit 1 c) = drop_bit 1 c"
  "push_bit 5 (drop_bit 7 c) OR take_bit 5 (drop_bit 2 c) = drop_bit 2 c"
  by (rule word8_eqI; simp only: byte_bits; simp add: bit8_high eval_nat_numeral)+

lemma carried_last:
  "take_bit 4 (push_bit 4 (take_bit 2 (b :: uint8))) = 0"
  "take_bit 2 (push_bit 2 (take_bit 4 b)) = 0"
  "take_bit 2 (push_bit 2 (take_bit 3 b)) = 0"
  "take_bit 4 (push_bit 4 (take_bit 1 b)) = 0"
  "take_bit 1 (push_bit 1 (take_bit 4 b)) = 0"
  "take_bit 3 (push_bit 3 (take_bit 2 b)) = 0"
  by (rule word8_eqI; simp only: byte_bits; simp add: bit8_high eval_nat_numeral)+

lemma digit64_range:
  "unat (drop_bit 2 (b :: uint8)) < 64"
  "unat (push_bit 4 (take_bit 2 b) OR drop_bit 4 c) < 64"
  "unat (push_bit 2 (take_bit 4 b) OR drop_bit 6 c) < 64"
  "unat (take_bit 6 b) < 64"
  "unat (push_bit 4 (take_bit 2 b)) < 64"
  "unat (push_bit 2 (take_bit 4 b)) < 64"
  by (rule unat8_lessI [of 6, simplified], rule word8_eqI; simp only: byte_bits; simp add: bit8_high eval_nat_numeral)+

lemma digit32_range:
  "unat (drop_bit 3 (b :: uint8)) < 32"
  "unat (push_bit 2 (take_bit 3 b) OR drop_bit 6 c) < 32"
  "unat (push_bit 4 (take_bit 1 b) OR drop_bit 4 c) < 32"
  "unat (push_bit 1 (take_bit 4 b) OR drop_bit 7 c) < 32"
  "unat (push_bit 3 (take_bit 2 b) OR drop_bit 5 c) < 32"
  "unat (take_bit 5 b) < 32"
  "unat (push_bit 2 (take_bit 3 b)) < 32"
  "unat (push_bit 4 (take_bit 1 b)) < 32"
  "unat (push_bit 1 (take_bit 4 b)) < 32"
  "unat (push_bit 3 (take_bit 2 b)) < 32"
  by (rule unat8_lessI [of 5, simplified], rule word8_eqI; simp only: byte_bits; simp add: bit8_high eval_nat_numeral)+

section \<open>Round trips\<close>

lemma uint_not_minus_1 [simp]: "uint (x :: uint8) \<noteq> - 1"
  using uint_nonnegative [of x] by linarith

lemma hex_digits: "list_all (\<lambda>i. HexDigit (hexmap ! i) = int i \<and> \<not> isspace (hexmap ! i)) [0..<16]"
  by code_simp

lemma HexDigit_hexmap: "i < 16 \<Longrightarrow> HexDigit (hexmap ! i) = int i"
  and isspace_hexmap: "i < 16 \<Longrightarrow> \<not> isspace (hexmap ! i)"
  using hex_digits by (auto simp: list_all_iff)

lemma nibble_range: "unat (drop_bit 4 (v :: uint8)) < 16" "unat (take_bit 4 v) < 16"
  by (rule unat8_lessI [of 4, simplified], rule word8_eqI; simp only: byte_bits; simp add: bit8_high eval_nat_numeral)+

lemma rejoin_nibbles: "push_bit 4 (drop_bit 4 v) OR take_bit 4 v = (v :: uint8)"
  by (rule word8_eqI; simp only: byte_bits; simp add: bit8_high eval_nat_numeral)

lemma ParseHex_hex_byte: "ParseHex (hex_byte v @ p) = v # ParseHex p"
  by (simp add: hex_byte_def and_low_mask8 HexDigit_hexmap isspace_hexmap nibble_range rejoin_nibbles)

lemma ParseHex_space: "ParseHex (CHR '' '' # p) = ParseHex p"
  by (cases p) (auto simp: isspace_def)

lemma ParseHex_HexStr_loop: "ParseHex (HexStr_loop sp isFirst bs) = bs"
  by (induction sp isFirst bs rule: HexStr_loop.induct) (auto simp: ParseHex_hex_byte ParseHex_space)

lemma decode64_digits: "list_all (\<lambda>i. decode64 (pbase64 ! i) = int i) [0..<64]"
  by code_simp

lemma decode32_digits: "list_all (\<lambda>i. decode32 (pbase32 ! i) = int i) [0..<32]"
  by code_simp

lemma decode64_pbase64: "unat (x :: uint8) < 64 \<Longrightarrow> decode64 (pbase64 ! unat x) = int (unat x)"
  and decode32_pbase32: "unat (x :: uint8) < 32 \<Longrightarrow> decode32 (pbase32 ! unat x) = int (unat x)"
  using decode64_digits decode32_digits by (auto simp: list_all_iff)

lemma decode_pad: "decode64 CHR ''='' = - 1" "decode64 CHR 0x00 = - 1" "decode32 CHR ''='' = - 1" "decode32 CHR 0x00 = - 1"
  by code_simp+

text \<open>
  One lemma per encoding: the decoder, started in the state that has read what the encoder has written
  so far, gives back the byte the encoder is in the middle of and the bytes still to come, and ends in
  a state with no bits left and the right padding.
\<close>

definition ends64 :: "nat \<times> uint8 \<times> bytes \<times> string \<Rightarrow> bytes \<Rightarrow> bool" where
  "ends64 r bs \<longleftrightarrow> r \<in> {(0, l, bs, []) |l. True} \<union> {(2, 0, bs, ''==''), (3, 0, bs, ''='')}"

lemma base64_states:
  "ends64 (DecodeBase64_loop 0 l acc (EncodeBase64_loop 0 e bs)) (acc @ bs) \<and>
   ends64 (DecodeBase64_loop 1 (drop_bit 2 b) acc (EncodeBase64_loop 1 (push_bit 4 (take_bit 2 b)) bs)) (acc @ b # bs) \<and>
   ends64 (DecodeBase64_loop 2 (drop_bit 4 b) acc (EncodeBase64_loop 2 (push_bit 2 (take_bit 4 b)) bs)) (acc @ b # bs)"
proof (induction bs arbitrary: acc l e b)
  case Nil
  then show ?case
    by (simp add: ends64_def decode64_pbase64 digit64_range decode_pad and_low_mask8 rejoin_last carried_last)
next
  case (Cons c bs)
  show ?case
    using Cons [where b = c and acc = acc] Cons [where b = c and acc = "acc @ [b]"]
      Cons [where b = c and acc = "acc @ [b, c]"]
    by (simp add: decode64_pbase64 digit64_range and_low_mask8 rejoin carried del: take_bit_or drop_bit_or)
qed

lemma decode_padding:
  "DecodeBase64_loop m l acc (replicate k CHR ''='') = (m, l, acc, replicate k CHR ''='')"
  "DecodeBase32_loop m l acc (replicate k CHR ''='') = (m, l, acc, replicate k CHR ''='')"
  by (cases k; simp add: decode_pad)+

definition ends32 :: "nat \<times> uint8 \<times> bytes \<times> string \<Rightarrow> bytes \<Rightarrow> bool" where
  "ends32 r bs \<longleftrightarrow> r \<in> {(0, l, bs, []) |l. True} \<union>
     {(2, 0, bs, replicate 6 CHR ''=''), (4, 0, bs, replicate 4 CHR ''=''), (5, 0, bs, replicate 3 CHR ''=''),
      (7, 0, bs, replicate 1 CHR ''='')}"

lemma base32_states:
  "ends32 (DecodeBase32_loop 0 l acc (EncodeBase32_loop 0 e bs)) (acc @ bs) \<and>
   ends32 (DecodeBase32_loop 1 (drop_bit 3 b) acc (EncodeBase32_loop 1 (push_bit 2 (take_bit 3 b)) bs)) (acc @ b # bs) \<and>
   ends32 (DecodeBase32_loop 3 (drop_bit 1 b) acc (EncodeBase32_loop 2 (push_bit 4 (take_bit 1 b)) bs)) (acc @ b # bs) \<and>
   ends32 (DecodeBase32_loop 4 (drop_bit 4 b) acc (EncodeBase32_loop 3 (push_bit 1 (take_bit 4 b)) bs)) (acc @ b # bs) \<and>
   ends32 (DecodeBase32_loop 6 (drop_bit 2 b) acc (EncodeBase32_loop 4 (push_bit 3 (take_bit 2 b)) bs)) (acc @ b # bs)"
proof (induction bs arbitrary: acc l e b)
  case Nil
  then show ?case
    by (simp add: ends32_def decode32_pbase32 digit32_range decode_pad and_low_mask8 rejoin_last carried_last nPadding_def decode_padding
        del: One_nat_def and_one_eq)
next
  case (Cons c bs)
  show ?case
    using Cons [where b = c and acc = acc] Cons [where b = c and acc = "acc @ [b]"]
      Cons [where b = c and acc = "acc @ [b, c]"]
    by (simp add: decode32_pbase32 digit32_range and_low_mask8 rejoin carried
        del: One_nat_def and_one_eq take_bit_or drop_bit_or)
qed

lemma DecodeBase64_EncodeBase64: "DecodeBase64 (EncodeBase64 bs) = (bs, False)"
  using base64_states [of 0 "[]" 0 bs, THEN conjunct1]
  by (auto simp: ends64_def DecodeBase64_def EncodeBase64_def c_at_def decode_pad)

lemma padded_replicate: "padded k (replicate k CHR ''='')"
  by (auto simp: padded_def c_at_def list_all_iff decode_pad)

lemma DecodeBase32_EncodeBase32: "DecodeBase32 (EncodeBase32 bs) = (bs, False)"
  using base32_states [of 0 "[]" 0 bs, THEN conjunct1] padded_replicate [of 1]
  by (auto simp: ends32_def DecodeBase32_def EncodeBase32_def padded_replicate)

lemma IsHex_HexStr_loop:
  "list_all (\<lambda>c. 0 \<le> HexDigit c) (HexStr_loop False isFirst bs) \<and>
   length (HexStr_loop False isFirst bs) = 2 * length bs"
  by (induction bs arbitrary: isFirst)
    (simp_all add: hex_byte_def and_low_mask8 HexDigit_hexmap nibble_range)

text \<open>What the three encodings have in common: the decoder gives back every sequence of bytes.\<close>

locale text_codec =
  fixes encode :: "bytes \<Rightarrow> string" and decode :: "string \<Rightarrow> bytes option"
  assumes decode_encode: "decode (encode bs) = Some bs"
begin

lemma encode_inj: "encode bs = encode cs \<longleftrightarrow> bs = cs"
  by (metis decode_encode option.inject)

end

definition valid_part :: "bytes \<times> bool \<Rightarrow> bytes option" where
  "valid_part r = (if snd r then None else Some (fst r))"

interpretation Hex: text_codec "\<lambda>bs. HexStr bs sp" "\<lambda>s. Some (ParseHex s)" for sp
  by unfold_locales (simp add: HexStr_def ParseHex_HexStr_loop)

interpretation Base64: text_codec EncodeBase64 "\<lambda>s. valid_part (DecodeBase64 s)"
  by unfold_locales (simp add: DecodeBase64_EncodeBase64 valid_part_def)

interpretation Base32: text_codec EncodeBase32 "\<lambda>s. valid_part (DecodeBase32 s)"
  by unfold_locales (simp add: DecodeBase32_EncodeBase32 valid_part_def)

section \<open>Properties\<close>

text \<open>
  C17. Text encodings.  For every sequence of bytes, \<open>ParseHex\<close> reads back what \<open>HexStr\<close> prints, with or
  without spaces, \<open>DecodeBase64\<close> and \<open>DecodeBase32\<close> read back what the encoders print and report no
  error, and no two sequences have the same encoding.
\<close>

theorem text_encodings_roundtrip:
  "ParseHex (HexStr bs fSpaces) = bs \<and>
   DecodeBase64 (EncodeBase64 bs) = (bs, False) \<and>
   DecodeBase32 (EncodeBase32 bs) = (bs, False) \<and>
   (HexStr bs fSpaces = HexStr cs fSpaces \<longleftrightarrow> bs = cs) \<and>
   (EncodeBase64 bs = EncodeBase64 cs \<longleftrightarrow> bs = cs) \<and>
   (EncodeBase32 bs = EncodeBase32 cs \<longleftrightarrow> bs = cs) \<and>
   IsHex (HexStr bs False) = (bs \<noteq> [])"
  using Hex.decode_encode DecodeBase64_EncodeBase64 DecodeBase32_EncodeBase32 Hex.encode_inj
    Base64.encode_inj Base32.encode_inj IsHex_HexStr_loop [of True bs]
  by (auto simp: IsHex_def HexStr_def list_all_iff list_ex_iff not_less)

lemma xor_0_iff: "(x :: uint8) XOR y = 0 \<longleftrightarrow> x = y" "(m :: nat) XOR n = 0 \<longleftrightarrow> m = n"
  by (auto simp: bit_eq_iff bit_simps)

lemma foldl_or_0: "foldl (\<lambda>a i. a OR f i) (x :: nat) is = 0 \<longleftrightarrow> x = 0 \<and> (\<forall>i \<in> set is. f i = 0)"
  by (induction "is" arbitrary: x) (auto simp: or_eq_0_iff)

text \<open>
  Comparison of secrets.  \<open>TimingResistantEqual\<close>, which looks at every element of its first
  argument and never stops early, is equality.
\<close>

theorem timing_resistant_equal_is_equality: "TimingResistantEqual a b \<longleftrightarrow> a = b"
proof (cases "b = []")
  case True
  then show ?thesis by (auto simp: TimingResistantEqual_def)
next
  case False
  have "TimingResistantEqual a b \<longleftrightarrow>
      length a XOR length b = 0 \<and> (\<forall>i < length a. a ! i XOR b ! (i mod length b) = 0)"
    using False unfolding TimingResistantEqual_def foldl_or_0 by (auto simp: unat_eq_0)
  also have "\<dots> \<longleftrightarrow> length a = length b \<and> (\<forall>i < length a. a ! i = b ! i)"
    by (auto simp: xor_0_iff)
  also have "\<dots> \<longleftrightarrow> a = b" by (auto simp: list_eq_iff_nth_eq)
  finally show ?thesis .
qed

end
