(* ===== verification/Uint256.thy ===== *)
theory Uint256
  imports StrEncodings CryptoCommon
begin

text \<open>
  The opaque blobs of src/src/uint256.h and src/src/uint256.cpp for the width of 256 bits: 32 bytes,
  little-endian when printed, with comparison, printing and parsing in hexadecimal.
\<close>

definition BLOB_WIDTH :: nat where
  "BLOB_WIDTH = 32"

definition blob_null :: bytes where
  "blob_null = replicate BLOB_WIDTH 0"

definition blob_of_vector :: "bytes \<Rightarrow> bytes option" where
  "blob_of_vector vch = (if length vch = BLOB_WIDTH then Some vch else None)"

definition blob_IsNull :: "bytes \<Rightarrow> bool" where
  "blob_IsNull b = (\<not> list_ex (\<lambda>x. x \<noteq> 0) b)"

text \<open>\<open>memcmp\<close> on two arrays of the same length.\<close>

fun memcmp :: "bytes \<Rightarrow> bytes \<Rightarrow> int" where
  "memcmp (a # as) (b # bs) = (if a < b then - 1 else if a > b then 1 else memcmp as bs)"
| "memcmp _ _ = 0"

definition blob_eq :: "bytes \<Rightarrow> bytes \<Rightarrow> bool" where
  "blob_eq a b = (memcmp a b = 0)"

definition blob_less :: "bytes \<Rightarrow> bytes \<Rightarrow> bool" where
  "blob_less a b = (memcmp a b < 0)"

definition GetHex :: "bytes \<Rightarrow> string" where
  "GetHex b = HexStr (rev b) False"

text \<open>The loop of \<open>SetHex\<close> walks the digits from the last one; its argument lists them in that order.\<close>

fun SetHex_loop :: "nat \<Rightarrow> string \<Rightarrow> bytes" where
  "SetHex_loop (Suc n) (d # e # psz) =
     (word_of_int (HexDigit d) OR push_bit 4 (word_of_int (HexDigit e))) # SetHex_loop n psz"
| "SetHex_loop (Suc n) [d] = word_of_int (HexDigit d) # replicate n 0"
| "SetHex_loop n _ = replicate n 0"

definition SetHex :: "string \<Rightarrow> bytes" where
  "SetHex psz0 =
     (let psz1 = dropWhile isspace psz0;
          psz2 = (if c_at psz1 0 = CHR ''0'' \<and> (c_at psz1 1 = CHR ''x'' \<or> c_at psz1 1 = CHR ''X'')
                  then drop 2 psz1 else psz1);
          digits = takeWhile (\<lambda>c. HexDigit c \<noteq> - 1) psz2
      in SetHex_loop BLOB_WIDTH (rev digits))"

definition uint256S :: "string \<Rightarrow> bytes" where
  "uint256S str = SetHex str"

definition GetUint64 :: "bytes \<Rightarrow> nat \<Rightarrow> uint64" where
  "GetUint64 data pos =
     (let ptr = drop (pos * 8) data
      in ucast (ptr ! 0) OR push_bit 8 (ucast (ptr ! 1)) OR push_bit 16 (ucast (ptr ! 2)) OR
         push_bit 24 (ucast (ptr ! 3)) OR push_bit 32 (ucast (ptr ! 4)) OR push_bit 40 (ucast (ptr ! 5)) OR
         push_bit 48 (ucast (ptr ! 6)) OR push_bit 56 (ucast (ptr ! 7)))"

definition GetNibble :: "bytes \<Rightarrow> nat \<Rightarrow> uint8" where
  "GetNibble data index0 =
     (let index = 63 - index0
      in if index mod 2 = 1 then drop_bit 4 (data ! (index div 2)) else data ! (index div 2) AND 0x0F)"

definition GetCheapHash :: "bytes \<Rightarrow> uint64" where
  "GetCheapHash data = ReadLE64 data"

section \<open>Properties\<close>

lemma memcmp_0_iff: "length a = length b \<Longrightarrow> memcmp a b = 0 \<longleftrightarrow> a = b"
  by (induction a b rule: memcmp.induct) auto

lemma memcmp_antisym: "length a = length b \<Longrightarrow> memcmp b a = - memcmp a b"
  by (induction a b rule: memcmp.induct) auto

lemma memcmp_trans:
  "length a = length b \<Longrightarrow> length b = length c \<Longrightarrow> memcmp a b < 0 \<Longrightarrow> memcmp b c < 0 \<Longrightarrow> memcmp a c < 0"
proof (induction a b arbitrary: c rule: memcmp.induct)
  case (1 a as b bs)
  then obtain x xs where "c = x # xs" by (cases c) auto
  with 1 show ?case by (auto split: if_splits)
qed auto

lemma HexStr_loop_concat: "HexStr_loop False isFirst bs = concat (map hex_byte bs)"
  by (induction bs arbitrary: isFirst) auto

lemma SetHex_loop_hex:
  "length bs \<le> n \<Longrightarrow> SetHex_loop n (rev (concat (map hex_byte (rev bs)))) = bs @ replicate (n - length bs) 0"
proof (induction bs arbitrary: n)
  case Nil
  then show ?case by (cases n) auto
next
  case (Cons b bs)
  then obtain m where "n = Suc m" by (cases n) auto
  moreover have "take_bit 4 b OR push_bit 4 (drop_bit 4 b) = b"
    using rejoin_nibbles [of b] by (simp only: or.commute)
  ultimately show ?case
    using Cons by (simp add: hex_byte_def and_low_mask8 HexDigit_hexmap nibble_range)
qed

lemma hexmap_no_x: "i < 16 \<Longrightarrow> hexmap ! i \<noteq> CHR ''x'' \<and> hexmap ! i \<noteq> CHR ''X''"
proof -
  have "list_all (\<lambda>i. hexmap ! i \<noteq> CHR ''x'' \<and> hexmap ! i \<noteq> CHR ''X'') [0..<16]" by code_simp
  then show "i < 16 \<Longrightarrow> ?thesis" by (auto simp: list_all_iff)
qed

lemma SetHex_concat:
  assumes "bs \<noteq> []"
  shows "SetHex (concat (map hex_byte bs)) = SetHex_loop BLOB_WIDTH (rev (concat (map hex_byte bs)))"
proof -
  let ?s = "concat (map hex_byte bs)"
  obtain b bs' where bs: "bs = b # bs'" using assms by (cases bs) auto
  have s: "dropWhile isspace ?s = ?s" "\<not> (c_at ?s 1 = CHR ''x'' \<or> c_at ?s 1 = CHR ''X'')"
    by (simp_all add: bs hex_byte_def and_low_mask8 isspace_hexmap nibble_range hexmap_no_x c_at_def)
  have "\<forall>c \<in> set ?s. HexDigit c \<noteq> - 1"
    by (auto simp: hex_byte_def and_low_mask8 HexDigit_hexmap nibble_range)
  then have "takeWhile (\<lambda>c. HexDigit c \<noteq> - 1) ?s = ?s" by (simp only: takeWhile_eq_all_conv)
  then show ?thesis using s unfolding SetHex_def Let_def by (simp only: if_False simp_thms)
qed

lemma SetHex_GetHex:
  assumes "length b = BLOB_WIDTH"
  shows "SetHex (GetHex b) = b"
proof -
  have "rev b \<noteq> []" using assms by (auto simp: BLOB_WIDTH_def)
  then show ?thesis
    using SetHex_concat [of "rev b"] SetHex_loop_hex [of b BLOB_WIDTH] assms
    by (simp add: GetHex_def HexStr_def HexStr_loop_concat)
qed

lemma length_SetHex_loop [simp]: "length (SetHex_loop n psz) = n"
  by (induction n psz rule: SetHex_loop.induct) auto

lemma length_SetHex [simp]: "length (SetHex s) = BLOB_WIDTH"
  by (simp add: SetHex_def Let_def)

lemma length_uint256S [simp]: "length (uint256S s) = BLOB_WIDTH"
  by (simp add: uint256S_def)



end
