(* ===== verification/BlockIndex.thy ===== *)
theory BlockIndex
  imports ArithUint256 Uint256
begin

text \<open>
  The block tree of src/src/chain.h and src/src/chain.cpp: \<open>CBlockIndex\<close>, its skip list,
  its validity levels, its median time, the proof of a block and the time a difference of work
  stands for.  A pointer to a \<open>CBlockIndex\<close> is an address (\<open>ptr\<close>), the heap the addresses
  point into is a finite map (\<open>arena\<close>), and \<open>nullptr\<close> is \<^const>\<open>None\<close>.  A call whose result is
  \<^const>\<open>None\<close> at the outer level dereferences an invalid pointer, fails an assertion or does not
  return; \<open>Some None\<close> is a call that returns \<open>nullptr\<close>.

  \<open>AddToBlockIndex\<close> of src/src/validation.cpp, the operation that grows the tree, is at the end,
  with the reachable states it produces.
\<close>

type_synonym ptr = nat

section \<open>Data\<close>

record CBlockHeader =
  bh_nVersion :: int
  bh_hashPrevBlock :: bytes
  bh_hashMerkleRoot :: bytes
  bh_nTime :: uint32
  bh_nBits :: uint32
  bh_nNonce :: uint32
  bh_nHeight :: uint32
  bh_nNonce64 :: uint64
  bh_mix_hash :: bytes

definition CBlockHeader_SetNull :: CBlockHeader where
  "CBlockHeader_SetNull =
     \<lparr>bh_nVersion = 0, bh_hashPrevBlock = blob_null, bh_hashMerkleRoot = blob_null,
      bh_nTime = 0, bh_nBits = 0, bh_nNonce = 0, bh_nHeight = 0, bh_nNonce64 = 0,
      bh_mix_hash = blob_null\<rparr>"

definition CBlockHeader_IsNull :: "CBlockHeader \<Rightarrow> bool" where
  "CBlockHeader_IsNull h = (bh_nBits h = 0)"

definition CBlockHeader_GetBlockTime :: "CBlockHeader \<Rightarrow> int" where
  "CBlockHeader_GetBlockTime h = uint (bh_nTime h)"

record CDiskBlockPos =
  dp_nFile :: int
  dp_nPos :: uint32

definition CDiskBlockPos_SetNull :: CDiskBlockPos where
  "CDiskBlockPos_SetNull = \<lparr>dp_nFile = - 1, dp_nPos = 0\<rparr>"

definition CDiskBlockPos_IsNull :: "CDiskBlockPos \<Rightarrow> bool" where
  "CDiskBlockPos_IsNull d = (dp_nFile d = - 1)"

record CBlockFileInfo =
  fi_nBlocks :: uint32
  fi_nSize :: uint32
  fi_nUndoSize :: uint32
  fi_nHeightFirst :: uint32
  fi_nHeightLast :: uint32
  fi_nTimeFirst :: uint64
  fi_nTimeLast :: uint64

definition CBlockFileInfo_SetNull :: CBlockFileInfo where
  "CBlockFileInfo_SetNull =
     \<lparr>fi_nBlocks = 0, fi_nSize = 0, fi_nUndoSize = 0, fi_nHeightFirst = 0, fi_nHeightLast = 0,
      fi_nTimeFirst = 0, fi_nTimeLast = 0\<rparr>"

definition AddBlock :: "uint32 \<Rightarrow> uint64 \<Rightarrow> CBlockFileInfo \<Rightarrow> CBlockFileInfo" where
  "AddBlock nHeightIn nTimeIn i0 =
     (let i1 = (if fi_nBlocks i0 = 0 \<or> fi_nHeightFirst i0 > nHeightIn
                then i0\<lparr>fi_nHeightFirst := nHeightIn\<rparr> else i0);
          i2 = (if fi_nBlocks i1 = 0 \<or> fi_nTimeFirst i1 > nTimeIn
                then i1\<lparr>fi_nTimeFirst := nTimeIn\<rparr> else i1);
          i3 = i2\<lparr>fi_nBlocks := fi_nBlocks i2 + 1\<rparr>;
          i4 = (if nHeightIn > fi_nHeightLast i3 then i3\<lparr>fi_nHeightLast := nHeightIn\<rparr> else i3)
      in if nTimeIn > fi_nTimeLast i4 then i4\<lparr>fi_nTimeLast := nTimeIn\<rparr> else i4)"

definition BLOCK_VALID_HEADER :: uint32 where "BLOCK_VALID_HEADER = 1"
definition BLOCK_VALID_TREE :: uint32 where "BLOCK_VALID_TREE = 2"
definition BLOCK_VALID_TRANSACTIONS :: uint32 where "BLOCK_VALID_TRANSACTIONS = 3"
definition BLOCK_VALID_CHAIN :: uint32 where "BLOCK_VALID_CHAIN = 4"
definition BLOCK_VALID_SCRIPTS :: uint32 where "BLOCK_VALID_SCRIPTS = 5"

definition BLOCK_VALID_MASK :: uint32 where
  "BLOCK_VALID_MASK = BLOCK_VALID_HEADER OR BLOCK_VALID_TREE OR BLOCK_VALID_TRANSACTIONS OR
     BLOCK_VALID_CHAIN OR BLOCK_VALID_SCRIPTS"

definition BLOCK_HAVE_DATA :: uint32 where "BLOCK_HAVE_DATA = 8"
definition BLOCK_HAVE_UNDO :: uint32 where "BLOCK_HAVE_UNDO = 16"
definition BLOCK_HAVE_MASK :: uint32 where "BLOCK_HAVE_MASK = BLOCK_HAVE_DATA OR BLOCK_HAVE_UNDO"
definition BLOCK_FAILED_VALID :: uint32 where "BLOCK_FAILED_VALID = 32"
definition BLOCK_FAILED_CHILD :: uint32 where "BLOCK_FAILED_CHILD = 64"

definition BLOCK_FAILED_MASK :: uint32 where
  "BLOCK_FAILED_MASK = BLOCK_FAILED_VALID OR BLOCK_FAILED_CHILD"

lemmas block_status_defs =
  BLOCK_VALID_HEADER_def BLOCK_VALID_TREE_def BLOCK_VALID_TRANSACTIONS_def BLOCK_VALID_CHAIN_def
  BLOCK_VALID_SCRIPTS_def BLOCK_VALID_MASK_def BLOCK_HAVE_DATA_def BLOCK_HAVE_UNDO_def
  BLOCK_HAVE_MASK_def BLOCK_FAILED_VALID_def BLOCK_FAILED_CHILD_def BLOCK_FAILED_MASK_def

record CBlockIndex =
  phashBlock :: "bytes option"
  pprev :: "ptr option"
  pskip :: "ptr option"
  nHeight :: int
  nFile :: int
  nDataPos :: uint32
  nUndoPos :: uint32
  nChainWork :: base_uint
  nTx :: uint32
  nChainTx :: uint32
  nStatus :: uint32
  nVersion :: int
  hashMerkleRoot :: bytes
  nTime :: uint32
  nBits :: uint32
  nNonce :: uint32
  nNonce64 :: uint64
  mix_hash :: bytes
  nSequenceId :: int
  nTimeMax :: uint32

type_synonym arena = "ptr \<rightharpoonup> CBlockIndex"

definition CBlockIndex_SetNull :: CBlockIndex where
  "CBlockIndex_SetNull =
     \<lparr>phashBlock = None, pprev = None, pskip = None, nHeight = 0, nFile = 0, nDataPos = 0,
      nUndoPos = 0, nChainWork = base_uint_zero, nTx = 0, nChainTx = 0, nStatus = 0,
      nVersion = 0, hashMerkleRoot = blob_null, nTime = 0, nBits = 0, nNonce = 0,
      nNonce64 = 0, mix_hash = blob_null, nSequenceId = 0, nTimeMax = 0\<rparr>"

definition CBlockIndex_of_header :: "CBlockHeader \<Rightarrow> CBlockIndex" where
  "CBlockIndex_of_header block =
     CBlockIndex_SetNull
       \<lparr>nVersion := bh_nVersion block, hashMerkleRoot := bh_hashMerkleRoot block,
        nTime := bh_nTime block, nBits := bh_nBits block, nNonce := bh_nNonce block,
        nHeight := sint (bh_nHeight block), nNonce64 := bh_nNonce64 block,
        mix_hash := bh_mix_hash block\<rparr>"

definition GetBlockPos :: "CBlockIndex \<Rightarrow> CDiskBlockPos" where
  "GetBlockPos b =
     (if nStatus b AND BLOCK_HAVE_DATA \<noteq> 0
      then \<lparr>dp_nFile = nFile b, dp_nPos = nDataPos b\<rparr> else CDiskBlockPos_SetNull)"

definition GetUndoPos :: "CBlockIndex \<Rightarrow> CDiskBlockPos" where
  "GetUndoPos b =
     (if nStatus b AND BLOCK_HAVE_UNDO \<noteq> 0
      then \<lparr>dp_nFile = nFile b, dp_nPos = nUndoPos b\<rparr> else CDiskBlockPos_SetNull)"

definition GetBlockHash :: "CBlockIndex \<Rightarrow> bytes option" where
  "GetBlockHash b = phashBlock b"

definition GetBlockHeader :: "arena \<Rightarrow> CBlockIndex \<Rightarrow> CBlockHeader option" where
  "GetBlockHeader A b =
     do { prev \<leftarrow> (case pprev b of
                    None \<Rightarrow> Some blob_null
                  | Some q \<Rightarrow> do { c \<leftarrow> A q; GetBlockHash c });
          Some \<lparr>bh_nVersion = nVersion b, bh_hashPrevBlock = prev,
                bh_hashMerkleRoot = hashMerkleRoot b, bh_nTime = nTime b, bh_nBits = nBits b,
                bh_nNonce = nNonce b, bh_nHeight = word_of_int (nHeight b),
                bh_nNonce64 = nNonce64 b, bh_mix_hash = mix_hash b\<rparr> }"

definition GetBlockTime :: "CBlockIndex \<Rightarrow> int" where
  "GetBlockTime b = uint (nTime b)"

definition GetBlockTimeMax :: "CBlockIndex \<Rightarrow> int" where
  "GetBlockTimeMax b = uint (nTimeMax b)"

section \<open>Operations\<close>

definition IsValid :: "CBlockIndex \<Rightarrow> uint32 \<Rightarrow> bool option" where
  "IsValid b nUpTo =
     (if nUpTo AND NOT BLOCK_VALID_MASK \<noteq> 0 then None
      else if nStatus b AND BLOCK_FAILED_MASK \<noteq> 0 then Some False
      else Some (nStatus b AND BLOCK_VALID_MASK \<ge> nUpTo))"

definition RaiseValidity :: "uint32 \<Rightarrow> CBlockIndex \<Rightarrow> (bool \<times> CBlockIndex) option" where
  "RaiseValidity nUpTo b =
     (if nUpTo AND NOT BLOCK_VALID_MASK \<noteq> 0 then None
      else if nStatus b AND BLOCK_FAILED_MASK \<noteq> 0 then Some (False, b)
      else if nStatus b AND BLOCK_VALID_MASK < nUpTo
      then Some (True, b\<lparr>nStatus := (nStatus b AND NOT BLOCK_VALID_MASK) OR nUpTo\<rparr>)
      else Some (False, b))"

definition InvertLowestOne :: "int \<Rightarrow> int" where
  "InvertLowestOne n = n AND (n - 1)"

definition GetSkipHeight :: "int \<Rightarrow> int" where
  "GetSkipHeight height =
     (if height < 2 then 0
      else if height AND 1 \<noteq> 0 then InvertLowestOne (InvertLowestOne (height - 1)) + 1
      else InvertLowestOne height)"

text \<open>The loop of \<open>GetAncestor\<close>; its state is \<open>pindexWalk\<close> and \<open>heightWalk\<close>.\<close>

partial_function (option) GetAncestor_walk ::
    "arena \<Rightarrow> int \<Rightarrow> ptr \<Rightarrow> int \<Rightarrow> ptr option" where
  "GetAncestor_walk A height pindexWalk heightWalk =
     (if heightWalk > height
      then do {
        b \<leftarrow> A pindexWalk;
        let heightSkip = GetSkipHeight heightWalk;
            heightSkipPrev = GetSkipHeight (heightWalk - 1)
        in if pskip b \<noteq> None \<and>
              (heightSkip = height \<or>
               (heightSkip > height \<and>
                \<not> (heightSkipPrev < heightSkip - 2 \<and> heightSkipPrev \<ge> height)))
           then GetAncestor_walk A height (the (pskip b)) heightSkip
           else do { q \<leftarrow> pprev b; GetAncestor_walk A height q (heightWalk - 1) }
      }
      else Some pindexWalk)"

declare GetAncestor_walk.simps [code]

definition GetAncestor :: "arena \<Rightarrow> ptr \<Rightarrow> int \<Rightarrow> ptr option option" where
  "GetAncestor A this height =
     do { b \<leftarrow> A this;
          if height > nHeight b \<or> height < 0 then Some None
          else do { p \<leftarrow> GetAncestor_walk A height this (nHeight b); Some (Some p) } }"

definition BuildSkip :: "arena \<Rightarrow> CBlockIndex \<Rightarrow> CBlockIndex option" where
  "BuildSkip A b =
     (case pprev b of
        None \<Rightarrow> Some b
      | Some q \<Rightarrow> do { s \<leftarrow> GetAncestor A q (GetSkipHeight (nHeight b)); Some (b\<lparr>pskip := s\<rparr>) })"

definition nMedianTimeSpan :: nat where
  "nMedianTimeSpan = 11"

text \<open>The part of \<open>pmedian\<close> from \<open>pbegin\<close> to \<open>pend\<close> after the loop.\<close>

fun median_window :: "arena \<Rightarrow> nat \<Rightarrow> ptr option \<Rightarrow> int list option" where
  "median_window A (Suc n) (Some p) =
     do { b \<leftarrow> A p; ts \<leftarrow> median_window A n (pprev b); Some (ts @ [GetBlockTime b]) }"
| "median_window A _ _ = Some []"

definition GetMedianTimePast :: "arena \<Rightarrow> ptr \<Rightarrow> int option" where
  "GetMedianTimePast A this =
     do { ts \<leftarrow> median_window A nMedianTimeSpan (Some this);
          Some (sort ts ! (length ts div 2)) }"

definition GetBlockProof :: "CBlockIndex \<Rightarrow> base_uint option" where
  "GetBlockProof block =
     (let (bnTarget, fNegative, fOverflow) = SetCompact (nBits block)
      in if fNegative \<or> fOverflow \<or> EqualTo bnTarget 0 then Some base_uint_zero
         else do { q \<leftarrow> base_div (base_not bnTarget) (base_add bnTarget (base_uint_of_u64 1));
                   Some (base_add q (base_uint_of_u64 1)) })"

definition INT64_MAX :: int where
  "INT64_MAX = 2 ^ 63 - 1"

definition GetBlockProofEquivalentTime ::
    "CBlockIndex \<Rightarrow> CBlockIndex \<Rightarrow> CBlockIndex \<Rightarrow> int \<Rightarrow> int option" where
  "GetBlockProofEquivalentTime to from tip nPowTargetSpacing =
     (let (r, sign) =
        (if base_greater (nChainWork to) (nChainWork from)
         then (base_sub (nChainWork to) (nChainWork from), 1)
         else (base_sub (nChainWork from) (nChainWork to), - 1))
      in do { w \<leftarrow> GetBlockProof tip;
              q \<leftarrow> base_div (base_mul r (base_uint_of_u64 (word_of_int nPowTargetSpacing))) w;
              if base_bits q > 63 then Some (sign * INT64_MAX)
              else Some (sint (word_of_int sign * GetLow64 q :: uint64)) })"

subsection \<open>Growing the tree\<close>

text \<open>
  The part of the state of src/src/validation.cpp that \<open>AddToBlockIndex\<close> reads and writes.
  \<open>nextPtr\<close> is the allocator behind \<open>new CBlockIndex\<close>: every address from \<open>nextPtr\<close> on is unused.
  The hash of the header is an argument, because the proof-of-work hash functions are not part of
  this model.
\<close>

record BlockMap =
  mapBlockIndex :: "bytes \<rightharpoonup> ptr"
  blockArena :: arena
  nextPtr :: ptr
  pindexBestHeader :: "ptr option"
  setDirtyBlockIndex :: "ptr set"

definition link_prev :: "CBlockHeader \<Rightarrow> (bytes \<rightharpoonup> ptr) \<Rightarrow> arena \<Rightarrow> ptr \<Rightarrow> CBlockIndex \<Rightarrow> CBlockIndex option" where
  "link_prev block mi A pindexNew b =
     (case mi (bh_hashPrevBlock block) of
        None \<Rightarrow> Some b
      | Some q \<Rightarrow>
          do { c \<leftarrow> A q;
               let b' = b\<lparr>pprev := Some q, nHeight := nHeight c + 1\<rparr>
               in BuildSkip (A(pindexNew \<mapsto> b')) b' })"

definition sum_up :: "arena \<Rightarrow> CBlockIndex \<Rightarrow> CBlockIndex option" where
  "sum_up A b =
     do { (t, w) \<leftarrow> (case pprev b of
                         None \<Rightarrow> Some (nTime b, base_uint_zero)
                       | Some q \<Rightarrow> do { c \<leftarrow> A q; Some (max (nTimeMax c) (nTime b), nChainWork c) });
          proof \<leftarrow> GetBlockProof b;
          Some (b\<lparr>nTimeMax := t, nChainWork := base_add w proof\<rparr>) }"

definition update_best :: "arena \<Rightarrow> ptr \<Rightarrow> CBlockIndex \<Rightarrow> ptr option \<Rightarrow> ptr option option" where
  "update_best A pindexNew b best =
     (case best of
        None \<Rightarrow> Some (Some pindexNew)
      | Some m \<Rightarrow>
          do { c \<leftarrow> A m;
               Some (if base_less (nChainWork c) (nChainWork b) then Some pindexNew else best) })"

definition AddToBlockIndex :: "bytes \<Rightarrow> CBlockHeader \<Rightarrow> BlockMap \<Rightarrow> (ptr \<times> BlockMap) option" where
  "AddToBlockIndex hash block S =
     (case mapBlockIndex S hash of
        Some p \<Rightarrow> Some (p, S)
      | None \<Rightarrow>
          let pindexNew = nextPtr S;
              mi = (mapBlockIndex S)(hash \<mapsto> pindexNew);
              b0 = (CBlockIndex_of_header block)\<lparr>nSequenceId := 0, phashBlock := Some hash\<rparr>;
              A0 = (blockArena S)(pindexNew \<mapsto> b0)
          in do {
            b1 \<leftarrow> link_prev block mi A0 pindexNew b0;
            b2 \<leftarrow> sum_up (A0(pindexNew \<mapsto> b1)) b1;
            (_, b3) \<leftarrow> RaiseValidity BLOCK_VALID_TREE b2;
            let A3 = A0(pindexNew \<mapsto> b3)
            in do {
              best \<leftarrow> update_best A3 pindexNew b3 (pindexBestHeader S);
              Some (pindexNew,
                S\<lparr>mapBlockIndex := mi, blockArena := A3, nextPtr := Suc pindexNew,
                  pindexBestHeader := best,
                  setDirtyBlockIndex := insert pindexNew (setDirtyBlockIndex S)\<rparr>)
            }
          })"

section \<open>The block tree\<close>

text \<open>
  The reference definition of an ancestor follows \<open>pprev\<close> one block at a time.  \<open>wf_index\<close> is the
  invariant of the tree: heights count the distance to a block without predecessor, and a skip pointer
  that is set points to the ancestor at \<open>GetSkipHeight\<close>.
\<close>

fun nth_prev :: "arena \<Rightarrow> nat \<Rightarrow> ptr \<Rightarrow> ptr option" where
  "nth_prev A 0 p = Some p"
| "nth_prev A (Suc n) p = do { b \<leftarrow> A p; q \<leftarrow> pprev b; nth_prev A n q }"

definition ancestor_at :: "arena \<Rightarrow> ptr \<Rightarrow> int \<Rightarrow> ptr option" where
  "ancestor_at A p h =
     do { b \<leftarrow> A p; if 0 \<le> h \<and> h \<le> nHeight b then nth_prev A (nat (nHeight b - h)) p else None }"

definition wf_block :: "arena \<Rightarrow> ptr \<Rightarrow> CBlockIndex \<Rightarrow> bool" where
  "wf_block A p b \<longleftrightarrow>
     (case pprev b of
        None \<Rightarrow> nHeight b = 0
      | Some q \<Rightarrow> \<exists>c. A q = Some c \<and> nHeight b = nHeight c + 1 \<and> 0 \<le> nHeight c) \<and>
     (\<forall>s. pskip b = Some s \<longrightarrow> ancestor_at A p (GetSkipHeight (nHeight b)) = Some s)"

definition wf_index :: "arena \<Rightarrow> bool" where
  "wf_index A \<longleftrightarrow> (\<forall>p b. A p = Some b \<longrightarrow> wf_block A p b)"

lemma wf_indexD: "wf_index A \<Longrightarrow> A p = Some b \<Longrightarrow> wf_block A p b"
  by (simp add: wf_index_def)

lemma wf_index_height: "wf_index A \<Longrightarrow> A p = Some b \<Longrightarrow> 0 \<le> nHeight b"
  by (drule (1) wf_indexD) (auto simp: wf_block_def split: option.splits)

lemma wf_index_pprev_None: "wf_index A \<Longrightarrow> A p = Some b \<Longrightarrow> pprev b = None \<longleftrightarrow> nHeight b = 0"
  by (drule (1) wf_indexD) (auto simp: wf_block_def split: option.splits)

lemma wf_index_pprev_Some:
  "wf_index A \<Longrightarrow> A p = Some b \<Longrightarrow> pprev b = Some q \<Longrightarrow> \<exists>c. A q = Some c \<and> nHeight c = nHeight b - 1"
  by (drule (1) wf_indexD) (auto simp: wf_block_def)

lemma InvertLowestOne_bounds: "0 < n \<Longrightarrow> 0 \<le> InvertLowestOne n \<and> InvertLowestOne n < n"
  using AND_upper2 [of "n - 1" n] by (simp add: InvertLowestOne_def)

lemma InvertLowestOne_0 [simp]: "InvertLowestOne 0 = 0"
  by (simp add: InvertLowestOne_def)

lemma GetSkipHeight_bounds:
  assumes "0 < h"
  shows "0 \<le> GetSkipHeight h" "GetSkipHeight h < h"
proof -
  have "0 \<le> InvertLowestOne (InvertLowestOne (h - 1)) \<and> InvertLowestOne (InvertLowestOne (h - 1)) + 1 < h" if "2 \<le> h"
  proof (cases "InvertLowestOne (h - 1) = 0")
    case True
    with that show ?thesis by simp
  next
    case False
    with that show ?thesis
      using InvertLowestOne_bounds [of "h - 1"] InvertLowestOne_bounds [of "InvertLowestOne (h - 1)"]
      by linarith
  qed
  then show "0 \<le> GetSkipHeight h" "GetSkipHeight h < h"
    using assms InvertLowestOne_bounds [of h] by (auto simp: GetSkipHeight_def)
qed

lemma nth_prev_add: "nth_prev A (m + n) p = do { q \<leftarrow> nth_prev A m p; nth_prev A n q }"
  by (induction m arbitrary: p) (auto split: bind_splits)

lemma nth_prev_height:
  assumes "wf_index A"
  shows "A p = Some b \<Longrightarrow> int n \<le> nHeight b \<Longrightarrow>
    \<exists>q c. nth_prev A n p = Some q \<and> A q = Some c \<and> nHeight c = nHeight b - int n"
proof (induction n arbitrary: p b)
  case (Suc n)
  then obtain q where q: "pprev b = Some q"
    using wf_index_pprev_None [OF assms Suc.prems(1)] by (cases "pprev b") auto
  then obtain c where c: "A q = Some c" "nHeight c = nHeight b - 1"
    using wf_index_pprev_Some [OF assms Suc.prems(1)] by blast
  show ?case
    using Suc.IH [OF c(1)] c(2) Suc.prems q by auto
qed simp

text \<open>A block and the \<open>n - 1\<close> before it.\<close>

fun last_blocks :: "arena \<Rightarrow> nat \<Rightarrow> ptr \<Rightarrow> CBlockIndex list" where
  "last_blocks A (Suc n) p =
     (case A p of None \<Rightarrow> [] | Some b \<Rightarrow> b # (case pprev b of None \<Rightarrow> [] | Some q \<Rightarrow> last_blocks A n q))"
| "last_blocks A 0 p = []"

lemma length_last_blocks:
  assumes wf: "wf_index A"
  shows "A p = Some b \<Longrightarrow> int n \<le> nHeight b + 1 \<Longrightarrow> length (last_blocks A n p) = n"
proof (induction n arbitrary: p b)
  case (Suc n)
  show ?case
  proof (cases "pprev b")
    case None
    then have "n = 0" using wf_index_pprev_None [OF wf Suc.prems(1)] Suc.prems(2) by simp
    then show ?thesis using Suc.prems(1) None by simp
  next
    case (Some q)
    then obtain c where "A q = Some c" "nHeight c = nHeight b - 1"
      using wf_index_pprev_Some [OF wf Suc.prems(1)] by blast
    then show ?thesis using Suc Some by simp
  qed
qed simp

lemma ancestor_at_Some:
  assumes "wf_index A" "A p = Some b" "0 \<le> h" "h \<le> nHeight b"
  shows "\<exists>q c. ancestor_at A p h = Some q \<and> A q = Some c \<and> nHeight c = h"
  using nth_prev_height [OF assms(1,2), of "nat (nHeight b - h)"] assms(3,4)
  by (auto simp: ancestor_at_def assms(2))

lemma ancestor_at_trans:
  assumes "wf_index A" "ancestor_at A p h = Some q" "0 \<le> k" "k \<le> h"
  shows "ancestor_at A q k = ancestor_at A p k"
proof -
  obtain b where b: "A p = Some b" "0 \<le> h" "h \<le> nHeight b" "nth_prev A (nat (nHeight b - h)) p = Some q"
    using assms(2) by (auto simp: ancestor_at_def split: bind_splits if_splits)
  obtain c where c: "A q = Some c" "nHeight c = h"
    using ancestor_at_Some [OF assms(1) b(1,2,3)] assms(2) by auto
  have "nat (nHeight b - k) = nat (nHeight b - h) + nat (h - k)" using assms(3,4) b by auto
  then show ?thesis
    using b c assms(3,4) by (simp add: ancestor_at_def nth_prev_add)
qed

lemma ancestor_at_self: "A p = Some b \<Longrightarrow> 0 \<le> nHeight b \<Longrightarrow> ancestor_at A p (nHeight b) = Some p"
  by (simp add: ancestor_at_def)

lemma ancestor_at_pprev:
  assumes "wf_index A" "A p = Some b" "pprev b = Some q"
  shows "ancestor_at A p (nHeight b - 1) = Some q"
  using wf_index_pprev_Some [OF assms] wf_index_height [OF assms(1)] assms
  by (force simp: ancestor_at_def)

text \<open>The loop ends at the ancestor, whether it follows the skip pointers or not.\<close>

lemma GetAncestor_walk_correct:
  assumes wf: "wf_index A" and h: "0 \<le> height"
  shows "A p = Some b \<Longrightarrow> height \<le> nHeight b \<Longrightarrow>
    GetAncestor_walk A height p (nHeight b) = ancestor_at A p height"
proof (induction "nat (nHeight b)" arbitrary: p b rule: less_induct)
  case less
  show ?case
  proof (cases "nHeight b > height")
    case False
    with less.prems have "nHeight b = height" by simp
    then show ?thesis
      using h less.prems(1) ancestor_at_self [of A p b] by (subst GetAncestor_walk.simps) simp
  next
    case True
    let ?hs = "GetSkipHeight (nHeight b)"
    have step: "GetAncestor_walk A height q k = ancestor_at A p height"
      if k: "ancestor_at A p k = Some q" "height \<le> k" "k < nHeight b" for q k
    proof -
      obtain c where c: "A q = Some c" "nHeight c = k"
        using ancestor_at_Some [OF wf less.prems(1), of k] k h by auto
      have "GetAncestor_walk A height q (nHeight c) = ancestor_at A q height"
        using less.hyps [OF _ c(1)] c(2) k h by simp
      then show ?thesis
        using ancestor_at_trans [OF wf k(1) h k(2)] c(2) by simp
    qed
    have skip: "ancestor_at A p ?hs = Some s" if "pskip b = Some s" for s
      using wf_indexD [OF wf less.prems(1)] that by (simp add: wf_block_def)
    have hs: "?hs < nHeight b" using GetSkipHeight_bounds(2) True h by simp
    obtain q where q: "pprev b = Some q"
      using wf_index_pprev_None [OF wf less.prems(1)] True h by (cases "pprev b") auto
    have prev: "GetAncestor_walk A height q (nHeight b - 1) = ancestor_at A p height"
      using step [OF ancestor_at_pprev [OF wf less.prems(1) q]] True by simp
    show ?thesis
      using True prev q step [OF skip _ hs]
      by (subst GetAncestor_walk.simps) (auto simp: less.prems(1) Let_def)
  qed
qed

lemma GetAncestor_correct:
  assumes "wf_index A" "A p = Some b"
  shows "GetAncestor A p h = Some (ancestor_at A p h)"
proof (cases "0 \<le> h \<and> h \<le> nHeight b")
  case True
  then show ?thesis
    using GetAncestor_walk_correct [OF assms(1) _ assms(2), of h] ancestor_at_Some [OF assms, of h]
    by (auto simp: GetAncestor_def assms(2))
next
  case False
  then show ?thesis by (auto simp: GetAncestor_def ancestor_at_def assms(2))
qed


section \<open>Proof of a block\<close>

lemma SetCompact_not_max: "uval (fst (SetCompact c)) \<noteq> M256 - 1"
proof (cases "compact_size c \<le> 3")
  case True
  have "compact_word c div 2 ^ (8 * (3 - compact_size c)) \<le> compact_word c"
    using zdiv_mono2 [of "compact_word c" 1 "2 ^ (8 * (3 - compact_size c))"] by simp
  then show ?thesis
    using True pos_mod_bound [of "2 ^ 23 :: int" "uint c"] by (simp add: SetCompact_value)
next
  case False
  then have "(2 :: int) dvd 2 ^ (8 * (compact_size c - 3))" by simp
  then have "2 dvd uval (fst (SetCompact c))"
    using False by (simp add: SetCompact_value dvd_mod dvd_mult)
  then show ?thesis by (auto simp: dvd_def) presburger
qed


text \<open>\<open>target_of\<close> is the number a well-formed \<open>nBits\<close> stands for, and 0 for one that is rejected.\<close>

definition target_of :: "uint32 \<Rightarrow> int" where
  "target_of c =
     (let (t, neg, ovf) = SetCompact c in if neg \<or> ovf then 0 else uval t)"

lemma target_of_cases:
  "target_of c = (if fst (snd (SetCompact c)) \<or> snd (snd (SetCompact c)) then 0
                  else uval (fst (SetCompact c)))"
  by (simp add: target_of_def split: prod.split)

lemma target_of_bounds: "0 \<le> target_of c" "target_of c < M256 - 1"
  using uval_bounds [OF SetCompact_wf, of c] SetCompact_not_max [of c] limbs_val_nonneg [of "fst (SetCompact c)"]
  by (auto simp: target_of_cases)

definition block_proof :: "uint32 \<Rightarrow> int" where
  "block_proof c = (if target_of c = 0 then 0 else M256 div (target_of c + 1))"

lemma uval_GetBlockProof:
  "\<exists>w. GetBlockProof b = Some w \<and> wf_uint w \<and> uval w = block_proof (nBits b)"
proof -
  obtain t neg ovf where sc: "SetCompact (nBits b) = (t, neg, ovf)" by (cases "SetCompact (nBits b)") auto
  have wf: "wf_uint t" using SetCompact_wf [of "nBits b"] by (simp add: sc)
  show ?thesis
  proof (cases "neg \<or> ovf \<or> uval t = 0")
    case True
    then show ?thesis
      by (auto simp: GetBlockProof_def sc EqualTo_iff [OF wf] block_proof_def target_of_def)
  next
    case False
    then have t: "target_of (nBits b) = uval t" by (simp add: target_of_def sc)
    have pos: "0 < uval t" using False limbs_val_nonneg [of t] by linarith
    have lt: "uval t + 1 < M256" using target_of_bounds(2) [of "nBits b"] t by linarith
    have den: "uval (base_add t (base_uint_of_u64 1)) = uval t + 1"
      using lt pos by (simp add: uval_add wf)
    obtain q where q: "base_div (base_not t) (base_add t (base_uint_of_u64 1)) = Some q" "wf_uint q"
      "uval q = (M256 - 1 - uval t) div (uval t + 1)"
      using base_div_correct(2) [of "base_not t" "base_add t (base_uint_of_u64 1)"] pos
      by (auto simp: wf den uval_not)
    have eq: "uval q + 1 = M256 div (uval t + 1)"
      using pos div_add_self2 [of "uval t + 1" "M256 - 1 - uval t"] by (simp add: q(3))
    have "M256 div (uval t + 1) < M256"
      using pos by (intro int_div_less_self) simp_all
    then have "(uval q + 1) mod M256 = uval q + 1"
      using eq limbs_val_nonneg [of q] by (intro mod_pos_pos_trivial) linarith+
    then have "uval (base_add q (base_uint_of_u64 1)) = M256 div (uval t + 1)"
      by (simp add: uval_add q(2) eq)
    then show ?thesis
      using False pos q t by (auto simp: GetBlockProof_def sc EqualTo_iff [OF wf] block_proof_def)
  qed
qed

section \<open>Median time\<close>

text \<open>At least \<open>n - n div 2\<close> of \<open>n\<close> numbers are not below their median, and the converse.\<close>

lemma sorted_nth_ge_iff:
  assumes "sorted xs" "i < length xs"
  shows "xs ! i \<ge> (m :: int) \<longleftrightarrow> length (filter (\<lambda>x. m \<le> x) xs) \<ge> length xs - i"
  using assms
proof (induction xs arbitrary: i)
  case (Cons x xs)
  show ?case
  proof (cases i)
    case 0
    show ?thesis
    proof (cases "m \<le> x")
      case True
      with Cons.prems(1) have "filter (\<lambda>x. m \<le> x) xs = xs" by (auto simp: filter_id_conv)
      with True 0 show ?thesis by simp
    next
      case False
      then show ?thesis
        using 0 length_filter_le [of "\<lambda>x. m \<le> x" xs] by (simp add: not_le less_Suc_eq_le)
    qed
  next
    case (Suc j)
    then have "xs ! j \<ge> m \<longleftrightarrow> length (filter (\<lambda>x. m \<le> x) xs) \<ge> length xs - j"
      using Cons by simp
    moreover have "xs ! j \<ge> m" if "m \<le> x"
      using that Cons.prems Suc nth_mem [of j xs] by (auto intro: order_trans)
    ultimately show ?thesis using Suc by auto
  qed
qed simp

lemma median_ge_iff:
  "xs \<noteq> [] \<Longrightarrow> sort xs ! (length xs div 2) \<ge> (m :: int) \<longleftrightarrow>
     length (filter (\<lambda>x. m \<le> x) xs) \<ge> length xs - length xs div 2"
  using sorted_nth_ge_iff [of "sort xs" "length xs div 2" m] by (simp add: filter_sort)

lemma median_push:
  assumes "t \<ge> sort xs ! (length xs div 2)" "xs \<noteq> []"
  shows "sort (xs @ [t]) ! (length (xs @ [t]) div 2) \<ge> (sort xs ! (length xs div 2) :: int)"
  using assms median_ge_iff [OF assms(2), of "sort xs ! (length xs div 2)"]
  by (subst median_ge_iff) auto

lemma median_slide:
  assumes "t \<ge> sort (x # xs) ! (length (x # xs) div 2)"
  shows "sort (xs @ [t]) ! (length (xs @ [t]) div 2) \<ge> (sort (x # xs) ! (length (x # xs) div 2) :: int)"
  using assms median_ge_iff [of "x # xs" "sort (x # xs) ! (length (x # xs) div 2)"]
  by (subst median_ge_iff) (auto split: if_splits)

lemma median_window_length: "median_window A n p = Some ts \<Longrightarrow> length ts \<le> n"
  by (induction A n p arbitrary: ts rule: median_window.induct) (auto split: bind_splits)

lemma median_window_total:
  assumes wf: "wf_index A"
  shows "(case p of None \<Rightarrow> True | Some q \<Rightarrow> A q \<noteq> None) \<Longrightarrow> \<exists>ts. median_window A n p = Some ts \<and>
    (p \<noteq> None \<longrightarrow> 0 < n \<longrightarrow> ts \<noteq> [])"
proof (induction n arbitrary: p)
  case (Suc n)
  show ?case
  proof (cases p)
    case (Some q)
    then obtain b where b: "A q = Some b" using Suc.prems by auto
    have "case pprev b of None \<Rightarrow> True | Some q \<Rightarrow> A q \<noteq> None"
      using wf_index_pprev_Some [OF wf b] by (auto split: option.splits)
    then show ?thesis using Suc.IH Some b by fastforce
  qed simp
qed simp

lemma tl_le_1: "length xs \<le> Suc 0 \<Longrightarrow> tl xs = []"
  by (cases xs) auto

text \<open>One more block in the window: the oldest falls out when the window was full.\<close>

lemma median_window_Suc:
  "median_window A n p = Some ts \<Longrightarrow> median_window A (Suc n) p = Some ts' \<Longrightarrow>
     ts' = ts \<or> (length ts = n \<and> tl ts' = ts \<and> ts' \<noteq> [])"
proof (induction A n p arbitrary: ts ts' rule: median_window.induct)
  case (1 A n p)
  then show ?case by (fastforce split: bind_splits)
qed (auto dest: median_window_length intro: tl_le_1)

text \<open>
  Along a chain whose block times are not below the median of the blocks before, the median never
  decreases.
\<close>

lemma GetMedianTimePast_total:
  assumes "wf_index A" "A p = Some b"
  shows "\<exists>m. GetMedianTimePast A p = Some m"
  using median_window_total [OF assms(1), of "Some p" nMedianTimeSpan] assms(2)
  by (auto simp: GetMedianTimePast_def)

lemma GetMedianTimePast_mono:
  assumes wf: "wf_index A" and b: "A p = Some b" "pprev b = Some q"
    and m: "GetMedianTimePast A q = Some m" and t: "m \<le> GetBlockTime b"
  shows "\<exists>m'. GetMedianTimePast A p = Some m' \<and> m \<le> m'"
proof -
  obtain ts where ts: "median_window A 11 (Some q) = Some ts" "m = sort ts ! (length ts div 2)"
    using m by (auto simp: GetMedianTimePast_def nMedianTimeSpan_def split: bind_splits)
  obtain us where us: "median_window A 10 (Some q) = Some us"
    using median_window_total [OF wf, of "Some q" 10] wf_index_pprev_Some [OF wf b] by auto
  have ne: "us \<noteq> []"
    using median_window_total [OF wf, of "Some q" 10] wf_index_pprev_Some [OF wf b] us by auto
  have w: "median_window A 11 (Some p) = Some (us @ [GetBlockTime b])"
    using b us by (simp add: numeral_eq_Suc)
  have m': "GetMedianTimePast A p = Some (sort (us @ [GetBlockTime b]) ! (length (us @ [GetBlockTime b]) div 2))"
    by (simp only: GetMedianTimePast_def nMedianTimeSpan_def w bind.bind_lunit)
  from median_window_Suc [OF us, of ts] ts(1)
  consider "ts = us" | "tl ts = us" "ts \<noteq> []" by (auto simp: numeral_eq_Suc)
  then show ?thesis
  proof cases
    case 1
    then show ?thesis unfolding m' using median_push [OF _ ne] t ts(2) by simp
  next
    case 2
    then obtain x where "ts = x # us" by (cases ts) auto
    then show ?thesis unfolding m' using median_slide [of x us] t ts(2) by simp
  qed
qed

section \<open>The tree stays well-formed\<close>

text \<open>Adding a block at an unused address changes no ancestor of the blocks already there.\<close>

lemma nth_prev_extend: "A p = None \<Longrightarrow> nth_prev A n q = Some r \<Longrightarrow> nth_prev (A(p \<mapsto> b)) n q = Some r"
  by (induction n arbitrary: q) (auto split: bind_splits)

lemma ancestor_at_extend:
  "A p = None \<Longrightarrow> ancestor_at A q h = Some r \<Longrightarrow> ancestor_at (A(p \<mapsto> b)) q h = Some r"
  by (auto simp: ancestor_at_def nth_prev_extend split: bind_splits if_splits)

lemma wf_block_extend:
  "A p = None \<Longrightarrow> A q = Some c \<Longrightarrow> wf_block A q c \<Longrightarrow> wf_block (A(p \<mapsto> b)) q c"
  by (auto simp: wf_block_def ancestor_at_extend split: option.splits)

lemma wf_index_root:
  assumes "wf_index A" "A p = None" "pprev b = None" "pskip b = None" "nHeight b = 0"
  shows "wf_index (A(p \<mapsto> b))"
  using assms wf_block_extend [of A p] by (auto simp: wf_index_def) (simp add: wf_block_def)

lemma ancestor_at_child:
  assumes A: "A p = None" "A q = Some c" and b: "pprev b = Some q" "nHeight b = nHeight c + 1"
    and h: "h \<le> nHeight c" and r: "ancestor_at A q h = Some r"
  shows "ancestor_at (A(p \<mapsto> b)) p h = Some r"
proof -
  have qp: "q \<noteq> p" using A by auto
  have "nat (nHeight b - h) = Suc (nat (nHeight c - h))" using b(2) h by simp
  then show ?thesis
    using r A b h nth_prev_extend [of A p "nat (nHeight c - h)" q r b]
    by (auto simp: ancestor_at_def split: if_splits)
qed

lemma wf_index_child:
  assumes wf: "wf_index A" and A: "A p = None" "A q = Some c"
    and b: "pprev b = Some q" "nHeight b = nHeight c + 1" "pskip b = None \<or> ancestor_at A q (GetSkipHeight (nHeight b)) = pskip b"
  shows "wf_index (A(p \<mapsto> b))"
proof -
  have c: "0 \<le> nHeight c" by (rule wf_index_height [OF wf A(2)])
  have "GetSkipHeight (nHeight b) \<le> nHeight c" using GetSkipHeight_bounds(2) [of "nHeight b"] b(2) c by simp
  then have "wf_block (A(p \<mapsto> b)) p b"
    using A b c ancestor_at_child [of A p q c b] by (auto simp: wf_block_def)
  then show ?thesis
    using wf A(1) wf_block_extend [of A p] by (auto simp: wf_index_def)
qed

lemma BuildSkip_correct:
  assumes wf: "wf_index A" and A: "A p = None" "A q = Some c"
    and b: "pprev b = Some q" "nHeight b = nHeight c + 1" "pskip b = None"
  shows "BuildSkip (A(p \<mapsto> b)) b = Some (b\<lparr>pskip := ancestor_at A q (GetSkipHeight (nHeight b))\<rparr>)"
proof -
  have c: "0 \<le> nHeight c" by (rule wf_index_height [OF wf A(2)])
  have wf': "wf_index (A(p \<mapsto> b))" by (rule wf_index_child [OF wf A b(1,2)]) (simp add: b(3))
  have q: "(A(p \<mapsto> b)) q = Some c" using A by auto
  have sk: "0 \<le> GetSkipHeight (nHeight b)" "GetSkipHeight (nHeight b) \<le> nHeight c"
    using GetSkipHeight_bounds [of "nHeight b"] b(2) c by simp_all
  obtain r where r: "ancestor_at A q (GetSkipHeight (nHeight b)) = Some r"
    using ancestor_at_Some [OF wf A(2) sk] by auto
  then have "GetAncestor (A(p \<mapsto> b)) q (GetSkipHeight (nHeight b)) = Some (Some r)"
    unfolding GetAncestor_correct [OF wf' q] by (simp only: ancestor_at_extend [of A p q _ r b] A(1))
  then show ?thesis by (simp add: BuildSkip_def b(1) r)
qed

text \<open>
  The invariant of the state: the tree is well-formed, the hash map and the hashes of the blocks are
  inverse to each other, work and greatest time are the sums along the chain, and the best header
  has the most work.
\<close>

definition wf_sums :: "arena \<Rightarrow> CBlockIndex \<Rightarrow> bool" where
  "wf_sums A b \<longleftrightarrow>
     wf_uint (nChainWork b) \<and>
     (case pprev b of
        None \<Rightarrow> nTimeMax b = nTime b \<and> uval (nChainWork b) = block_proof (nBits b)
      | Some q \<Rightarrow> \<exists>c. A q = Some c \<and> nTimeMax b = max (nTimeMax c) (nTime b) \<and>
          uval (nChainWork b) = (uval (nChainWork c) + block_proof (nBits b)) mod M256)"

definition best_header :: "arena \<Rightarrow> ptr option \<Rightarrow> bool" where
  "best_header A best \<longleftrightarrow>
     (case best of
        None \<Rightarrow> A = Map.empty
      | Some m \<Rightarrow> \<exists>c. A m = Some c \<and> (\<forall>p b. A p = Some b \<longrightarrow> uval (nChainWork b) \<le> uval (nChainWork c)))"

definition wf_blockmap :: "BlockMap \<Rightarrow> bool" where
  "wf_blockmap S \<longleftrightarrow>
     wf_index (blockArena S) \<and>
     (\<forall>p \<ge> nextPtr S. blockArena S p = None) \<and>
     (\<forall>h p. mapBlockIndex S h = Some p \<longleftrightarrow> (\<exists>b. blockArena S p = Some b \<and> phashBlock b = Some h)) \<and>
     (\<forall>p b. blockArena S p = Some b \<longrightarrow> wf_sums (blockArena S) b \<and> phashBlock b \<noteq> None) \<and>
     best_header (blockArena S) (pindexBestHeader S)"

lemma wf_sums_extend:
  "A p = None \<Longrightarrow> wf_sums A b \<Longrightarrow> wf_sums (A(p \<mapsto> c)) b"
  by (auto simp: wf_sums_def split: option.splits)

lemma update_best_correct:
  assumes best: "best_header A best" and A: "A p = None"
    and wfA: "\<forall>q c. A q = Some c \<longrightarrow> wf_uint (nChainWork c)" and b: "wf_uint (nChainWork b)"
  shows "\<exists>m. update_best (A(p \<mapsto> b)) p b best = Some m \<and> best_header (A(p \<mapsto> b)) m"
proof (cases best)
  case None
  then show ?thesis using best by (auto simp: update_best_def best_header_def)
next
  case (Some m)
  then obtain c where c: "A m = Some c" "\<forall>q d. A q = Some d \<longrightarrow> uval (nChainWork d) \<le> uval (nChainWork c)"
    using best by (auto simp: best_header_def)
  then have m: "(A(p \<mapsto> b)) m = Some c" using A by auto
  have "wf_uint (nChainWork c)" using wfA c(1) by blast
  then show ?thesis
    unfolding update_best_def Some option.case m bind.bind_lunit using c m b
    by (auto simp: best_header_def intro: order_trans [OF _ less_imp_le])
qed

lemma sum_up_correct:
  assumes "case pprev b of None \<Rightarrow> True | Some q \<Rightarrow> \<exists>c. A q = Some c \<and> wf_uint (nChainWork c)"
  shows "\<exists>t w. sum_up A b = Some (b\<lparr>nTimeMax := t, nChainWork := w\<rparr>) \<and>
    wf_sums A (b\<lparr>nTimeMax := t, nChainWork := w\<rparr>)"
proof -
  obtain w where w: "GetBlockProof b = Some w" "wf_uint w" "uval w = block_proof (nBits b)"
    using uval_GetBlockProof by blast
  have "block_proof (nBits b) mod M256 = block_proof (nBits b)"
    using uval_bounds [OF w(2)] limbs_val_nonneg [of w] by (simp add: w(3) mod_pos_pos_trivial)
  note w = w this
  show ?thesis
  proof (cases "pprev b")
    case None
    then show ?thesis
      using w by (intro exI [of _ "nTime b"] exI [of _ "base_add base_uint_zero w"])
        (simp add: sum_up_def wf_sums_def uval_add)
  next
    case (Some q)
    then obtain c where "A q = Some c" "wf_uint (nChainWork c)" using assms by auto
    then show ?thesis
      using w Some by (intro exI [of _ "max (nTimeMax c) (nTime b)"] exI [of _ "base_add (nChainWork c) w"])
        (simp add: sum_up_def wf_sums_def uval_add)
  qed
qed

lemma RaiseValidity_tree:
  "\<exists>r n. RaiseValidity BLOCK_VALID_TREE b = Some (r, b\<lparr>nStatus := n\<rparr>)"
proof -
  have "BLOCK_VALID_TREE AND NOT BLOCK_VALID_MASK = 0" by code_simp
  moreover have "b = b\<lparr>nStatus := nStatus b\<rparr>" by simp
  ultimately show ?thesis unfolding RaiseValidity_def by (metis (no_types))
qed

text \<open>
  \<open>linked\<close>: the block that \<open>AddToBlockIndex\<close> has built, up to the fields the tree does not depend on.
\<close>

definition linked :: "arena \<Rightarrow> (bytes \<rightharpoonup> ptr) \<Rightarrow> bytes \<Rightarrow> CBlockHeader \<Rightarrow> CBlockIndex \<Rightarrow> bool" where
  "linked A mi hash block b \<longleftrightarrow>
     phashBlock b = Some hash \<and> nBits b = bh_nBits block \<and> nTime b = bh_nTime block \<and>
     (case mi (bh_hashPrevBlock block) of
        None \<Rightarrow> pprev b = None \<and> pskip b = None \<and> nHeight b = sint (bh_nHeight block)
      | Some q \<Rightarrow> \<exists>c. A q = Some c \<and> pprev b = Some q \<and> nHeight b = nHeight c + 1 \<and>
          ancestor_at A q (GetSkipHeight (nHeight b)) = pskip b)"

lemma link_prev_correct:
  assumes wf: "wf_index A" and A: "A p = None" and mi: "\<forall>h q. mi h = Some q \<longrightarrow> A q \<noteq> None"
    and hash: "hash \<noteq> bh_hashPrevBlock block"
  defines "b0 \<equiv> (CBlockIndex_of_header block)\<lparr>nSequenceId := 0, phashBlock := Some hash\<rparr>"
  shows "\<exists>b. link_prev block (mi(hash \<mapsto> p)) (A(p \<mapsto> b0)) p b0 = Some b \<and> linked A mi hash block b"
proof (cases "mi (bh_hashPrevBlock block)")
  case None
  then show ?thesis
    using hash by (auto simp: link_prev_def linked_def b0_def CBlockIndex_of_header_def CBlockIndex_SetNull_def)
next
  case (Some q)
  then obtain c where c: "A q = Some c" using mi by fastforce
  then have qp: "q \<noteq> p" using A by auto
  let ?b = "b0\<lparr>pprev := Some q, nHeight := nHeight c + 1\<rparr>"
  have "BuildSkip (A(p \<mapsto> ?b)) ?b = Some (?b\<lparr>pskip := ancestor_at A q (GetSkipHeight (nHeight ?b))\<rparr>)"
    by (rule BuildSkip_correct [OF wf A c])
       (simp_all add: b0_def CBlockIndex_of_header_def CBlockIndex_SetNull_def)
  then show ?thesis
    using hash Some c qp
    by (auto simp: link_prev_def linked_def b0_def CBlockIndex_of_header_def CBlockIndex_SetNull_def Let_def)
qed

lemma linked_wf:
  assumes wf: "wf_index A" and A: "A p = None" and b: "linked A mi hash block b"
    and root: "mi (bh_hashPrevBlock block) = None \<Longrightarrow> bh_nHeight block = 0"
  shows "wf_index (A(p \<mapsto> b))"
proof (cases "mi (bh_hashPrevBlock block)")
  case None
  then show ?thesis
    using b root by (intro wf_index_root [OF wf A]) (auto simp: linked_def)
next
  case (Some q)
  then show ?thesis
    using b wf_index_child [OF wf A, of q _ b] by (auto simp: linked_def)
qed

lemma linked_update [simp]:
  "linked A mi hash block (b\<lparr>nTimeMax := t, nChainWork := w\<rparr>) = linked A mi hash block b"
  "linked A mi hash block (b\<lparr>nStatus := n\<rparr>) = linked A mi hash block b"
  by (simp_all add: linked_def split: option.split)

lemma wf_sums_update [simp]: "wf_sums A (b\<lparr>nStatus := n\<rparr>) = wf_sums A b"
  by (simp add: wf_sums_def split: option.split)

lemma wf_sums_linked:
  assumes "wf_sums (A(p \<mapsto> b0)) b" "linked A mi hash block b" "A p = None"
  shows "wf_sums A b"
  using assms by (auto simp: wf_sums_def linked_def split: option.splits if_splits)

lemma AddToBlockIndex_new:
  assumes wf: "wf_blockmap S" and new: "mapBlockIndex S hash = None" and hash: "hash \<noteq> bh_hashPrevBlock block"
  shows "\<exists>b best. AddToBlockIndex hash block S = Some (nextPtr S,
      S\<lparr>mapBlockIndex := (mapBlockIndex S)(hash \<mapsto> nextPtr S), blockArena := (blockArena S)(nextPtr S \<mapsto> b),
        nextPtr := Suc (nextPtr S), pindexBestHeader := best,
        setDirtyBlockIndex := insert (nextPtr S) (setDirtyBlockIndex S)\<rparr>) \<and>
    linked (blockArena S) (mapBlockIndex S) hash block b \<and> wf_sums (blockArena S) b \<and>
    best_header ((blockArena S)(nextPtr S \<mapsto> b)) best"
proof -
  let ?A = "blockArena S" and ?p = "nextPtr S" and ?mi = "mapBlockIndex S"
  have A: "wf_index ?A" "?A ?p = None" "\<forall>h q. ?mi h = Some q \<longrightarrow> ?A q \<noteq> None"
    "\<forall>q c. ?A q = Some c \<longrightarrow> wf_uint (nChainWork c)" "best_header ?A (pindexBestHeader S)"
    using wf by (auto simp: wf_blockmap_def wf_sums_def)
  obtain b1 where b1: "link_prev block (?mi(hash \<mapsto> ?p))
      (?A(?p \<mapsto> (CBlockIndex_of_header block)\<lparr>nSequenceId := 0, phashBlock := Some hash\<rparr>)) ?p
      ((CBlockIndex_of_header block)\<lparr>nSequenceId := 0, phashBlock := Some hash\<rparr>) = Some b1"
      "linked ?A ?mi hash block b1"
    using link_prev_correct [OF A(1-3) hash] by blast
  have prev: "case pprev b1 of None \<Rightarrow> True
      | Some q \<Rightarrow> \<exists>c. (?A(?p \<mapsto> b1)) q = Some c \<and> wf_uint (nChainWork c)"
    using b1(2) A(2,4) by (auto simp: linked_def split: option.splits)
  obtain t w where b2: "sum_up (?A(?p \<mapsto> b1)) b1 = Some (b1\<lparr>nTimeMax := t, nChainWork := w\<rparr>)"
      "wf_sums (?A(?p \<mapsto> b1)) (b1\<lparr>nTimeMax := t, nChainWork := w\<rparr>)"
    using sum_up_correct [OF prev] by blast
  obtain r n where b3: "RaiseValidity BLOCK_VALID_TREE (b1\<lparr>nTimeMax := t, nChainWork := w\<rparr>)
      = Some (r, b1\<lparr>nTimeMax := t, nChainWork := w\<rparr>\<lparr>nStatus := n\<rparr>)"
    using RaiseValidity_tree by blast
  define b where "b = b1\<lparr>nTimeMax := t, nChainWork := w\<rparr>\<lparr>nStatus := n\<rparr>"
  have b: "linked ?A ?mi hash block b" "wf_sums ?A b"
    using b1(2) wf_sums_linked [OF b2(2) _ A(2)] by (simp_all add: b_def)
  obtain best where best: "update_best (?A(?p \<mapsto> b)) ?p b (pindexBestHeader S) = Some best"
      "best_header (?A(?p \<mapsto> b)) best"
    using update_best_correct [OF A(5,2,4), of b] b(2) by (auto simp: wf_sums_def)
  have "AddToBlockIndex hash block S = Some (?p,
      S\<lparr>mapBlockIndex := ?mi(hash \<mapsto> ?p), blockArena := ?A(?p \<mapsto> b), nextPtr := Suc ?p,
        pindexBestHeader := best, setDirtyBlockIndex := insert ?p (setDirtyBlockIndex S)\<rparr>)"
    unfolding AddToBlockIndex_def new Let_def option.case b1(1)
    by (simp only: bind.bind_lunit fun_upd_upd b2(1) b3 prod.case b_def [symmetric] best(1))
  with b best(2) show ?thesis by blast
qed

lemma wf_blockmap_AddToBlockIndex:
  assumes wf: "wf_blockmap S" and hash: "hash \<noteq> bh_hashPrevBlock block"
    and root: "mapBlockIndex S (bh_hashPrevBlock block) = None \<Longrightarrow> bh_nHeight block = 0"
  shows "\<exists>p S'. AddToBlockIndex hash block S = Some (p, S') \<and> wf_blockmap S' \<and>
    mapBlockIndex S' = (mapBlockIndex S)(hash \<mapsto> p) \<and> blockArena S \<subseteq>\<^sub>m blockArena S'"
proof (cases "mapBlockIndex S hash")
  case (Some p)
  then show ?thesis using wf by (auto simp: AddToBlockIndex_def fun_upd_idem)
next
  case None
  let ?A = "blockArena S" and ?p = "nextPtr S"
  obtain b best where add: "AddToBlockIndex hash block S = Some (?p,
      S\<lparr>mapBlockIndex := (mapBlockIndex S)(hash \<mapsto> ?p), blockArena := ?A(?p \<mapsto> b),
        nextPtr := Suc ?p, pindexBestHeader := best,
        setDirtyBlockIndex := insert ?p (setDirtyBlockIndex S)\<rparr>)" (is "_ = Some (_, ?S)")
    and b: "linked ?A (mapBlockIndex S) hash block b" "wf_sums ?A b" "best_header (?A(?p \<mapsto> b)) best"
    using AddToBlockIndex_new [OF wf None hash] by blast
  have p: "?A ?p = None" using wf by (simp add: wf_blockmap_def)
  have "wf_index (?A(?p \<mapsto> b))"
    using linked_wf [OF _ p b(1) root] wf by (simp add: wf_blockmap_def)
  moreover have "wf_sums (?A(?p \<mapsto> b)) c" if "wf_sums ?A c" for c
    by (rule wf_sums_extend [OF p that])
  moreover have "phashBlock c \<noteq> Some hash" if "?A q = Some c" for q c
    using wf None that unfolding wf_blockmap_def by (metis option.distinct(1))
  moreover have "phashBlock b = Some hash" using b(1) by (simp add: linked_def)
  ultimately have "wf_blockmap ?S"
    using wf None p b(2,3) unfolding wf_blockmap_def by auto
  with add p show ?thesis by (auto simp: map_le_def)
qed

section \<open>Reachable states\<close>

definition empty_blockmap :: BlockMap where
  "empty_blockmap = \<lparr>mapBlockIndex = Map.empty, blockArena = Map.empty, nextPtr = 0,
     pindexBestHeader = None, setDirtyBlockIndex = {}\<rparr>"

text \<open>
  A header is accepted when its predecessor is known; the genesis header has height 0
  (\<open>AcceptBlockHeader\<close> rejects every other header with an unknown predecessor).  The hash of a header
  is the value of the function \<open>hash_of\<close>.
\<close>

inductive reachable_blockmap :: "(CBlockHeader \<Rightarrow> bytes) \<Rightarrow> BlockMap \<Rightarrow> bool" for hash_of where
  empty: "reachable_blockmap hash_of empty_blockmap"
| add: "reachable_blockmap hash_of S \<Longrightarrow> hash_of block \<noteq> bh_hashPrevBlock block \<Longrightarrow>
    mapBlockIndex S (bh_hashPrevBlock block) \<noteq> None \<or> bh_nHeight block = 0 \<Longrightarrow>
    AddToBlockIndex (hash_of block) block S = Some (p, S') \<Longrightarrow> reachable_blockmap hash_of S'"

lemma reachable_wf_blockmap: "reachable_blockmap hash_of S \<Longrightarrow> wf_blockmap S"
proof (induction rule: reachable_blockmap.induct)
  case empty
  then show ?case
    by (simp add: empty_blockmap_def wf_blockmap_def wf_index_def best_header_def)
next
  case (add S block p S')
  then show ?case
    using wf_blockmap_AddToBlockIndex [OF add.IH add.hyps(2)] by fastforce
qed

lemma reachable_AddToBlockIndex:
  assumes "reachable_blockmap hash_of S" "hash_of block \<noteq> bh_hashPrevBlock block"
    "mapBlockIndex S (bh_hashPrevBlock block) \<noteq> None \<or> bh_nHeight block = 0"
  shows "reachable_blockmap hash_of (snd (the (AddToBlockIndex (hash_of block) block S)))"
proof -
  obtain p S' where "AddToBlockIndex (hash_of block) block S = Some (p, S')"
    using wf_blockmap_AddToBlockIndex [OF reachable_wf_blockmap [OF assms(1)] assms(2)] assms(3) by blast
  then show ?thesis using reachable_blockmap.add [OF assms] by simp
qed

text \<open>
  A concrete tree: a genesis block and two blocks on it.  The hash
  of a header is read off its Merkle root.
\<close>

definition sample_header :: "uint8 \<Rightarrow> uint8 \<Rightarrow> uint32 \<Rightarrow> CBlockHeader" where
  "sample_header prev own t =
     CBlockHeader_SetNull\<lparr>bh_hashPrevBlock := [prev], bh_hashMerkleRoot := [own], bh_nTime := t,
       bh_nBits := 0x207fffff\<rparr>"

definition sample_add :: "BlockMap \<Rightarrow> CBlockHeader \<Rightarrow> BlockMap" where
  "sample_add S block = snd (the (AddToBlockIndex (bh_hashMerkleRoot block) block S))"

definition sample_headers :: "CBlockHeader list" where
  "sample_headers =
     [sample_header 0 1 100, sample_header 1 2 160, sample_header 2 3 170]"

definition sample_tree :: BlockMap where
  "sample_tree = foldl sample_add empty_blockmap sample_headers"

lemma sample_add_reachable:
  "reachable_blockmap bh_hashMerkleRoot S \<Longrightarrow>
   list_all (\<lambda>h. bh_hashMerkleRoot h \<noteq> bh_hashPrevBlock h \<and> bh_nHeight h = 0) hs \<Longrightarrow>
   reachable_blockmap bh_hashMerkleRoot (foldl sample_add S hs)"
  by (induction hs arbitrary: S) (simp_all add: sample_add_def reachable_AddToBlockIndex)

lemma sample_tree_reachable: "reachable_blockmap bh_hashMerkleRoot sample_tree"
  unfolding sample_tree_def
  by (rule sample_add_reachable [OF reachable_blockmap.empty])
    (simp add: sample_headers_def sample_header_def CBlockHeader_SetNull_def)

definition sample_view ::
    "BlockMap \<Rightarrow> ptr option \<times> (ptr option \<times> int \<times> int) option \<times> int option \<times> int option \<times> ptr option" where
  "sample_view S =
     (ancestor_at (blockArena S) 2 0,
      map_option (\<lambda>b. (pprev b, nHeight b, GetBlockTime b)) (blockArena S 2),
      GetMedianTimePast (blockArena S) 1, GetMedianTimePast (blockArena S) 2, pindexBestHeader S)"

lemma sample_tree_view:
  "sample_view sample_tree = (Some 0, Some (Some 1, 2, 170), Some 160, Some 160, Some 2)"
  by code_simp

lemma sample_tree_facts:
  "ancestor_at (blockArena sample_tree) 2 0 = Some 0"
  "map_option (\<lambda>b. (pprev b, nHeight b, GetBlockTime b)) (blockArena sample_tree 2) = Some (Some 1, 2, 170)"
  "GetMedianTimePast (blockArena sample_tree) 1 = Some 160"
  "GetMedianTimePast (blockArena sample_tree) 2 = Some 160"
  "pindexBestHeader sample_tree = Some 2"
  using sample_tree_view unfolding sample_view_def by (simp_all only: prod.inject)

section \<open>Properties\<close>

text \<open>
  C5. Skip list.  In every block tree \<open>AddToBlockIndex\<close> can build, \<open>CBlockIndex::GetAncestor\<close> returns
  for every block and every height (its loop ends, none of its assertions fails, no null pointer is
  followed), and what it returns is the block reached by following \<open>pprev\<close> one step at a time:
  \<open>nullptr\<close> exactly when the height is negative or above the block, otherwise a block of the height
  asked for.
\<close>

theorem skip_list_finds_ancestor:
  assumes "reachable_blockmap hash_of S" "blockArena S p = Some b"
  shows "GetAncestor (blockArena S) p h = Some (ancestor_at (blockArena S) p h) \<and>
    (ancestor_at (blockArena S) p h = None \<longleftrightarrow> h < 0 \<or> h > nHeight b) \<and>
    (\<forall>q. ancestor_at (blockArena S) p h = Some q \<longrightarrow>
       nth_prev (blockArena S) (nat (nHeight b - h)) p = Some q \<and>
       map_option nHeight (blockArena S q) = Some h)"
proof -
  have wf: "wf_index (blockArena S)"
    using reachable_wf_blockmap [OF assms(1)] by (simp add: wf_blockmap_def)
  show ?thesis
    using GetAncestor_correct [OF wf assms(2)] ancestor_at_Some [OF wf assms(2), of h] assms(2)
    by (auto simp: ancestor_at_def)
qed

theorem skip_list_finds_ancestor_witness:
  "reachable_blockmap bh_hashMerkleRoot sample_tree \<and> blockArena sample_tree 2 \<noteq> None \<and>
   GetAncestor (blockArena sample_tree) 2 0 = Some (Some 0)"
proof -
  obtain b where b: "blockArena sample_tree 2 = Some b" using sample_tree_facts(2) by auto
  show ?thesis
    using skip_list_finds_ancestor [OF sample_tree_reachable b, of 0] b sample_tree_reachable
      sample_tree_facts(1) by simp
qed



text \<open>
  Median time.  In every reachable tree \<open>GetMedianTimePast\<close> returns, and when the time of a block
  is not below the median time of its predecessor (the rule \<open>ContextualCheckBlockHeader\<close> enforces),
  the median time of the block is not below the median time of its predecessor: the clock that
  lock times are compared with never runs backwards.
\<close>

theorem median_time_past_monotone:
  assumes "reachable_blockmap hash_of S" "blockArena S p = Some b" "pprev b = Some q"
  shows "\<exists>m m'. GetMedianTimePast (blockArena S) q = Some m \<and>
    GetMedianTimePast (blockArena S) p = Some m' \<and> (m \<le> GetBlockTime b \<longrightarrow> m \<le> m')"
proof -
  have wf: "wf_index (blockArena S)"
    using reachable_wf_blockmap [OF assms(1)] by (simp add: wf_blockmap_def)
  obtain c where c: "blockArena S q = Some c" using wf_index_pprev_Some [OF wf assms(2,3)] by blast
  obtain m m' where m: "GetMedianTimePast (blockArena S) q = Some m"
      "GetMedianTimePast (blockArena S) p = Some m'"
    using GetMedianTimePast_total [OF wf c] GetMedianTimePast_total [OF wf assms(2)] by blast
  then show ?thesis using GetMedianTimePast_mono [OF wf assms(2,3) m(1)] by auto
qed

theorem median_time_past_monotone_witness:
  "reachable_blockmap bh_hashMerkleRoot sample_tree \<and>
   map_option (\<lambda>b. (pprev b, GetBlockTime b)) (blockArena sample_tree 2) = Some (Some 1, 170) \<and>
   (\<exists>m m'. GetMedianTimePast (blockArena sample_tree) 1 = Some m \<and>
      GetMedianTimePast (blockArena sample_tree) 2 = Some m' \<and> m = 160 \<and> m \<le> m')"
proof -
  obtain b where b: "blockArena sample_tree 2 = Some b" "pprev b = Some 1" "GetBlockTime b = 170"
    using sample_tree_facts(2) by auto
  show ?thesis
    using median_time_past_monotone [OF sample_tree_reachable b(1,2)] sample_tree_reachable b
      sample_tree_facts(3) by auto
qed

text \<open>
  Work of a block.  \<open>GetBlockProof\<close> always returns, without overflow or division by zero; its
  value is the integer quotient of 2^256 by the target plus one, and 0 when \<open>nBits\<close> is negative,
  overflows or encodes 0.
\<close>

theorem block_proof_is_expected_hashes:
  "\<exists>w. GetBlockProof b = Some w \<and> wf_uint w \<and>
     uval w = (let (t, fNegative, fOverflow) = SetCompact (nBits b)
               in if fNegative \<or> fOverflow \<or> uval t = 0 then 0 else 2 ^ 256 div (uval t + 1))"
  using uval_GetBlockProof [of b] by (auto simp: block_proof_def target_of_def split: prod.splits)

text \<open>
  Time of a difference of work.  When the product of the difference of work and the block spacing
  fits in 256 bits and the tip has work, \<open>GetBlockProofEquivalentTime\<close> returns the quotient by the
  work of the tip, with the sign of the difference, cut off at the greatest 64-bit integer.
\<close>

theorem block_proof_equivalent_time_value:
  assumes wf: "wf_uint (nChainWork to)" "wf_uint (nChainWork from)"
    and spacing: "0 \<le> spacing" "spacing < 2 ^ 63"
    and tip: "block_proof (nBits tip) \<noteq> 0"
    and fits: "abs (uval (nChainWork to) - uval (nChainWork from)) * spacing < 2 ^ 256"
  shows "GetBlockProofEquivalentTime to from tip spacing =
    Some ((if uval (nChainWork to) > uval (nChainWork from) then 1 else - 1) *
      min (abs (uval (nChainWork to) - uval (nChainWork from)) * spacing div block_proof (nBits tip)) (2 ^ 63 - 1))"
proof -
  let ?pos = "uval (nChainWork to) > uval (nChainWork from)"
  define r where "r = (if ?pos then base_sub (nChainWork to) (nChainWork from)
                       else base_sub (nChainWork from) (nChainWork to))"
  define sign :: int where "sign = (if ?pos then 1 else - 1)"
  have r: "wf_uint r" "uval r = abs (uval (nChainWork to) - uval (nChainWork from))"
    using wf by (auto simp: r_def uval_sub_le)
  have sp: "uint (word_of_int spacing :: uint64) = spacing"
    using spacing by (simp add: uint_word_of_int mod_pos_pos_trivial)
  obtain w where w: "GetBlockProof tip = Some w" "wf_uint w" "uval w = block_proof (nBits tip)"
    using uval_GetBlockProof by blast
  have mul: "uval (base_mul r (base_uint_of_u64 (word_of_int spacing))) = uval r * spacing"
    using fits spacing(1) by (simp add: uval_mul r sp mod_pos_pos_trivial)
  obtain q where q: "base_div (base_mul r (base_uint_of_u64 (word_of_int spacing))) w = Some q"
      "wf_uint q" "uval q = uval r * spacing div block_proof (nBits tip)"
    using base_div_correct(2) [of "base_mul r (base_uint_of_u64 (word_of_int spacing))" w] w tip r(1)
    by (auto simp: mul)
  have q0: "0 \<le> uval q" by (rule limbs_val_nonneg)
  have big: "base_bits q > 63 \<longleftrightarrow> 2 ^ 63 \<le> uval q"
    using base_bits_less_iff [OF q(2), of 63] by (simp add: not_le [symmetric])
  have res: "GetBlockProofEquivalentTime to from tip spacing =
      (if base_bits q > 63 then Some (sign * INT64_MAX)
       else Some (sint (word_of_int sign * GetLow64 q :: uint64)))"
    using wf w(1) q(1) by (auto simp: GetBlockProofEquivalentTime_def r_def sign_def)
  have low: "sint (word_of_int sign * GetLow64 q :: uint64) = sign * uval q" if "uval q < 2 ^ 63"
  proof -
    have "GetLow64 q = word_of_int (uval q)"
      using uint_GetLow64 [OF q(2)] that q0 by (simp add: word_uint_eq_iff uint_word_of_int)
    then have "word_of_int sign * GetLow64 q = (word_of_int (sign * uval q) :: uint64)"
      by simp
    moreover have "sign * uval q = uval q \<or> sign * uval q = - uval q" by (simp add: sign_def)
    then have "- (2 ^ 63) \<le> sign * uval q" "sign * uval q < 2 ^ 63" using that q0 by linarith+
    then have "signed_take_bit 63 (sign * uval q) = sign * uval q" by (rule signed_take_bit_int_eq_self)
    ultimately show ?thesis by (simp add: sint_sbintrunc' del: of_int_mult)
  qed
  show ?thesis
    using res big low q(3) r(2) by (auto simp: sign_def INT64_MAX_def min_def not_le)
qed

theorem block_proof_equivalent_time_value_witness:
  "GetBlockProofEquivalentTime (CBlockIndex_SetNull\<lparr>nChainWork := base_uint_of_u64 900\<rparr>)
     (CBlockIndex_SetNull\<lparr>nChainWork := base_uint_of_u64 1000\<rparr>)
     (CBlockIndex_SetNull\<lparr>nBits := 0x207fffff\<rparr>) 15 = Some (- 750)"
proof -
  have "block_proof 0x207fffff = 2" by code_simp
  then show ?thesis
    using block_proof_equivalent_time_value
      [of "CBlockIndex_SetNull\<lparr>nChainWork := base_uint_of_u64 900\<rparr>"
        "CBlockIndex_SetNull\<lparr>nChainWork := base_uint_of_u64 1000\<rparr>" 15
        "CBlockIndex_SetNull\<lparr>nBits := 0x207fffff\<rparr>"]
    by simp
qed

end
