(* ===== verification/Chain.thy ===== *)
theory Chain
  imports BlockIndex
begin

text \<open>
  The active chain, \<open>CChain\<close> of src/src/chain.h and src/src/chain.cpp: a vector of pointers indexed by
  height, with \<open>SetTip\<close>, \<open>FindFork\<close>, \<open>GetLocator\<close> and \<open>FindEarliestAtLeast\<close>, and
  \<open>LastCommonAncestor\<close> of two blocks.  The arena of the block index is an argument of every
  operation that follows a pointer; a result \<^const>\<open>None\<close> at the outer level is an invalid access,
  a failed assertion or a loop that does not end.
\<close>

section \<open>The vector\<close>

record CChain =
  vChain :: "ptr option list"

definition Genesis :: "CChain \<Rightarrow> ptr option" where
  "Genesis c = (if length (vChain c) > 0 then vChain c ! 0 else None)"

definition Tip :: "CChain \<Rightarrow> ptr option" where
  "Tip c = (if length (vChain c) > 0 then vChain c ! (length (vChain c) - 1) else None)"

definition chain_at :: "CChain \<Rightarrow> int \<Rightarrow> ptr option" where
  "chain_at c h = (if h < 0 \<or> h \<ge> int (length (vChain c)) then None else vChain c ! nat h)"

text \<open>The comparison reads the last element of both vectors, which is invalid for two empty chains.\<close>

definition chain_eq :: "CChain \<Rightarrow> CChain \<Rightarrow> bool option" where
  "chain_eq a b =
     (if length (vChain a) \<noteq> length (vChain b) then Some False
      else if length (vChain a) = 0 then None
      else Some (vChain a ! (length (vChain a) - 1) = vChain b ! (length (vChain b) - 1)))"

definition Contains :: "arena \<Rightarrow> CChain \<Rightarrow> ptr \<Rightarrow> bool option" where
  "Contains A c p = do { b \<leftarrow> A p; Some (chain_at c (nHeight b) = Some p) }"

definition Next :: "arena \<Rightarrow> CChain \<Rightarrow> ptr \<Rightarrow> ptr option option" where
  "Next A c p =
     do { b \<leftarrow> A p;
          present \<leftarrow> Contains A c p;
          Some (if present then chain_at c (nHeight b + 1) else None) }"

definition Height :: "CChain \<Rightarrow> int" where
  "Height c = int (length (vChain c)) - 1"

section \<open>Setting the tip\<close>

definition resize :: "nat \<Rightarrow> 'a \<Rightarrow> 'a list \<Rightarrow> 'a list" where
  "resize n x xs = take n xs @ replicate (n - length xs) x"

partial_function (option) SetTip_loop :: "arena \<Rightarrow> ptr option list \<Rightarrow> ptr option \<Rightarrow> ptr option list option" where
  "SetTip_loop A v pindex =
     (case pindex of
        None \<Rightarrow> Some v
      | Some p \<Rightarrow>
          do { b \<leftarrow> A p;
               if nHeight b < 0 \<or> nHeight b \<ge> int (length v) then None
               else if v ! nat (nHeight b) \<noteq> Some p
               then SetTip_loop A (v[nat (nHeight b) := Some p]) (pprev b)
               else Some v })"

declare SetTip_loop.simps [code]

definition SetTip :: "arena \<Rightarrow> ptr option \<Rightarrow> CChain \<Rightarrow> CChain option" where
  "SetTip A pindex c =
     (case pindex of
        None \<Rightarrow> Some (c\<lparr>vChain := []\<rparr>)
      | Some p \<Rightarrow>
          do { b \<leftarrow> A p;
               if nHeight b + 1 < 0 then None
               else do { v \<leftarrow> SetTip_loop A (resize (nat (nHeight b + 1)) None (vChain c)) (Some p);
                         Some (c\<lparr>vChain := v\<rparr>) } })"

section \<open>Queries that walk the tree\<close>

partial_function (option) GetLocator_loop ::
    "arena \<Rightarrow> CChain \<Rightarrow> bytes list \<Rightarrow> int \<Rightarrow> ptr option \<Rightarrow> bytes list option" where
  "GetLocator_loop A c vHave nStep pindex =
     (case pindex of
        None \<Rightarrow> Some vHave
      | Some p \<Rightarrow>
          do { b \<leftarrow> A p;
               hash \<leftarrow> GetBlockHash b;
               let vHave = vHave @ [hash]
               in if nHeight b = 0 then Some vHave
                  else let h = max (nHeight b - nStep) 0
                       in do { present \<leftarrow> Contains A c p;
                               pindex \<leftarrow> (if present then Some (chain_at c h) else GetAncestor A p h);
                               GetLocator_loop A c vHave
                                 (if length vHave > 10 then nStep * 2 else nStep) pindex } })"

declare GetLocator_loop.simps [code]

definition GetLocator :: "arena \<Rightarrow> CChain \<Rightarrow> ptr option \<Rightarrow> bytes list option" where
  "GetLocator A c pindex =
     GetLocator_loop A c [] 1 (case pindex of None \<Rightarrow> Tip c | Some p \<Rightarrow> Some p)"

partial_function (option) FindFork_loop :: "arena \<Rightarrow> CChain \<Rightarrow> ptr option \<Rightarrow> ptr option option" where
  "FindFork_loop A c pindex =
     (case pindex of
        None \<Rightarrow> Some None
      | Some p \<Rightarrow>
          do { present \<leftarrow> Contains A c p;
               if \<not> present then do { b \<leftarrow> A p; FindFork_loop A c (pprev b) } else Some (Some p) })"

declare FindFork_loop.simps [code]

definition FindFork :: "arena \<Rightarrow> CChain \<Rightarrow> ptr option \<Rightarrow> ptr option option" where
  "FindFork A c pindex =
     (case pindex of
        None \<Rightarrow> Some None
      | Some p \<Rightarrow>
          do { b \<leftarrow> A p;
               pindex \<leftarrow> (if nHeight b > Height c then GetAncestor A p (Height c) else Some (Some p));
               FindFork_loop A c pindex })"

text \<open>
  \<open>std::lower_bound\<close>: the first position of the range at which the predicate fails, by bisection.
  The predicate is \<^const>\<open>None\<close> where it dereferences an invalid pointer.
\<close>

function lower_bound_loop :: "(nat \<Rightarrow> bool option) \<Rightarrow> nat \<Rightarrow> nat \<Rightarrow> nat option" where
  "lower_bound_loop cmp first len =
     (if len > 0
      then let half = len div 2; middle = first + half
           in case cmp middle of
                None \<Rightarrow> None
              | Some lt \<Rightarrow>
                  if lt then lower_bound_loop cmp (middle + 1) (len - half - 1)
                  else lower_bound_loop cmp first half
      else Some first)"
  by pat_completeness auto
termination by (relation "measure (\<lambda>(_, _, len). len)") auto

declare lower_bound_loop.simps [simp del]

definition FindEarliestAtLeast :: "arena \<Rightarrow> CChain \<Rightarrow> int \<Rightarrow> ptr option option" where
  "FindEarliestAtLeast A c t =
     do { lower \<leftarrow> lower_bound_loop
            (\<lambda>i. do { p \<leftarrow> vChain c ! i; b \<leftarrow> A p; Some (GetBlockTimeMax b < t) }) 0 (length (vChain c));
          Some (if lower = length (vChain c) then None else vChain c ! lower) }"

partial_function (option) LastCommonAncestor_loop ::
    "arena \<Rightarrow> ptr option \<Rightarrow> ptr option \<Rightarrow> (ptr option \<times> ptr option) option" where
  "LastCommonAncestor_loop A pa pb =
     (if pa \<noteq> pb \<and> pa \<noteq> None \<and> pb \<noteq> None
      then do { a \<leftarrow> A (the pa); b \<leftarrow> A (the pb); LastCommonAncestor_loop A (pprev a) (pprev b) }
      else Some (pa, pb))"

declare LastCommonAncestor_loop.simps [code]

definition LastCommonAncestor :: "arena \<Rightarrow> ptr \<Rightarrow> ptr \<Rightarrow> ptr option option" where
  "LastCommonAncestor A pa pb =
     do { a \<leftarrow> A pa;
          b \<leftarrow> A pb;
          (pa, pb) \<leftarrow>
            (if nHeight a > nHeight b then do { x \<leftarrow> GetAncestor A pa (nHeight b); Some (x, Some pb) }
             else if nHeight b > nHeight a then do { x \<leftarrow> GetAncestor A pb (nHeight a); Some (Some pa, x) }
             else Some (Some pa, Some pb));
          (pa, pb) \<leftarrow> LastCommonAncestor_loop A pa pb;
          if pa = pb then Some pa else None }"

section \<open>Chains\<close>

text \<open>
  \<open>chain_of A p\<close>: the vector with the ancestors of \<open>p\<close> in order of height.  A vector is a chain of
  the tree when it is empty or \<open>chain_of\<close> of its last element.
\<close>

definition chain_of :: "arena \<Rightarrow> ptr \<Rightarrow> ptr option list" where
  "chain_of A p =
     (case A p of None \<Rightarrow> [] | Some b \<Rightarrow> map (\<lambda>i. ancestor_at A p (int i)) [0..<nat (nHeight b + 1)])"

definition is_chain :: "arena \<Rightarrow> CChain \<Rightarrow> bool" where
  "is_chain A c \<longleftrightarrow> vChain c = [] \<or> (\<exists>p b. A p = Some b \<and> vChain c = chain_of A p)"

lemma length_chain_of: "A p = Some b \<Longrightarrow> length (chain_of A p) = nat (nHeight b + 1)"
  by (simp add: chain_of_def)

lemma nth_chain_of:
  "A p = Some b \<Longrightarrow> i < nat (nHeight b + 1) \<Longrightarrow> chain_of A p ! i = ancestor_at A p (int i)"
  by (simp add: chain_of_def)

lemma chain_of_at:
  assumes "wf_index A" "A p = Some b"
  shows "chain_at \<lparr>vChain = chain_of A p\<rparr> h = ancestor_at A p h"
proof -
  have "0 \<le> nHeight b" by (rule wf_index_height [OF assms])
  then show ?thesis
    using assms(2) by (auto simp: chain_at_def chain_of_def ancestor_at_def)
qed

lemma chain_at_ancestor:
  "wf_index A \<Longrightarrow> is_chain A c \<Longrightarrow> vChain c \<noteq> [] \<Longrightarrow>
     \<exists>p b. A p = Some b \<and> vChain c = chain_of A p \<and> (\<forall>h. chain_at c h = ancestor_at A p h)"
  using chain_of_at by (cases c) (auto simp: is_chain_def)

text \<open>Two chains that agree at a height agree below.\<close>

lemma ancestor_at_agree:
  assumes "wf_index A" "ancestor_at A p h = Some q" "ancestor_at A p' h = Some q" "0 \<le> k" "k \<le> h"
  shows "ancestor_at A p k = ancestor_at A p' k"
  using ancestor_at_trans [OF assms(1,2,4,5)] ancestor_at_trans [OF assms(1,3,4,5)] by simp

lemma ancestor_at_height:
  "wf_index A \<Longrightarrow> ancestor_at A p h = Some q \<Longrightarrow> \<exists>c. A q = Some c \<and> nHeight c = h \<and> 0 \<le> h"
proof -
  assume "wf_index A" "ancestor_at A p h = Some q"
  moreover from this obtain b where "A p = Some b" "0 \<le> h" "h \<le> nHeight b"
    by (auto simp: ancestor_at_def split: bind_splits if_splits)
  ultimately show ?thesis using ancestor_at_Some [of A p b h] by auto
qed

lemma pprev_ancestor_at:
  assumes "wf_index A" "ancestor_at A p (int m) = Some q" "A q = Some c"
  shows "pprev c = (case m of 0 \<Rightarrow> None | Suc n \<Rightarrow> ancestor_at A p (int n))"
proof -
  have c: "nHeight c = int m" using ancestor_at_height [OF assms(1,2)] assms(3) by auto
  show ?thesis
  proof (cases m)
    case 0
    then show ?thesis using wf_index_pprev_None [OF assms(1,3)] c by simp
  next
    case (Suc n)
    then obtain r where r: "pprev c = Some r" using wf_index_pprev_None [OF assms(1,3)] c by fastforce
    then have "ancestor_at A q (int n) = Some r" using ancestor_at_pprev [OF assms(1,3)] c Suc by simp
    then show ?thesis using ancestor_at_trans [OF assms(1,2), of "int n"] Suc r by simp
  qed
qed

text \<open>
  The loop of \<open>SetTip\<close>: from position \<open>n\<close> on the vector holds the ancestors of the new tip; below, it
  still holds what it held, and where that is an ancestor of the new tip it is so all the way down.
\<close>

lemma SetTip_loop_correct:
  assumes wf: "wf_index A" and p: "A p = Some b"
  shows "n \<le> nat (nHeight b + 1) \<Longrightarrow> length v = nat (nHeight b + 1) \<Longrightarrow>
    (\<forall>i < length v. n \<le> i \<longrightarrow> v ! i = ancestor_at A p (int i)) \<Longrightarrow>
    (\<And>i j q. i < n \<Longrightarrow> v ! i = Some q \<Longrightarrow> ancestor_at A p (int i) = Some q \<Longrightarrow> j \<le> i \<Longrightarrow>
       v ! j = ancestor_at A p (int j)) \<Longrightarrow>
    SetTip_loop A v (case n of 0 \<Rightarrow> None | Suc m \<Rightarrow> ancestor_at A p (int m)) = Some (chain_of A p)"
proof (induction n arbitrary: v)
  case 0
  then have "v = chain_of A p"
    by (intro nth_equalityI) (simp_all add: length_chain_of [of A p, OF p] nth_chain_of [of A p, OF p])
  then show ?case by (subst SetTip_loop.simps) simp
next
  case (Suc m)
  have "int m \<le> nHeight b" using Suc.prems(1) by linarith
  then obtain q c where q: "ancestor_at A p (int m) = Some q" "A q = Some c" "nHeight c = int m"
    using ancestor_at_Some [OF wf p, of "int m"] by auto
  have m: "m < length v" using Suc.prems(1,2) by simp
  show ?case
  proof (cases "v ! m = Some q")
    case True
    then have "v ! j = ancestor_at A p (int j)" if "j < length v" for j
      using Suc.prems(3) Suc.prems(4) [of m q j] that q(1) by (cases "j \<le> m") auto
    then have "v = chain_of A p"
      using Suc.prems(2)
      by (intro nth_equalityI) (simp_all add: length_chain_of [of A p, OF p] nth_chain_of [of A p, OF p])
    then show ?thesis using True q m by (subst SetTip_loop.simps) simp
  next
    case False
    have "SetTip_loop A (v[m := Some q]) (case m of 0 \<Rightarrow> None | Suc n \<Rightarrow> ancestor_at A p (int n)) = Some (chain_of A p)"
    proof (rule Suc.IH)
      show "\<forall>i < length (v[m := Some q]). m \<le> i \<longrightarrow> v[m := Some q] ! i = ancestor_at A p (int i)"
        using Suc.prems(3) q(1) by (auto simp: nth_list_update)
      show "v[m := Some q] ! j = ancestor_at A p (int j)"
        if "i < m" "v[m := Some q] ! i = Some r" "ancestor_at A p (int i) = Some r" "j \<le> i" for i j r
        using Suc.prems(4) [of i r j] that by simp
    qed (use Suc.prems(1,2) in simp_all)
    then show ?thesis
      using False q m pprev_ancestor_at [OF wf q(1,2)] by (subst SetTip_loop.simps) simp
  qed
qed

lemma SetTip_correct:
  assumes wf: "wf_index A" and p: "A p = Some b" and c: "is_chain A c"
  shows "SetTip A (Some p) c = Some (c\<lparr>vChain := chain_of A p\<rparr>)"
proof -
  let ?n = "nat (nHeight b + 1)"
  let ?v = "resize ?n None (vChain c)"
  have h: "0 \<le> nHeight b" by (rule wf_index_height [OF wf p])
  have len: "length ?v = ?n" by (simp add: resize_def)
  have good: "?v ! j = ancestor_at A p (int j)"
    if i: "i < ?n" "?v ! i = Some q" "ancestor_at A p (int i) = Some q" "j \<le> i" for i j q
  proof -
    have lt: "i < length (vChain c)"
      using i(1,2) by (auto simp: resize_def nth_append split: if_splits)
    then obtain t bt where t: "A t = Some bt" "vChain c = chain_of A t" using c by (auto simp: is_chain_def)
    have eq: "?v ! k = ancestor_at A t (int k)" if "k \<le> i" for k
      using that i(1) lt t(2) length_chain_of [of A t bt] nth_chain_of [of A t bt k] t(1)
      by (simp add: resize_def nth_append)
    show ?thesis
      using ancestor_at_agree [OF wf _ i(3), of t "int j"] eq [of i] eq [of j] i(2,4) by simp
  qed
  have "ancestor_at A p (nHeight b) = Some p" using p h by (simp add: ancestor_at_self)
  moreover have "?n = Suc (nat (nHeight b))" using h by simp
  ultimately have p': "(case ?n of 0 \<Rightarrow> None | Suc m \<Rightarrow> ancestor_at A p (int m)) = Some p" using h by simp
  have "SetTip_loop A ?v (case ?n of 0 \<Rightarrow> None | Suc m \<Rightarrow> ancestor_at A p (int m)) = Some (chain_of A p)"
    by (rule SetTip_loop_correct [OF wf p order_refl len _ good]) (simp_all add: len)
  then have "SetTip_loop A ?v (Some p) = Some (chain_of A p)" unfolding p' .
  then show ?thesis using h p by (simp add: SetTip_def)
qed

section \<open>Forks\<close>

text \<open>
  \<open>last_agree f g r\<close>: \<open>r\<close> is the block of the greatest height at which the two branches \<open>f\<close> and \<open>g\<close>
  hold the same block, and \<open>nullptr\<close> if there is no such height.
\<close>

definition last_agree :: "(int \<Rightarrow> ptr option) \<Rightarrow> (int \<Rightarrow> ptr option) \<Rightarrow> ptr option \<Rightarrow> bool" where
  "last_agree f g r \<longleftrightarrow>
     (case r of
        None \<Rightarrow> \<forall>j. f j = g j \<longrightarrow> f j = None
      | Some q \<Rightarrow> \<exists>k. f k = Some q \<and> g k = Some q \<and> (\<forall>j > k. f j = g j \<longrightarrow> f j = None))"

abbreviation above_none :: "(int \<Rightarrow> ptr option) \<Rightarrow> (int \<Rightarrow> ptr option) \<Rightarrow> nat \<Rightarrow> bool" where
  "above_none f g n \<equiv> \<forall>j. int n \<le> j \<longrightarrow> f j = g j \<longrightarrow> f j = None"

abbreviation at_level :: "arena \<Rightarrow> ptr \<Rightarrow> nat \<Rightarrow> ptr option" where
  "at_level A p n \<equiv> (case n of 0 \<Rightarrow> None | Suc m \<Rightarrow> ancestor_at A p (int m))"

lemma last_agree_None:
  assumes "above_none f g 0" "\<And>j. j < 0 \<Longrightarrow> f j = None"
  shows "last_agree f g None"
proof -
  have "f j = None" if "f j = g j" for j using assms that by (cases "j < 0") auto
  then show ?thesis by (simp add: last_agree_def)
qed

lemma last_agree_Some:
  assumes "f (int m) = Some q" "g (int m) = Some q" "above_none f g (Suc m)"
  shows "last_agree f g (Some q)"
proof -
  have "f j = None" if "int m < j" "f j = g j" for j
    using assms(3) that by (metis add1_zle_eq of_nat_Suc add.commute)
  then show ?thesis using assms(1,2) by (auto simp: last_agree_def)
qed

lemma above_none_down:
  assumes "above_none f g (Suc m)" "f (int m) \<noteq> g (int m)"
  shows "above_none f g m"
proof (intro allI impI)
  fix j
  assume "int m \<le> j" "f j = g j"
  then show "f j = None" using assms by (cases "j = int m") auto
qed

lemma ancestor_at_neg: "j < 0 \<Longrightarrow> ancestor_at A p j = None"
  by (auto simp: ancestor_at_def split: bind_splits)

lemma Contains_ancestor:
  assumes "wf_index A" "ancestor_at A p h = Some q"
  shows "Contains A c q = Some (chain_at c h = Some q)"
  using ancestor_at_height [OF assms] by (auto simp: Contains_def)

lemma FindFork_loop_correct:
  assumes wf: "wf_index A" and p: "A p = Some b"
  shows "int n \<le> nHeight b + 1 \<Longrightarrow> above_none (ancestor_at A p) (chain_at c) n \<Longrightarrow>
    \<exists>r. FindFork_loop A c (at_level A p n) = Some r \<and> last_agree (ancestor_at A p) (chain_at c) r"
proof (induction n)
  case 0
  then show ?case
    using last_agree_None [OF 0(2)] ancestor_at_neg by (subst FindFork_loop.simps) simp
next
  case (Suc m)
  obtain q d where q: "ancestor_at A p (int m) = Some q" "A q = Some d"
    using ancestor_at_Some [OF wf p, of "int m"] Suc.prems(1) by auto
  note c = Contains_ancestor [OF wf q(1), of c]
  show ?case
  proof (cases "chain_at c (int m) = Some q")
    case True
    then show ?thesis
      using c last_agree_Some [OF q(1) True Suc.prems(2)] q(1) by (subst FindFork_loop.simps) simp
  next
    case False
    have "\<exists>r. FindFork_loop A c (at_level A p m) = Some r \<and> last_agree (ancestor_at A p) (chain_at c) r"
      using above_none_down [OF Suc.prems(2)] False q(1) Suc.prems(1) by (intro Suc.IH) auto
    then show ?thesis
      using c False q pprev_ancestor_at [OF wf q] by (subst FindFork_loop.simps) simp
  qed
qed

lemma at_level_height: "0 \<le> h \<Longrightarrow> at_level A p (nat (h + 1)) = ancestor_at A p h"
  by (simp add: nat_add_distrib)

lemma FindFork_correct:
  assumes wf: "wf_index A" and p: "A p = Some b"
  shows "\<exists>r. FindFork A c (Some p) = Some r \<and> last_agree (ancestor_at A p) (chain_at c) r"
proof -
  have h: "0 \<le> nHeight b" by (rule wf_index_height [OF wf p])
  define n where "n = nat (min (nHeight b) (Height c) + 1)"
  have n: "int n \<le> nHeight b + 1" using h by (simp add: n_def)
  have "above_none (ancestor_at A p) (chain_at c) n"
  proof (intro allI impI)
    fix j
    assume "int n \<le> j" "ancestor_at A p j = chain_at c j"
    then show "ancestor_at A p j = None"
      using p by (auto simp: n_def Height_def chain_at_def ancestor_at_def min_def split: if_splits)
  qed
  moreover have "FindFork A c (Some p) = FindFork_loop A c (at_level A p n)"
  proof (cases "nHeight b > Height c")
    case True
    then have "at_level A p n = ancestor_at A p (Height c)"
      using at_level_height [of "Height c" A p] ancestor_at_neg [of "Height c"]
      by (cases "0 \<le> Height c") (auto simp: n_def min_def Height_def)
    then show ?thesis using True p GetAncestor_correct [OF wf p, of "Height c"] by (simp add: FindFork_def)
  next
    case False
    then have "at_level A p n = Some p"
      using at_level_height [OF h, of A p] p h by (simp add: n_def min_def ancestor_at_self)
    then show ?thesis using False p by (simp add: FindFork_def)
  qed
  ultimately show ?thesis using FindFork_loop_correct [OF wf p n] by simp
qed

lemma LastCommonAncestor_loop_correct:
  assumes wf: "wf_index A" and p: "A p = Some b" and p': "A p' = Some b'"
  shows "int n \<le> nHeight b + 1 \<Longrightarrow> int n \<le> nHeight b' + 1 \<Longrightarrow> above_none (ancestor_at A p) (ancestor_at A p') n \<Longrightarrow>
    \<exists>r. LastCommonAncestor_loop A (at_level A p n) (at_level A p' n) = Some (r, r) \<and>
      last_agree (ancestor_at A p) (ancestor_at A p') r"
proof (induction n)
  case 0
  then show ?case
    using last_agree_None [OF 0(3)] ancestor_at_neg by (subst LastCommonAncestor_loop.simps) simp
next
  case (Suc m)
  obtain q d where q: "ancestor_at A p (int m) = Some q" "A q = Some d"
    using ancestor_at_Some [OF wf p, of "int m"] Suc.prems(1) by auto
  obtain q' d' where q': "ancestor_at A p' (int m) = Some q'" "A q' = Some d'"
    using ancestor_at_Some [OF wf p', of "int m"] Suc.prems(2) by auto
  show ?case
  proof (cases "q = q'")
    case True
    then show ?thesis
      using last_agree_Some [OF q(1) _ Suc.prems(3)] q q' by (subst LastCommonAncestor_loop.simps) simp
  next
    case False
    have "\<exists>r. LastCommonAncestor_loop A (at_level A p m) (at_level A p' m) = Some (r, r) \<and>
        last_agree (ancestor_at A p) (ancestor_at A p') r"
      using above_none_down [OF Suc.prems(3)] False q(1) q'(1) Suc.prems(1,2) by (intro Suc.IH) auto
    then show ?thesis
      using False q q' pprev_ancestor_at [OF wf q] pprev_ancestor_at [OF wf q']
      by (subst LastCommonAncestor_loop.simps) simp
  qed
qed

lemma LastCommonAncestor_correct:
  assumes wf: "wf_index A" and p: "A p = Some b" and p': "A p' = Some b'"
  shows "\<exists>r. LastCommonAncestor A p p' = Some r \<and> last_agree (ancestor_at A p) (ancestor_at A p') r"
proof -
  have h: "0 \<le> nHeight b" "0 \<le> nHeight b'" using wf_index_height [OF wf] p p' by auto
  define k where "k = min (nHeight b) (nHeight b')"
  have k: "0 \<le> k" "k \<le> nHeight b" "k \<le> nHeight b'" using h by (auto simp: k_def)
  have self: "ancestor_at A p (nHeight b) = Some p" "ancestor_at A p' (nHeight b') = Some p'"
    using p p' h by (simp_all add: ancestor_at_self)
  have "above_none (ancestor_at A p) (ancestor_at A p') (nat (k + 1))"
    using p p' k by (auto simp: ancestor_at_def k_def min_def split: if_splits)
  then obtain r where r: "LastCommonAncestor_loop A (ancestor_at A p k) (ancestor_at A p' k) = Some (r, r)"
      "last_agree (ancestor_at A p) (ancestor_at A p') r"
    using LastCommonAncestor_loop_correct [OF wf p p', of "nat (k + 1)"] k by (auto simp: at_level_height)
  have "LastCommonAncestor A p p' =
      do { (x, y) \<leftarrow> LastCommonAncestor_loop A (ancestor_at A p k) (ancestor_at A p' k);
           if x = y then Some x else None }"
    using p p' self by (auto simp: LastCommonAncestor_def GetAncestor_correct [OF wf p] GetAncestor_correct [OF wf p'] k_def min_def)
  then show ?thesis using r by simp
qed

section \<open>Locators\<close>

text \<open>
  The heights a locator names: ten steps of one, then steps that double, down to the genesis block.
\<close>

function locator_heights :: "nat \<Rightarrow> nat \<Rightarrow> nat \<Rightarrow> nat list" where
  "locator_heights n st h =
     h # (if h = 0 then []
          else locator_heights (n + 1) (if n + 1 > 10 then st * 2 else st) (h - max 1 st))"
  by pat_completeness auto
termination by (relation "measure (\<lambda>(_, _, h). h)") auto

declare locator_heights.simps [simp del]

lemma locator_heights_hd_last:
  "hd (locator_heights n st h) = h \<and> last (locator_heights n st h) = 0 \<and> locator_heights n st h \<noteq> []"
proof (induction n st h rule: locator_heights.induct)
  case (1 n st h)
  then show ?case by (subst (1 2 3) locator_heights.simps) auto
qed

lemma locator_heights_sorted:
  "sorted_wrt (>) (locator_heights n st h) \<and> (\<forall>k \<in> set (locator_heights n st h). k \<le> h)"
proof (induction n st h rule: locator_heights.induct)
  case (1 n st h)
  show ?case
  proof (cases "h = 0")
    case False
    let ?r = "locator_heights (n + 1) (if n + 1 > 10 then st * 2 else st) (h - max 1 st)"
    have "locator_heights n st h = h # ?r" using False by (subst locator_heights.simps) simp
    moreover have "k < h" if "k \<in> set ?r" for k
    proof -
      have "k \<le> h - max 1 st" using 1 False that by blast
      also have "\<dots> < h" using False by simp
      finally show ?thesis .
    qed
    ultimately show ?thesis using 1 False by (auto intro: less_imp_le)
  qed (simp add: locator_heights.simps [of _ _ 0])
qed

lemma locator_heights_length_fast:
  "10 \<le> n \<Longrightarrow> 1 \<le> st \<Longrightarrow> h < st * 2 ^ k \<Longrightarrow> length (locator_heights n st h) \<le> k + 2"
proof (induction k arbitrary: n st h)
  case 0
  then have "h - max 1 st = 0" by simp
  then show ?case by (subst locator_heights.simps) (simp add: locator_heights.simps [of _ _ 0])
next
  case (Suc k)
  have "length (locator_heights (n + 1) (st * 2) (h - max 1 st)) \<le> k + 2"
    using Suc.prems by (intro Suc.IH) (auto simp: mult.assoc)
  then show ?case using Suc.prems by (subst locator_heights.simps) simp
qed

lemma locator_heights_length:
  "n \<le> 10 \<Longrightarrow> h < 2 ^ k \<Longrightarrow> length (locator_heights n 1 h) \<le> (10 - n) + k + 2"
proof (induction "10 - n" arbitrary: n h)
  case 0
  then show ?case using locator_heights_length_fast [of n 1 h k] by simp
next
  case (Suc m)
  show ?case
  proof (cases "h = 0")
    case True
    then show ?thesis by (subst locator_heights.simps) simp
  next
    case False
    have "length (locator_heights (n + 1) 1 (h - 1)) \<le> (10 - (n + 1)) + k + 2"
      using Suc False by (intro Suc.hyps(1)) auto
    moreover have "n < 10" using Suc.hyps(2) by simp
    ultimately show ?thesis using False by (subst locator_heights.simps) simp
  qed
qed

definition hash_at :: "arena \<Rightarrow> ptr \<Rightarrow> nat \<Rightarrow> bytes" where
  "hash_at A p h = the (phashBlock (the (A (the (ancestor_at A p (int h))))))"

lemma GetLocator_loop_correct:
  assumes wf: "wf_index A" and hashed: "\<And>q c. A q = Some c \<Longrightarrow> phashBlock c \<noteq> None" and c: "is_chain A c"
  shows "A p = Some b \<Longrightarrow> 1 \<le> st \<Longrightarrow>
    GetLocator_loop A c acc (int st) (Some p) =
      Some (acc @ map (hash_at A p) (locator_heights (length acc) st (nat (nHeight b))))"
proof (induction "nat (nHeight b)" arbitrary: p b acc st rule: less_induct)
  case less
  obtain hash where hash: "phashBlock b = Some hash" using hashed [OF less.prems(1)] by blast
  have h: "0 \<le> nHeight b" by (rule wf_index_height [OF wf less.prems(1)])
  have self: "hash_at A p (nat (nHeight b)) = hash"
    using hash h less.prems(1) by (simp add: hash_at_def ancestor_at_self)
  show ?case
  proof (cases "nHeight b = 0")
    case True
    then show ?thesis
      using less.prems(1) hash self
      by (subst GetLocator_loop.simps, subst locator_heights.simps) (simp add: GetBlockHash_def)
  next
    case False
    let ?h = "max (nHeight b - int st) 0" and ?acc = "acc @ [hash]"
    let ?st = "if length ?acc > 10 then st * 2 else st"
    obtain q d where q: "ancestor_at A p ?h = Some q" "A q = Some d" "nHeight d = ?h"
      using ancestor_at_Some [OF wf less.prems(1), of ?h] h by auto
    obtain present where pres: "Contains A c p = Some present" "present \<Longrightarrow> chain_at c (nHeight b) = Some p"
      using less.prems(1) by (auto simp: Contains_def)
    have "chain_at c ?h = Some q" if "present"
    proof -
      have "vChain c \<noteq> []" using pres(2) [OF that] by (auto simp: chain_at_def split: if_splits)
      then obtain t where t: "\<forall>k. chain_at c k = ancestor_at A t k" using chain_at_ancestor [OF wf c] by blast
      then show ?thesis
        using ancestor_at_trans [OF wf, of t "nHeight b" p ?h] pres(2) [OF that] q(1) h by simp
    qed
    then have nxt: "(if present then Some (chain_at c ?h) else GetAncestor A p ?h) = Some (Some q)"
      using q(1) by (simp add: GetAncestor_correct [OF wf less.prems(1)])
    have ks: "\<forall>k \<in> set (locator_heights (length ?acc) ?st (nat ?h)). hash_at A q k = hash_at A p k"
    proof
      fix k
      assume "k \<in> set (locator_heights (length ?acc) ?st (nat ?h))"
      then have "int k \<le> ?h" using locator_heights_sorted [of "length ?acc" ?st "nat ?h"] by auto
      then show "hash_at A q k = hash_at A p k"
        using ancestor_at_trans [OF wf q(1), of "int k"] by (simp add: hash_at_def)
    qed
    have "GetLocator_loop A c ?acc (int ?st) (Some q) =
        Some (?acc @ map (hash_at A q) (locator_heights (length ?acc) ?st (nat (nHeight d))))"
      using less.prems(2) h False q(3) by (intro less.hyps [OF _ q(2)]) auto
    also have "\<dots> = Some (acc @ map (hash_at A p) (locator_heights (length acc) st (nat (nHeight b))))"
    proof -
      have "nat ?h = nat (nHeight b) - max 1 st" using less.prems(2) h by auto
      then have "locator_heights (length acc) st (nat (nHeight b)) =
          nat (nHeight b) # locator_heights (length ?acc) ?st (nat ?h)"
        using False h by (subst locator_heights.simps) (simp only: list.inject length_append length_Cons list.size if_False; simp)
      then show ?thesis using ks self q(3) by simp
    qed
    finally show ?thesis
      using less.prems(1) hash False pres(1) nxt
      by (subst GetLocator_loop.simps) (auto simp: GetBlockHash_def Let_def)
  qed
qed

section \<open>Search by time\<close>

lemma lower_bound_loop_correct:
  assumes cmp: "\<And>i. i < first + len \<Longrightarrow> cmp i = Some (P i)"
    and mono: "\<And>i j. i \<le> j \<Longrightarrow> P j \<Longrightarrow> P i"
  shows "\<exists>k. lower_bound_loop cmp first len = Some k \<and> first \<le> k \<and> k \<le> first + len \<and>
    (\<forall>i. first \<le> i \<longrightarrow> i < k \<longrightarrow> P i) \<and> (\<forall>i. k \<le> i \<longrightarrow> i < first + len \<longrightarrow> \<not> P i)"
  using cmp
proof (induction cmp first len rule: lower_bound_loop.induct)
  case (1 cmp first len)
  show ?case
  proof (cases "len = 0")
    case True
    then show ?thesis by (subst lower_bound_loop.simps) simp
  next
    case False
    let ?half = "len div 2" and ?mid = "first + len div 2"
    have mid: "cmp ?mid = Some (P ?mid)" using 1(3) False by simp
    show ?thesis
    proof (cases "P ?mid")
      case True
      obtain k where k: "lower_bound_loop cmp (?mid + 1) (len - ?half - 1) = Some k"
        "?mid + 1 \<le> k" "k \<le> first + len" "\<forall>i. ?mid + 1 \<le> i \<longrightarrow> i < k \<longrightarrow> P i"
        "\<forall>i. k \<le> i \<longrightarrow> i < first + len \<longrightarrow> \<not> P i"
        using 1(1) [OF _ refl refl mid True] 1(3) False by auto
      have "P i" if "i < k" for i using mono [OF _ True, of i] k(4) that by (cases "i \<le> ?mid") auto
      then show ?thesis using k mid True False by (subst lower_bound_loop.simps) (auto simp: Let_def)
    next
      case F: False
      obtain k where k: "lower_bound_loop cmp first ?half = Some k"
        "first \<le> k" "k \<le> ?mid" "\<forall>i. first \<le> i \<longrightarrow> i < k \<longrightarrow> P i"
        "\<forall>i. k \<le> i \<longrightarrow> i < ?mid \<longrightarrow> \<not> P i"
        using 1(2) [OF _ refl refl mid F] 1(3) False by auto
      have "\<not> P i" if "k \<le> i" for i using mono [of ?mid i] F k(5) that by (cases "i < ?mid") auto
      then show ?thesis using k mid F False by (subst lower_bound_loop.simps) (auto simp: Let_def)
    qed
  qed
qed

lemma nTimeMax_mono:
  assumes S: "wf_blockmap S" and d: "ancestor_at (blockArena S) p (int j) = Some r" "blockArena S r = Some d"
  shows "i \<le> j \<Longrightarrow> ancestor_at (blockArena S) p (int i) = Some q \<Longrightarrow> blockArena S q = Some c \<Longrightarrow>
    GetBlockTimeMax c \<le> GetBlockTimeMax d"
  using d
proof (induction j arbitrary: r d)
  case (Suc j)
  have wf: "wf_index (blockArena S)" using S by (simp add: wf_blockmap_def)
  show ?case
  proof (cases "i = Suc j")
    case False
    obtain r' where r': "pprev d = Some r'" "ancestor_at (blockArena S) p (int j) = Some r'"
      using pprev_ancestor_at [OF wf Suc.prems(4,5)]
        ancestor_at_trans [OF wf Suc.prems(4), of "int j"] ancestor_at_height [OF wf Suc.prems(4)]
        ancestor_at_Some [OF wf Suc.prems(5), of "int j"] Suc.prems(5) by auto
    have "wf_sums (blockArena S) d" using S Suc.prems(5) by (simp add: wf_blockmap_def)
    then obtain d' where d': "blockArena S r' = Some d'" "nTimeMax d = max (nTimeMax d') (nTime d)"
      using r'(1) by (auto simp: wf_sums_def)
    have "nTimeMax d' \<le> nTimeMax d" by (simp add: d'(2))
    then have "GetBlockTimeMax d' \<le> GetBlockTimeMax d" by (simp add: GetBlockTimeMax_def word_le_def)
    with Suc.IH [OF _ Suc.prems(2,3) r'(2) d'(1)] Suc.prems(1) False show ?thesis by simp
  qed (use Suc.prems in auto)
qed auto

lemma FindEarliestAtLeast_correct:
  assumes S: "wf_blockmap S" and c: "is_chain (blockArena S) c"
  defines "tmax i \<equiv> GetBlockTimeMax (the (blockArena S (the (vChain c ! i))))"
  shows "\<exists>k \<le> length (vChain c).
    FindEarliestAtLeast (blockArena S) c t = Some (if k = length (vChain c) then None else vChain c ! k) \<and>
    (\<forall>i < k. tmax i < t) \<and> (\<forall>i. k \<le> i \<longrightarrow> i < length (vChain c) \<longrightarrow> t \<le> tmax i)"
proof -
  let ?A = "blockArena S" and ?n = "length (vChain c)"
  have wf: "wf_index ?A" using S by (simp add: wf_blockmap_def)
  have elem: "\<exists>q d. vChain c ! i = Some q \<and> ?A q = Some d" if i: "i < ?n" for i
  proof -
    obtain p b where p: "?A p = Some b" "vChain c = chain_of ?A p" using c i by (auto simp: is_chain_def)
    then have "int i \<le> nHeight b" using i by (simp add: length_chain_of)
    then show ?thesis
      using ancestor_at_Some [OF wf p(1), of "int i"] p nth_chain_of [of ?A p b i] by auto
  qed
  have mono: "tmax i \<le> tmax j" if ij: "i \<le> j" "j < ?n" for i j
  proof -
    obtain p b where p: "?A p = Some b" "vChain c = chain_of ?A p" using c ij by (auto simp: is_chain_def)
    then have *: "vChain c ! i = ancestor_at ?A p (int i)" "vChain c ! j = ancestor_at ?A p (int j)"
      using ij nth_chain_of [of ?A p b] length_chain_of [of ?A p b] by auto
    show ?thesis
      using elem [of i] elem [of j] ij nTimeMax_mono [OF S _ _ ij(1), of p] * by (auto simp: tmax_def)
  qed
  let ?cmp = "\<lambda>i. do { p \<leftarrow> vChain c ! i; b \<leftarrow> ?A p; Some (GetBlockTimeMax b < t) }"
  define P where "P i \<longleftrightarrow> i < ?n \<and> tmax i < t" for i
  have cmp: "?cmp i = Some (P i)" if "i < 0 + ?n" for i
    using elem [of i] that by (auto simp: P_def tmax_def)
  have P: "P i" if "i \<le> j" "P j" for i j
    using mono [OF that(1)] that by (auto simp: P_def)
  obtain k where k: "lower_bound_loop ?cmp 0 ?n = Some k" "k \<le> ?n" "\<forall>i<k. P i" "\<forall>i\<ge>k. i < ?n \<longrightarrow> \<not> P i"
    using lower_bound_loop_correct [of 0 ?n ?cmp P] cmp P by fastforce
  then show ?thesis
    by (intro exI [of _ k]) (auto simp: FindEarliestAtLeast_def P_def not_less)
qed

section \<open>Properties\<close>

lemma reachable_wf_index: "reachable_blockmap hash_of S \<Longrightarrow> wf_index (blockArena S)"
  using reachable_wf_blockmap [of hash_of S] by (simp add: wf_blockmap_def)

lemma sample_tree_2: "\<exists>b. blockArena sample_tree 2 = Some b \<and> nHeight b = 2"
  using sample_tree_facts(2) by auto

text \<open>
  C13. Active chain.  Starting from any chain of a reachable tree, \<open>SetTip\<close> returns, and afterwards the
  vector holds exactly the ancestors of the new tip: the entry at every height is the ancestor at that
  height, whatever the vector held before, \<open>Tip\<close> is the new tip, \<open>Height\<close> its height, and \<open>Contains\<close>
  decides whether a block is one of its ancestors.
\<close>

theorem set_tip_installs_ancestry:
  assumes S: "reachable_blockmap hash_of S" and c: "is_chain (blockArena S) c"
    and p: "blockArena S p = Some b"
  shows "\<exists>c'. SetTip (blockArena S) (Some p) c = Some c' \<and> is_chain (blockArena S) c' \<and>
    Tip c' = Some p \<and> Height c' = nHeight b \<and>
    (\<forall>h. chain_at c' h = ancestor_at (blockArena S) p h) \<and>
    (\<forall>q d. blockArena S q = Some d \<longrightarrow>
       Contains (blockArena S) c' q = Some (ancestor_at (blockArena S) p (nHeight d) = Some q))"
proof -
  let ?c = "c\<lparr>vChain := chain_of (blockArena S) p\<rparr>"
  note wf = reachable_wf_index [OF S]
  have h: "0 \<le> nHeight b" by (rule wf_index_height [OF wf p])
  have at: "chain_at ?c h = ancestor_at (blockArena S) p h" for h
    using chain_of_at [OF wf p, of h] by (cases c) simp
  have len: "length (vChain ?c) = nat (nHeight b + 1)" using length_chain_of [of "blockArena S" p b] p by simp
  have "Tip ?c = chain_at ?c (nHeight b)"
    using len h by (simp add: Tip_def chain_at_def nat_add_distrib)
  then have "Tip ?c = Some p" using at p h by (simp add: ancestor_at_self)
  moreover have "Height ?c = nHeight b" using len h by (simp add: Height_def)
  moreover have "is_chain (blockArena S) ?c" using p by (auto simp: is_chain_def)
  ultimately show ?thesis
    using SetTip_correct [OF wf p c] at by (intro exI [of _ ?c]) (simp add: Contains_def)
qed

theorem set_tip_installs_ancestry_witness:
  "\<exists>c'. SetTip (blockArena sample_tree) (Some 2) \<lparr>vChain = []\<rparr> = Some c' \<and> Tip c' = Some 2 \<and>
     Height c' = 2 \<and> chain_at c' 0 = Some 0"
proof -
  obtain b where b: "blockArena sample_tree 2 = Some b" "nHeight b = 2" using sample_tree_2 by blast
  have "is_chain (blockArena sample_tree) \<lparr>vChain = []\<rparr>" by (simp add: is_chain_def)
  from set_tip_installs_ancestry [OF sample_tree_reachable this b(1)] show ?thesis
    using b(2) sample_tree_facts(1) by auto
qed

text \<open>
  C14. Fork points.  In a reachable tree \<open>LastCommonAncestor\<close> returns for any two blocks (its assertion
  holds), and \<open>FindFork\<close> returns for any block and chain vector; both results are the block of the
  greatest height that the two branches share, and \<open>nullptr\<close> only if they share none.
\<close>

theorem fork_points_are_last_common_blocks:
  assumes S: "reachable_blockmap hash_of S" and p: "blockArena S p = Some b" "blockArena S p' = Some b'"
  shows "(\<exists>r. LastCommonAncestor (blockArena S) p p' = Some r \<and>
      last_agree (ancestor_at (blockArena S) p) (ancestor_at (blockArena S) p') r) \<and>
    (\<exists>r. FindFork (blockArena S) c (Some p) = Some r \<and>
      last_agree (ancestor_at (blockArena S) p) (chain_at c) r)"
  using LastCommonAncestor_correct [OF reachable_wf_index [OF S] p]
    FindFork_correct [OF reachable_wf_index [OF S] p(1), of c] by blast

theorem fork_points_are_last_common_blocks_witness:
  "\<exists>r. LastCommonAncestor (blockArena sample_tree) 2 2 = Some r \<and>
     last_agree (ancestor_at (blockArena sample_tree) 2) (ancestor_at (blockArena sample_tree) 2) r"
proof -
  obtain b where b: "blockArena sample_tree 2 = Some b" using sample_tree_2 by blast
  show ?thesis using fork_points_are_last_common_blocks [OF sample_tree_reachable b b] by blast
qed

text \<open>
  C15. Locators.  For every block of a reachable tree and every chain, \<open>GetLocator\<close> returns the hashes
  of ancestors of the block, from the block itself down to the genesis block, at strictly decreasing
  heights, and a block of height below 2^k has a locator of at most k + 12 hashes.
\<close>

theorem locator_reaches_genesis:
  assumes S: "reachable_blockmap hash_of S" and c: "is_chain (blockArena S) c"
    and p: "blockArena S p = Some b" and k: "nHeight b < 2 ^ k"
  shows "\<exists>hs. GetLocator (blockArena S) c (Some p) = Some (map (hash_at (blockArena S) p) hs) \<and>
    hd hs = nat (nHeight b) \<and> last hs = 0 \<and> sorted_wrt (>) hs \<and> length hs \<le> k + 12"
proof -
  note wf = reachable_wf_index [OF S]
  have hashed: "phashBlock d \<noteq> None" if "blockArena S q = Some d" for q d
    using reachable_wf_blockmap [OF S] that by (simp add: wf_blockmap_def)
  let ?hs = "locator_heights 0 1 (nat (nHeight b))"
  have "nat (nHeight b) < 2 ^ k" using k by (simp add: nat_less_iff [OF wf_index_height [OF wf p]])
  then have "length ?hs \<le> k + 12" using locator_heights_length [of 0 _ k] by fastforce
  then show ?thesis
    using GetLocator_loop_correct [where acc = "[]" and st = 1, OF wf _ c p] hashed
      locator_heights_hd_last [of 0 1] locator_heights_sorted [of 0 1]
    by (intro exI [of _ ?hs]) (simp add: GetLocator_def)
qed

theorem locator_reaches_genesis_witness:
  "\<exists>hs. GetLocator (blockArena sample_tree) \<lparr>vChain = []\<rparr> (Some 2) =
     Some (map (hash_at (blockArena sample_tree) 2) hs) \<and> last hs = 0 \<and> length hs \<le> 14"
proof -
  obtain b where b: "blockArena sample_tree 2 = Some b" "nHeight b = 2" using sample_tree_2 by blast
  have "is_chain (blockArena sample_tree) \<lparr>vChain = []\<rparr>" by (simp add: is_chain_def)
  from locator_reaches_genesis [OF sample_tree_reachable this b(1), of 2] show ?thesis
    using b(2) by auto
qed

text \<open>
  C16. Search by time.  On a chain of a reachable tree, \<open>FindEarliestAtLeast\<close> returns the first block
  of the chain whose greatest time so far is at least the given time, and \<open>nullptr\<close> if there is none.
\<close>

theorem find_earliest_at_least_correct:
  assumes S: "reachable_blockmap hash_of S" and c: "is_chain (blockArena S) c"
  shows "\<exists>k \<le> length (vChain c).
    FindEarliestAtLeast (blockArena S) c t = Some (if k = length (vChain c) then None else vChain c ! k) \<and>
    (\<forall>i < k. GetBlockTimeMax (the (blockArena S (the (vChain c ! i)))) < t) \<and>
    (\<forall>i. k \<le> i \<longrightarrow> i < length (vChain c) \<longrightarrow> t \<le> GetBlockTimeMax (the (blockArena S (the (vChain c ! i)))))"
  by (rule FindEarliestAtLeast_correct [OF reachable_wf_blockmap [OF S] c])

theorem find_earliest_at_least_correct_witness:
  "\<exists>k \<le> length (chain_of (blockArena sample_tree) 2).
     FindEarliestAtLeast (blockArena sample_tree) \<lparr>vChain = chain_of (blockArena sample_tree) 2\<rparr> 120 =
       Some (if k = length (chain_of (blockArena sample_tree) 2) then None
             else chain_of (blockArena sample_tree) 2 ! k)"
proof -
  obtain b where b: "blockArena sample_tree 2 = Some b" using sample_tree_2 by blast
  then have "is_chain (blockArena sample_tree) \<lparr>vChain = chain_of (blockArena sample_tree) 2\<rparr>"
    by (auto simp: is_chain_def)
  from find_earliest_at_least_correct [OF sample_tree_reachable this, of 120] show ?thesis by auto
qed

end
