(* ===== verification/ConsensusParams.thy ===== *)
theory ConsensusParams
  imports Uint256 "HOL-Library.Signed_Division"
begin

text \<open>
  The parameters of the networks: \<open>Consensus::Params\<close> of src/src/consensus/params.h and the values
  the constructors of src/src/chainparams.cpp give them, with the burn amounts and addresses, the
  activation heights and the limits on reorganisations of \<open>CChainParams\<close>.  The genesis block, the
  seeds, the checkpoints and the address prefixes are left out.  A division or a remainder whose
  divisor is 0 is \<^const>\<open>None\<close>; both truncate towards 0.
\<close>

type_synonym CAmount = int

definition COIN :: CAmount where
  "COIN = 100000000"

definition c_div :: "int \<Rightarrow> int \<Rightarrow> int option" where
  "c_div a b = (if b = 0 then None else Some (a sdiv b))"

definition c_mod :: "int \<Rightarrow> int \<Rightarrow> int option" where
  "c_mod a b = (if b = 0 then None else Some (a smod b))"

section \<open>Consensus parameters\<close>

datatype DeploymentPos =
    DEPLOYMENT_TESTDUMMY
  | DEPLOYMENT_ASSETS
  | DEPLOYMENT_MSG_REST_ASSETS
  | DEPLOYMENT_TRANSFER_SCRIPT_SIZE
  | DEPLOYMENT_ENFORCE_VALUE
  | DEPLOYMENT_COINBASE_ASSETS

definition all_deployments :: "DeploymentPos list" where
  "all_deployments =
     [DEPLOYMENT_TESTDUMMY, DEPLOYMENT_ASSETS, DEPLOYMENT_MSG_REST_ASSETS, DEPLOYMENT_TRANSFER_SCRIPT_SIZE,
      DEPLOYMENT_ENFORCE_VALUE, DEPLOYMENT_COINBASE_ASSETS]"

record BIP9Deployment =
  bip9_bit :: int
  nStartTime :: int
  nTimeout :: int
  nOverrideMinerConfirmationWindow :: uint32
  nOverrideRuleChangeActivationThreshold :: uint32

record Params =
  nSubsidyHalvingInterval :: int
  nBIP34Enabled :: bool
  nBIP65Enabled :: bool
  nBIP66Enabled :: bool
  nRuleChangeActivationThreshold :: uint32
  nMinerConfirmationWindow :: uint32
  vDeployments :: "DeploymentPos \<Rightarrow> BIP9Deployment"
  powLimit :: bytes
  phihashLimit :: bytes
  fPowAllowMinDifficultyBlocks :: bool
  fPowNoRetargeting :: bool
  nPowTargetSpacing :: int
  nPowTargetTimespan :: int
  nMinimumChainWork :: bytes
  defaultAssumeValid :: bytes
  nSegwitEnabled :: bool
  nCSVEnabled :: bool

definition DifficultyAdjustmentInterval :: "Params \<Rightarrow> int option" where
  "DifficultyAdjustmentInterval params = c_div (nPowTargetTimespan params) (nPowTargetSpacing params)"

section \<open>Chain parameters\<close>

record CChainParams =
  strNetworkID :: string
  consensus :: Params
  nIssueAssetBurnAmount :: CAmount
  nReissueAssetBurnAmount :: CAmount
  nIssueSubAssetBurnAmount :: CAmount
  nIssueUniqueAssetBurnAmount :: CAmount
  nIssueMsgChannelAssetBurnAmount :: CAmount
  nIssueQualifierAssetBurnAmount :: CAmount
  nIssueSubQualifierAssetBurnAmount :: CAmount
  nIssueRestrictedAssetBurnAmount :: CAmount
  nAddNullQualifierTagBurnAmount :: CAmount
  strGlobalBurnAddress :: string
  strIssueAssetBurnAddress :: string
  strReissueAssetBurnAddress :: string
  strIssueSubAssetBurnAddress :: string
  strIssueUniqueAssetBurnAddress :: string
  strIssueMsgChannelAssetBurnAddress :: string
  strIssueQualifierAssetBurnAddress :: string
  strIssueSubQualifierAssetBurnAddress :: string
  strIssueRestrictedAssetBurnAddress :: string
  strAddNullQualifierTagBurnAddress :: string
  strDevAddress :: string
  nDGWActivationBlock :: uint32
  nMaxReorganizationDepth :: int
  nMinReorganizationPeers :: int
  nMinReorganizationAge :: int
  nAssetActivationHeight :: int
  nMessagingActivationBlock :: uint32
  nRestrictedActivationBlock :: uint32
  nPHIHASHActivationTime :: uint32

definition IsBurnAddress :: "CChainParams \<Rightarrow> string \<Rightarrow> bool" where
  "IsBurnAddress p p_address \<longleftrightarrow>
     p_address = strIssueAssetBurnAddress p \<or>
     p_address = strReissueAssetBurnAddress p \<or>
     p_address = strIssueSubAssetBurnAddress p \<or>
     p_address = strIssueUniqueAssetBurnAddress p \<or>
     p_address = strIssueMsgChannelAssetBurnAddress p \<or>
     p_address = strIssueQualifierAssetBurnAddress p \<or>
     p_address = strIssueSubQualifierAssetBurnAddress p \<or>
     p_address = strIssueRestrictedAssetBurnAddress p \<or>
     p_address = strAddNullQualifierTagBurnAddress p \<or>
     p_address = strGlobalBurnAddress p"

definition IsDGWActive :: "CChainParams \<Rightarrow> uint32 \<Rightarrow> bool" where
  "IsDGWActive p nBlockNumber = (nBlockNumber \<ge> nDGWActivationBlock p)"

definition UpdateVersionBitsParameters :: "DeploymentPos \<Rightarrow> int \<Rightarrow> int \<Rightarrow> CChainParams \<Rightarrow> CChainParams" where
  "UpdateVersionBitsParameters d start timeout p =
     p\<lparr>consensus := (consensus p)\<lparr>vDeployments :=
         (vDeployments (consensus p))
           (d := (vDeployments (consensus p) d)\<lparr>nStartTime := start, nTimeout := timeout\<rparr>)\<rparr>\<rparr>"

section \<open>The networks\<close>

fun main_deployments :: "DeploymentPos \<Rightarrow> BIP9Deployment" where
  "main_deployments DEPLOYMENT_TESTDUMMY =
     \<lparr>bip9_bit = 28, nStartTime = 1199145601, nTimeout = 1199145601,
      nOverrideMinerConfirmationWindow = 1, nOverrideRuleChangeActivationThreshold = 1\<rparr>"
| "main_deployments DEPLOYMENT_ASSETS =
     \<lparr>bip9_bit = 6, nStartTime = 0, nTimeout = 1751090400,
      nOverrideMinerConfirmationWindow = 1, nOverrideRuleChangeActivationThreshold = 1\<rparr>"
| "main_deployments DEPLOYMENT_MSG_REST_ASSETS =
     \<lparr>bip9_bit = 7, nStartTime = 0, nTimeout = 1751090400,
      nOverrideMinerConfirmationWindow = 1, nOverrideRuleChangeActivationThreshold = 1\<rparr>"
| "main_deployments DEPLOYMENT_TRANSFER_SCRIPT_SIZE =
     \<lparr>bip9_bit = 8, nStartTime = 0, nTimeout = 1751090400,
      nOverrideMinerConfirmationWindow = 1, nOverrideRuleChangeActivationThreshold = 1\<rparr>"
| "main_deployments DEPLOYMENT_ENFORCE_VALUE =
     \<lparr>bip9_bit = 9, nStartTime = 0, nTimeout = 1751090400,
      nOverrideMinerConfirmationWindow = 1, nOverrideRuleChangeActivationThreshold = 1\<rparr>"
| "main_deployments DEPLOYMENT_COINBASE_ASSETS =
     \<lparr>bip9_bit = 10, nStartTime = 0, nTimeout = 1751090400,
      nOverrideMinerConfirmationWindow = 1, nOverrideRuleChangeActivationThreshold = 1\<rparr>"

definition main_consensus :: Params where
  "main_consensus =
     \<lparr>nSubsidyHalvingInterval = 2102400, nBIP34Enabled = True, nBIP65Enabled = True, nBIP66Enabled = True,
      nRuleChangeActivationThreshold = 160, nMinerConfirmationWindow = 240,
      vDeployments = main_deployments,
      powLimit = uint256S ''00000fffffffffffffffffffffffffffffffffffffffffffffffffffffffffff'',
      phihashLimit = uint256S ''0000000000ffffffffffffffffffffffffffffffffffffffffffffffffffffff'',
      fPowAllowMinDifficultyBlocks = False, fPowNoRetargeting = False,
      nPowTargetSpacing = 15, nPowTargetTimespan = 3600,
      nMinimumChainWork = uint256S ''000000000000000000000000000000000000000000000000002012ea1956e160'',
      defaultAssumeValid = uint256S ''000000b591270f4349af861f90ec322d330fedc6c207d3357a7d33e941b94659'',
      nSegwitEnabled = True, nCSVEnabled = True\<rparr>"

fun test_deployments :: "DeploymentPos \<Rightarrow> BIP9Deployment" where
  "test_deployments d =
     \<lparr>bip9_bit = (case d of DEPLOYMENT_TESTDUMMY \<Rightarrow> 28 | DEPLOYMENT_ASSETS \<Rightarrow> 5
        | DEPLOYMENT_MSG_REST_ASSETS \<Rightarrow> 6 | DEPLOYMENT_TRANSFER_SCRIPT_SIZE \<Rightarrow> 8
        | DEPLOYMENT_ENFORCE_VALUE \<Rightarrow> 9 | DEPLOYMENT_COINBASE_ASSETS \<Rightarrow> 10),
      nStartTime = 1731377205, nTimeout = 1731377205 + 1800,
      nOverrideMinerConfirmationWindow = 50, nOverrideRuleChangeActivationThreshold = 40\<rparr>"

definition test_consensus :: Params where
  "test_consensus =
     \<lparr>nSubsidyHalvingInterval = 1000, nBIP34Enabled = True, nBIP65Enabled = True, nBIP66Enabled = True,
      nRuleChangeActivationThreshold = 40, nMinerConfirmationWindow = 60,
      vDeployments = test_deployments,
      powLimit = uint256S ''ffffffffffffffffffffffffffffffffffffffffffffffffffffffffffffffff'',
      phihashLimit = uint256S ''000000ffffffffffffffffffffffffffffffffffffffffffffffffffffffffff'',
      fPowAllowMinDifficultyBlocks = False, fPowNoRetargeting = False,
      nPowTargetSpacing = 15, nPowTargetTimespan = 900,
      nMinimumChainWork = uint256S ''0000000000000000000000000000000000000000000000000000000000000000'',
      defaultAssumeValid = uint256S ''000000b591270f4349af861f90ec322d330fedc6c207d3357a7d33e941b94659'',
      nSegwitEnabled = True, nCSVEnabled = True\<rparr>"

fun regtest_deployments :: "DeploymentPos \<Rightarrow> BIP9Deployment" where
  "regtest_deployments d =
     \<lparr>bip9_bit = (case d of DEPLOYMENT_TESTDUMMY \<Rightarrow> 28 | DEPLOYMENT_ASSETS \<Rightarrow> 6
        | DEPLOYMENT_MSG_REST_ASSETS \<Rightarrow> 7 | DEPLOYMENT_TRANSFER_SCRIPT_SIZE \<Rightarrow> 8
        | DEPLOYMENT_ENFORCE_VALUE \<Rightarrow> 9 | DEPLOYMENT_COINBASE_ASSETS \<Rightarrow> 10),
      nStartTime = 0, nTimeout = 999999999999,
      nOverrideMinerConfirmationWindow =
        (case d of DEPLOYMENT_TRANSFER_SCRIPT_SIZE \<Rightarrow> 288 | DEPLOYMENT_COINBASE_ASSETS \<Rightarrow> 500 | _ \<Rightarrow> 24),
      nOverrideRuleChangeActivationThreshold =
        (case d of DEPLOYMENT_TRANSFER_SCRIPT_SIZE \<Rightarrow> 208 | DEPLOYMENT_COINBASE_ASSETS \<Rightarrow> 400 | _ \<Rightarrow> 18)\<rparr>"

definition regtest_consensus :: Params where
  "regtest_consensus =
     \<lparr>nSubsidyHalvingInterval = 150, nBIP34Enabled = True, nBIP65Enabled = True, nBIP66Enabled = True,
      nRuleChangeActivationThreshold = 30, nMinerConfirmationWindow = 40,
      vDeployments = regtest_deployments,
      powLimit = uint256S ''7fffffffffffffffffffffffffffffffffffffffffffffffffffffffffffffff'',
      phihashLimit = uint256S ''7fffffffffffffffffffffffffffffffffffffffffffffffffffffffffffffff'',
      fPowAllowMinDifficultyBlocks = True, fPowNoRetargeting = True,
      nPowTargetSpacing = 15, nPowTargetTimespan = 600,
      nMinimumChainWork = uint256S ''0x00'', defaultAssumeValid = uint256S ''0x00'',
      nSegwitEnabled = True, nCSVEnabled = True\<rparr>"

definition CMainParams :: CChainParams where
  "CMainParams =
     \<lparr>strNetworkID = ''main'', consensus = main_consensus,
      nIssueAssetBurnAmount = COIN div 10,
      nReissueAssetBurnAmount = COIN div 10,
      nIssueSubAssetBurnAmount = COIN div 10,
      nIssueUniqueAssetBurnAmount = COIN div 10,
      nIssueMsgChannelAssetBurnAmount = COIN div 10,
      nIssueQualifierAssetBurnAmount = COIN div 10,
      nIssueSubQualifierAssetBurnAmount = COIN div 10,
      nIssueRestrictedAssetBurnAmount = COIN div 10,
      nAddNullQualifierTagBurnAmount = COIN div 10,
      strGlobalBurnAddress = ''PkC3bSAjN99cFg9yQbPYn5sQ89Gnvnnmcf'',
      strIssueAssetBurnAddress = ''PkC3bSAjN99cFg9yQbPYn5sQ89Gnvnnmcf'',
      strReissueAssetBurnAddress = ''PkC3bSAjN99cFg9yQbPYn5sQ89Gnvnnmcf'',
      strIssueSubAssetBurnAddress = ''PkC3bSAjN99cFg9yQbPYn5sQ89Gnvnnmcf'',
      strIssueUniqueAssetBurnAddress = ''PkC3bSAjN99cFg9yQbPYn5sQ89Gnvnnmcf'',
      strIssueMsgChannelAssetBurnAddress = ''PkC3bSAjN99cFg9yQbPYn5sQ89Gnvnnmcf'',
      strIssueQualifierAssetBurnAddress = ''PkC3bSAjN99cFg9yQbPYn5sQ89Gnvnnmcf'',
      strIssueSubQualifierAssetBurnAddress = ''PkC3bSAjN99cFg9yQbPYn5sQ89Gnvnnmcf'',
      strIssueRestrictedAssetBurnAddress = ''PkC3bSAjN99cFg9yQbPYn5sQ89Gnvnnmcf'',
      strAddNullQualifierTagBurnAddress = ''PkC3bSAjN99cFg9yQbPYn5sQ89Gnvnnmcf'',
      strDevAddress = ''PfGy9w5jysV8aVw9eRjDqsydHJdnuxSV89'',
      nDGWActivationBlock = 1, nMaxReorganizationDepth = 180, nMinReorganizationPeers = 4,
      nMinReorganizationAge = 60 * 60 * 12, nAssetActivationHeight = 0, nMessagingActivationBlock = 0,
      nRestrictedActivationBlock = 0, nPHIHASHActivationTime = 1749020400 + 1\<rparr>"

definition CTestNetParams :: CChainParams where
  "CTestNetParams =
     \<lparr>strNetworkID = ''test'', consensus = test_consensus,
      nIssueAssetBurnAmount = COIN div 10,
      nReissueAssetBurnAmount = COIN div 10,
      nIssueSubAssetBurnAmount = COIN div 10,
      nIssueUniqueAssetBurnAmount = COIN div 10,
      nIssueMsgChannelAssetBurnAmount = COIN div 10,
      nIssueQualifierAssetBurnAmount = COIN div 10,
      nIssueSubQualifierAssetBurnAmount = COIN div 10,
      nIssueRestrictedAssetBurnAmount = COIN div 10,
      nAddNullQualifierTagBurnAmount = COIN div 10,
      strGlobalBurnAddress = ''Tmkx2JgVtBbPKArQwNH9LvkbhvwfakrEHs'',
      strIssueAssetBurnAddress = ''Tmkx2JgVtBbPKArQwNH9LvkbhvwfakrEHs'',
      strReissueAssetBurnAddress = ''Tmkx2JgVtBbPKArQwNH9LvkbhvwfakrEHs'',
      strIssueSubAssetBurnAddress = ''Tmkx2JgVtBbPKArQwNH9LvkbhvwfakrEHs'',
      strIssueUniqueAssetBurnAddress = ''Tmkx2JgVtBbPKArQwNH9LvkbhvwfakrEHs'',
      strIssueMsgChannelAssetBurnAddress = ''Tmkx2JgVtBbPKArQwNH9LvkbhvwfakrEHs'',
      strIssueQualifierAssetBurnAddress = ''Tmkx2JgVtBbPKArQwNH9LvkbhvwfakrEHs'',
      strIssueSubQualifierAssetBurnAddress = ''Tmkx2JgVtBbPKArQwNH9LvkbhvwfakrEHs'',
      strIssueRestrictedAssetBurnAddress = ''Tmkx2JgVtBbPKArQwNH9LvkbhvwfakrEHs'',
      strAddNullQualifierTagBurnAddress = ''Tmkx2JgVtBbPKArQwNH9LvkbhvwfakrEHs'',
      strDevAddress = ''Tmkx2JgVtBbPKArQwNH9LvkbhvwfakrEHs'',
      nDGWActivationBlock = 1, nMaxReorganizationDepth = 60, nMinReorganizationPeers = 2,
      nMinReorganizationAge = 60 * 60 * 12 div 4, nAssetActivationHeight = 0, nMessagingActivationBlock = 0,
      nRestrictedActivationBlock = 0, nPHIHASHActivationTime = 1749020400 + 1\<rparr>"

definition CRegTestParams :: CChainParams where
  "CRegTestParams =
     \<lparr>strNetworkID = ''regtest'', consensus = regtest_consensus,
      nIssueAssetBurnAmount = COIN div 10,
      nReissueAssetBurnAmount = COIN div 10,
      nIssueSubAssetBurnAmount = COIN div 10,
      nIssueUniqueAssetBurnAmount = COIN div 10,
      nIssueMsgChannelAssetBurnAmount = COIN div 10,
      nIssueQualifierAssetBurnAmount = COIN div 10,
      nIssueSubQualifierAssetBurnAmount = COIN div 10,
      nIssueRestrictedAssetBurnAmount = COIN div 10,
      nAddNullQualifierTagBurnAmount = COIN div 10,
      strGlobalBurnAddress = ''Tmkx2JgVtBbPKArQwNH9LvkbhvwfakrEHs'',
      strIssueAssetBurnAddress = ''Tmkx2JgVtBbPKArQwNH9LvkbhvwfakrEHs'',
      strReissueAssetBurnAddress = ''Tmkx2JgVtBbPKArQwNH9LvkbhvwfakrEHs'',
      strIssueSubAssetBurnAddress = ''Tmkx2JgVtBbPKArQwNH9LvkbhvwfakrEHs'',
      strIssueUniqueAssetBurnAddress = ''Tmkx2JgVtBbPKArQwNH9LvkbhvwfakrEHs'',
      strIssueMsgChannelAssetBurnAddress = ''Tmkx2JgVtBbPKArQwNH9LvkbhvwfakrEHs'',
      strIssueQualifierAssetBurnAddress = ''Tmkx2JgVtBbPKArQwNH9LvkbhvwfakrEHs'',
      strIssueSubQualifierAssetBurnAddress = ''Tmkx2JgVtBbPKArQwNH9LvkbhvwfakrEHs'',
      strIssueRestrictedAssetBurnAddress = ''Tmkx2JgVtBbPKArQwNH9LvkbhvwfakrEHs'',
      strAddNullQualifierTagBurnAddress = ''Tmkx2JgVtBbPKArQwNH9LvkbhvwfakrEHs'',
      strDevAddress = ''Tmkx2JgVtBbPKArQwNH9LvkbhvwfakrEHs'',
      nDGWActivationBlock = 200, nMaxReorganizationDepth = 40, nMinReorganizationPeers = 4,
      nMinReorganizationAge = 60 * 60 * 12, nAssetActivationHeight = 0, nMessagingActivationBlock = 0,
      nRestrictedActivationBlock = 0, nPHIHASHActivationTime = 1749020400 + 1\<rparr>"

definition TurnOffSegwit :: "CChainParams \<Rightarrow> CChainParams" where
  "TurnOffSegwit p = p\<lparr>consensus := (consensus p)\<lparr>nSegwitEnabled := False\<rparr>\<rparr>"

definition TurnOffCSV :: "CChainParams \<Rightarrow> CChainParams" where
  "TurnOffCSV p = p\<lparr>consensus := (consensus p)\<lparr>nCSVEnabled := False\<rparr>\<rparr>"

definition TurnOffBIP34 :: "CChainParams \<Rightarrow> CChainParams" where
  "TurnOffBIP34 p = p\<lparr>consensus := (consensus p)\<lparr>nBIP34Enabled := False\<rparr>\<rparr>"

definition TurnOffBIP65 :: "CChainParams \<Rightarrow> CChainParams" where
  "TurnOffBIP65 p = p\<lparr>consensus := (consensus p)\<lparr>nBIP65Enabled := False\<rparr>\<rparr>"

definition TurnOffBIP66 :: "CChainParams \<Rightarrow> CChainParams" where
  "TurnOffBIP66 p = p\<lparr>consensus := (consensus p)\<lparr>nBIP66Enabled := False\<rparr>\<rparr>"

text \<open>The accessors read these switches; \<open>BIP65\<close> and \<open>BIP66\<close> read the one of BIP 34.\<close>

definition BIP34 :: "CChainParams \<Rightarrow> bool" where
  "BIP34 p = nBIP34Enabled (consensus p)"

definition BIP65 :: "CChainParams \<Rightarrow> bool" where
  "BIP65 p = nBIP34Enabled (consensus p)"

definition BIP66 :: "CChainParams \<Rightarrow> bool" where
  "BIP66 p = nBIP34Enabled (consensus p)"

definition CSVEnabled :: "CChainParams \<Rightarrow> bool" where
  "CSVEnabled p = nCSVEnabled (consensus p)"

definition CreateChainParams :: "string \<Rightarrow> CChainParams option" where
  "CreateChainParams chain =
     (if chain = ''main'' then Some CMainParams
      else if chain = ''test'' then Some CTestNetParams
      else if chain = ''regtest'' then Some CRegTestParams
      else None)"

section \<open>Facts the other components use\<close>

lemma c_div_pos: "0 < b \<Longrightarrow> 0 \<le> a \<Longrightarrow> c_div a b = Some (a div b)"
  by (simp add: c_div_def signed_divide_int_def sgn_if)

lemma c_mod_pos: "0 < b \<Longrightarrow> 0 \<le> a \<Longrightarrow> c_mod a b = Some (a mod b)"
  by (auto simp: c_mod_def signed_modulo_int_def signed_divide_int_def sgn_if minus_div_mult_eq_mod)

text \<open>Switching BIP 65 or BIP 66 off leaves the accessors as they were.\<close>

lemma turn_off_has_no_effect:
  "BIP65 (TurnOffBIP65 p) = BIP65 p" "BIP66 (TurnOffBIP66 p) = BIP66 p"
  "\<not> BIP65 (TurnOffBIP34 p)" "\<not> BIP66 (TurnOffBIP34 p)"
  by (simp_all add: BIP65_def BIP66_def TurnOffBIP34_def TurnOffBIP65_def TurnOffBIP66_def)

lemma networks_adjust_every_window:
  "DifficultyAdjustmentInterval main_consensus = Some 240"
  "DifficultyAdjustmentInterval test_consensus = Some 60"
  "DifficultyAdjustmentInterval regtest_consensus = Some 40"
  by (simp_all add: DifficultyAdjustmentInterval_def c_div_pos main_consensus_def test_consensus_def regtest_consensus_def)

end
