(* ===== verification/Pow.thy ===== *)
theory Pow
  imports Chain ConsensusParams
begin

text \<open>
  The difficulty rules of src/src/pow.cpp: the Dark Gravity Wave average over 240 blocks, the retarget
  once per window that is in force before it, and the check of a hash against a target.  The block
  header under construction is the argument \<open>pblock\<close>; of the logging nothing is modelled.

  \<open>bnNew *= nActualTimespan\<close> multiplies by a 64-bit integer; overload resolution takes
  \<open>base_uint::operator*=(uint32_t)\<close>, so the factor is reduced modulo 2^32.  The divisions convert their
  divisor to a \<open>base_uint\<close> through 64 bits.
\<close>

section \<open>Dark Gravity Wave\<close>

definition nPastBlocks :: nat where
  "nPastBlocks = 240"

text \<open>The loop that returns to the last block without the special minimum-difficulty rule.\<close>

partial_function (option) last_regular_block :: "arena \<Rightarrow> uint32 \<Rightarrow> int \<Rightarrow> ptr \<Rightarrow> ptr option" where
  "last_regular_block A nProofOfWorkLimit interval pindex =
     do { b \<leftarrow> A pindex;
          case pprev b of
            None \<Rightarrow> Some pindex
          | Some q \<Rightarrow>
              do { r \<leftarrow> c_mod (nHeight b) interval;
                   if r \<noteq> 0 \<and> nBits b = nProofOfWorkLimit
                   then last_regular_block A nProofOfWorkLimit interval q
                   else Some pindex } }"

declare last_regular_block.simps [code]

text \<open>
  The averaging loop, with \<open>n\<close> iterations left: the state is \<open>nCountBlocks\<close>, \<open>pindex\<close>,
  \<open>bnPastTargetAvg\<close> and \<open>nPHIHASHBlocksFound\<close>.
\<close>

fun dgw_loop :: "arena \<Rightarrow> uint32 \<Rightarrow> nat \<Rightarrow> nat \<Rightarrow> ptr \<Rightarrow> base_uint \<Rightarrow> nat \<Rightarrow> (ptr \<times> base_uint \<times> nat) option" where
  "dgw_loop A actTime 0 nCountBlocks pindex bnPastTargetAvg found = Some (pindex, bnPastTargetAvg, found)"
| "dgw_loop A actTime (Suc n) nCountBlocks pindex bnPastTargetAvg found =
     do { b \<leftarrow> A pindex;
          let bnTarget = fst (SetCompact (nBits b))
          in do {
            avg \<leftarrow> (if nCountBlocks = 1 then Some bnTarget
                     else base_div (base_add (base_mul32 bnPastTargetAvg (of_nat nCountBlocks)) bnTarget)
                            (base_uint_of_u64 (of_nat (nCountBlocks + 1))));
            let found = (if nTime b \<ge> actTime then found + 1 else found)
            in if nCountBlocks \<noteq> nPastBlocks
               then do { q \<leftarrow> pprev b; dgw_loop A actTime n (nCountBlocks + 1) q avg found }
               else dgw_loop A actTime n (nCountBlocks + 1) pindex avg found
          } }"

text \<open>The clamp of the measured time span, the scaling of the average and the cap at the limit.\<close>

definition clamp_timespan :: "int \<Rightarrow> int \<Rightarrow> int \<Rightarrow> int \<Rightarrow> int" where
  "clamp_timespan factor nTargetTimespan nMin nActualTimespan =
     (let t = (if nActualTimespan < nMin then nMin else nActualTimespan)
      in if t > nTargetTimespan * factor then nTargetTimespan * factor else t)"

definition retarget :: "base_uint \<Rightarrow> int \<Rightarrow> int \<Rightarrow> base_uint \<Rightarrow> uint32 option" where
  "retarget bnOld nActualTimespan nTargetTimespan bnPowLimit =
     do { bnNew \<leftarrow> base_div (base_mul32 bnOld (word_of_int nActualTimespan))
                     (base_uint_of_u64 (word_of_int nTargetTimespan));
          GetCompact (if base_greater bnNew bnPowLimit then bnPowLimit else bnNew) False }"

definition DarkGravityWave :: "arena \<Rightarrow> CChainParams \<Rightarrow> ptr \<Rightarrow> CBlockHeader \<Rightarrow> uint32 option" where
  "DarkGravityWave A chainparams pindexLast pblock =
     (let params = consensus chainparams;
          actTime = nPHIHASHActivationTime chainparams;
          bnPowLimit = UintToArith256 (powLimit params)
      in do {
        nProofOfWorkLimit \<leftarrow> GetCompact bnPowLimit False;
        last \<leftarrow> A pindexLast;
        if nHeight last < int nPastBlocks then GetCompact bnPowLimit False
        else if fPowAllowMinDifficultyBlocks params \<and> fPowNoRetargeting params
        then (if CBlockHeader_GetBlockTime pblock > GetBlockTime last + nPowTargetSpacing params * 2
              then Some nProofOfWorkLimit
              else do { interval \<leftarrow> DifficultyAdjustmentInterval params;
                        p \<leftarrow> last_regular_block A nProofOfWorkLimit interval pindexLast;
                        b \<leftarrow> A p;
                        Some (nBits b) })
        else do {
          (pindex, bnPastTargetAvg, nPHIHASHBlocksFound) \<leftarrow>
            dgw_loop A actTime nPastBlocks 1 pindexLast base_uint_zero 0;
          if bh_nTime pblock \<ge> actTime \<and> nPHIHASHBlocksFound \<noteq> nPastBlocks
          then GetCompact (UintToArith256 (phihashLimit params)) False
          else do {
            first \<leftarrow> A pindex;
            let nTargetTimespan = int nPastBlocks * nPowTargetSpacing params
            in retarget bnPastTargetAvg
                 (clamp_timespan 3 nTargetTimespan (nTargetTimespan sdiv 3) (GetBlockTime last - GetBlockTime first))
                 nTargetTimespan bnPowLimit
          }
        }
      })"

section \<open>Retargeting once per window\<close>

definition CalculateNextWorkRequired :: "arena \<Rightarrow> Params \<Rightarrow> ptr \<Rightarrow> int \<Rightarrow> uint32 option" where
  "CalculateNextWorkRequired A params pindexLast nFirstBlockTime =
     do { last \<leftarrow> A pindexLast;
          if fPowNoRetargeting params then Some (nBits last)
          else retarget (fst (SetCompact (nBits last)))
                 (clamp_timespan 4 (nPowTargetTimespan params) (nPowTargetTimespan params sdiv 4)
                    (GetBlockTime last - nFirstBlockTime))
                 (nPowTargetTimespan params) (UintToArith256 (powLimit params)) }"

definition GetNextWorkRequiredBTC :: "arena \<Rightarrow> Params \<Rightarrow> ptr \<Rightarrow> CBlockHeader \<Rightarrow> uint32 option" where
  "GetNextWorkRequiredBTC A params pindexLast pblock =
     do { nProofOfWorkLimit \<leftarrow> GetCompact (UintToArith256 (powLimit params)) False;
          last \<leftarrow> A pindexLast;
          interval \<leftarrow> DifficultyAdjustmentInterval params;
          r \<leftarrow> c_mod (nHeight last + 1) interval;
          if r \<noteq> 0
          then (if fPowAllowMinDifficultyBlocks params
                then (if CBlockHeader_GetBlockTime pblock > GetBlockTime last + nPowTargetSpacing params * 2
                      then Some nProofOfWorkLimit
                      else do { p \<leftarrow> last_regular_block A nProofOfWorkLimit interval pindexLast;
                                b \<leftarrow> A p;
                                Some (nBits b) })
                else Some (nBits last))
          else let nHeightFirst = nHeight last - (interval - 1)
               in if nHeightFirst < 0 then None
                  else do { pindexFirst \<leftarrow> GetAncestor A pindexLast nHeightFirst;
                            p \<leftarrow> pindexFirst;
                            first \<leftarrow> A p;
                            CalculateNextWorkRequired A params pindexLast (GetBlockTime first) } }"

definition GetNextWorkRequired :: "arena \<Rightarrow> CChainParams \<Rightarrow> ptr \<Rightarrow> CBlockHeader \<Rightarrow> uint32 option" where
  "GetNextWorkRequired A chainparams pindexLast pblock =
     do { last \<leftarrow> A pindexLast;
          if IsDGWActive chainparams (word_of_int (nHeight last + 1))
          then DarkGravityWave A chainparams pindexLast pblock
          else GetNextWorkRequiredBTC A (consensus chainparams) pindexLast pblock }"

section \<open>Checking the proof of work\<close>

definition CheckProofOfWork :: "bytes \<Rightarrow> uint32 \<Rightarrow> Params \<Rightarrow> bool" where
  "CheckProofOfWork hash bits params =
     (let (bnTarget, fNegative, fOverflow) = SetCompact bits
      in if fNegative \<or> EqualTo bnTarget 0 \<or> fOverflow \<or> base_greater bnTarget (UintToArith256 (powLimit params))
         then False
         else if base_greater (UintToArith256 hash) bnTarget then False
         else True)"

section \<open>Targets\<close>

lemma wf_UintToArith256 [simp]: "wf_uint (UintToArith256 a)"
  by (simp add: UintToArith256_def wf_uint_def)

lemma target_of_flags: "SetCompact c = (t, False, False) \<Longrightarrow> target_of c = uval t"
  by (simp add: target_of_def)

lemma GetCompact_target:
  assumes "wf_uint a"
  shows "\<exists>c. GetCompact a False = Some c \<and> target_of c \<le> uval a \<and>
    (uval a - target_of c) * 2 ^ 15 \<le> target_of c"
proof -
  obtain c t where "GetCompact a False = Some c" "SetCompact c = (t, False, False)" "uval t \<le> uval a"
    "(uval a - uval t) * 2 ^ 15 \<le> uval t"
    using GetCompact_SetCompact [OF assms] by blast
  then show ?thesis by (metis target_of_flags)
qed

text \<open>
  \<open>close_below v c\<close>: the target of the compact number \<open>c\<close> is at most \<open>v\<close>, and falls short of it by at
  most one part in 2^15.
\<close>

definition close_below :: "int \<Rightarrow> uint32 \<Rightarrow> bool" where
  "close_below v c \<longleftrightarrow> target_of c \<le> v \<and> (v - target_of c) * 2 ^ 15 \<le> target_of c"

lemma GetCompact_close: "wf_uint a \<Longrightarrow> \<exists>c. GetCompact a False = Some c \<and> close_below (uval a) c"
  using GetCompact_target by (simp add: close_below_def)

lemma uint_of_int32: "0 \<le> t \<Longrightarrow> t < 2 ^ 32 \<Longrightarrow> uint (word_of_int t :: uint32) = t"
  and uint_of_int64: "0 \<le> t \<Longrightarrow> t < 2 ^ 64 \<Longrightarrow> uint (word_of_int t :: uint64) = t"
  by (simp_all add: uint_word_of_int mod_pos_pos_trivial)

lemma uint_of_nat32: "n < 2 ^ 32 \<Longrightarrow> uint (of_nat n :: uint32) = int n"
  and uint_of_nat64: "n < 2 ^ 64 \<Longrightarrow> uint (of_nat n :: uint64) = int n"
  by (simp_all add: unsigned_of_nat take_bit_nat_eq_self)

lemma retarget_total:
  assumes wf: "wf_uint old" "wf_uint limit" and T: "0 < T" "T < 2 ^ 64"
  shows "\<exists>c. retarget old ts T limit = Some c \<and> target_of c \<le> uval limit"
proof -
  have "uint (word_of_int T :: uint64) \<noteq> 0" using T by (simp add: uint_of_int64)
  then obtain q where q: "base_div (base_mul32 old (word_of_int ts)) (base_uint_of_u64 (word_of_int T)) = Some q" "wf_uint q"
    using u256.scale32_total [OF wf(1)] by blast
  have "uval (if base_greater q limit then limit else q) \<le> uval limit"
    using u256.cap_le(2) [OF q(2) wf(2)] by simp
  moreover obtain c where "GetCompact (if base_greater q limit then limit else q) False = Some c"
      "target_of c \<le> uval (if base_greater q limit then limit else q)"
    using GetCompact_target [OF u256.cap_le(1) [OF q(2) wf(2)]] by blast
  ultimately show ?thesis using q(1) by (simp add: retarget_def)
qed

lemma retarget_value:
  assumes wf: "wf_uint old" "wf_uint limit" and T: "0 < T" "T < 2 ^ 64" and ts: "0 \<le> ts" "ts < 2 ^ 32"
    and fits: "uval old * ts < M256"
  shows "\<exists>c. retarget old ts T limit = Some c \<and> close_below (min (uval old * ts div T) (uval limit)) c"
proof -
  have u: "uint (word_of_int T :: uint64) = T" "uint (word_of_int ts :: uint32) = ts"
    using T ts by (simp_all add: uint_of_int32 uint_of_int64)
  then obtain q where q: "base_div (base_mul32 old (word_of_int ts)) (base_uint_of_u64 (word_of_int T)) = Some q"
      "wf_uint q" "uval q = uval old * ts div T"
    using u256.scale32 [OF wf(1), of "word_of_int T" "word_of_int ts"] T fits by auto
  show ?thesis
    using GetCompact_close [OF u256.cap_le(1) [OF q(2) wf(2)]] q(1)
    unfolding retarget_def u256.cap_le(2) [OF q(2) wf(2)] q(3) by simp
qed

lemma clamp_timespan_bounds:
  "nMin \<le> T * factor \<Longrightarrow> nMin \<le> clamp_timespan factor T nMin t \<and> clamp_timespan factor T nMin t \<le> T * factor"
  by (simp add: clamp_timespan_def Let_def)

section \<open>The averaging loop\<close>

abbreviation raw_target :: "CBlockIndex \<Rightarrow> int" where
  "raw_target b \<equiv> uval (fst (SetCompact (nBits b)))"

lemma average_step:
  assumes avg: "wf_uint avg" "lo \<le> uval avg" "uval avg \<le> hi" and t: "wf_uint t" "lo \<le> uval t" "uval t \<le> hi"
    and k: "0 < k" "k < 2 ^ 32 - 1" and fits: "hi * (int k + 1) < M256" and lo: "0 \<le> lo"
  shows "\<exists>q. base_div (base_add (base_mul32 avg (of_nat k)) t) (base_uint_of_u64 (of_nat (k + 1))) = Some q \<and>
    wf_uint q \<and> lo \<le> uval q \<and> uval q \<le> hi"
proof -
  have k': "uint (of_nat k :: uint32) = int k" "uint (of_nat (k + 1) :: uint64) = int k + 1"
    using k uint_of_nat32 [of k] uint_of_nat64 [of "k + 1"] by simp_all
  have "uval avg * int k \<le> hi * int k" "uval avg * int k \<ge> lo * int k"
    using avg by (simp_all add: mult_right_mono)
  moreover have "hi * int k + hi < M256" using fits by (simp add: distrib_left)
  ultimately have b: "uval avg * int k + uval t < M256" "uval avg * int k + uval t \<le> hi * (int k + 1)"
      "lo * (int k + 1) \<le> uval avg * int k + uval t"
    using t by (simp_all add: distrib_left)
  have nn: "0 \<le> uval avg * int k" "0 \<le> uval t" using avg lo t by auto
  then have "uval avg * int k < M256" using b(1) by linarith
  then have sum: "uval (base_add (base_mul32 avg (of_nat k)) t) = uval avg * int k + uval t"
    using nn b(1) by (simp add: uval_add uval_mul32 avg(1) t(1) k' mod_pos_pos_trivial)
  obtain q where q: "base_div (base_add (base_mul32 avg (of_nat k)) t) (base_uint_of_u64 (of_nat (k + 1))) = Some q"
      "wf_uint q" "uval q = (uval avg * int k + uval t) div (int k + 1)"
    using base_div_correct(2) [of "base_add (base_mul32 avg (of_nat k)) t" "base_uint_of_u64 (of_nat (k + 1))"]
      avg(1) t(1) k' sum by auto
  have "lo \<le> uval q" unfolding q(3) by (rule int_le_divI) (use b(3) in \<open>simp_all add: mult.commute\<close>)
  moreover have "uval q < hi + 1" unfolding q(3) by (rule int_div_lessI) (use b(2) in \<open>simp_all add: algebra_simps\<close>)
  ultimately show ?thesis using q by auto
qed

text \<open>
  With \<open>n\<close> iterations left, the loop reads the \<open>n\<close> blocks from the current one down.  It never fails an
  assertion, ends \<open>n - 1\<close> blocks further down, keeps the average between the smallest and the greatest
  target it has seen, and counts the blocks after the activation time.
\<close>

lemma dgw_loop_correct:
  assumes wf: "wf_index A" and lo: "0 \<le> lo" and fits: "hi * 241 < M256"
  shows "A p = Some b \<Longrightarrow> 0 < n \<Longrightarrow> k + n = 241 \<Longrightarrow> 0 < k \<Longrightarrow> int n \<le> nHeight b + 1 \<Longrightarrow>
    (\<forall>c \<in> set (last_blocks A n p). lo \<le> raw_target c \<and> raw_target c \<le> hi) \<Longrightarrow>
    (1 < k \<Longrightarrow> wf_uint avg \<and> lo \<le> uval avg \<and> uval avg \<le> hi) \<Longrightarrow>
    \<exists>q avg'. dgw_loop A T n k p avg found =
        Some (q, avg', found + length (filter (\<lambda>c. T \<le> nTime c) (last_blocks A n p))) \<and>
      nth_prev A (n - 1) p = Some q \<and> wf_uint avg' \<and> lo \<le> uval avg' \<and> uval avg' \<le> hi"
proof (induction n arbitrary: k p b avg found)
  case (Suc n)
  let ?t = "fst (SetCompact (nBits b))"
  let ?found = "if T \<le> nTime b then found + 1 else found"
  have t: "wf_uint ?t" "lo \<le> uval ?t" "uval ?t \<le> hi"
    using Suc.prems(1,6) by (simp_all add: SetCompact_wf)
  have "hi * (int k + 1) \<le> hi * 241"
    using t lo Suc.prems(3) by (intro mult_left_mono) auto
  then obtain avg1 where avg1: "(if k = 1 then Some ?t
        else base_div (base_add (base_mul32 avg (of_nat k)) ?t) (base_uint_of_u64 (of_nat (k + 1)))) = Some avg1"
      "wf_uint avg1" "lo \<le> uval avg1" "uval avg1 \<le> hi"
    using average_step [of avg lo hi ?t k] t Suc.prems(3,4,7) fits lo by (cases "k = 1") auto
  show ?case
  proof (cases "n = 0")
    case True
    then have "k = nPastBlocks" using Suc.prems(3) by (simp add: nPastBlocks_def)
    then show ?thesis
      using Suc.prems(1) avg1 True by (auto simp: Let_def split: option.splits)
  next
    case False
    obtain q where q: "pprev b = Some q"
      using wf_index_pprev_None [OF wf Suc.prems(1)] Suc.prems(5) False by (cases "pprev b") auto
    obtain c where c: "A q = Some c" "nHeight c = nHeight b - 1"
      using wf_index_pprev_Some [OF wf Suc.prems(1) q] by blast
    have "\<exists>r avg'. dgw_loop A T n (k + 1) q avg1 ?found =
        Some (r, avg', ?found + length (filter (\<lambda>c. T \<le> nTime c) (last_blocks A n q))) \<and>
      nth_prev A (n - 1) q = Some r \<and> wf_uint avg' \<and> lo \<le> uval avg' \<and> uval avg' \<le> hi"
      using Suc.prems False c q avg1 by (intro Suc.IH [OF c(1)]) auto
    moreover have "k \<noteq> nPastBlocks" using Suc.prems(3) False by (simp add: nPastBlocks_def)
    then have "dgw_loop A T (Suc n) k p avg found = dgw_loop A T n (k + 1) q avg1 ?found"
      using Suc.prems(1) q avg1(1) by (simp add: Let_def)
    moreover have "nth_prev A (Suc n - 1) p = nth_prev A (n - 1) q"
      using False q Suc.prems(1) by (cases n) auto
    moreover have "found + length (filter (\<lambda>c. T \<le> nTime c) (last_blocks A (Suc n) p)) =
        ?found + length (filter (\<lambda>c. T \<le> nTime c) (last_blocks A n q))"
      using Suc.prems(1) q by simp
    ultimately show ?thesis by metis
  qed
qed simp

lemma dgw_loop_total:
  assumes wf: "wf_index A"
  shows "A p = Some b \<Longrightarrow> 0 < n \<Longrightarrow> k + n = 241 \<Longrightarrow> 0 < k \<Longrightarrow> int n \<le> nHeight b + 1 \<Longrightarrow>
    (1 < k \<Longrightarrow> wf_uint avg) \<Longrightarrow>
    \<exists>q c avg' f. dgw_loop A T n k p avg found = Some (q, avg', f) \<and> A q = Some c \<and> wf_uint avg'"
proof (induction n arbitrary: k p b avg found)
  case (Suc n)
  let ?t = "fst (SetCompact (nBits b))"
  have t: "wf_uint ?t" by (rule SetCompact_wf)
  have "uint (of_nat (k + 1) :: uint64) \<noteq> 0"
    using Suc.prems(3) uint_of_nat64 [of "k + 1"] by simp
  then obtain avg1 where avg1: "(if k = 1 then Some ?t
        else base_div (base_add (base_mul32 avg (of_nat k)) ?t) (base_uint_of_u64 (of_nat (k + 1)))) = Some avg1"
      "wf_uint avg1"
    using base_div_correct(2) [of "base_add (base_mul32 avg (of_nat k)) ?t" "base_uint_of_u64 (of_nat (k + 1))"]
      t Suc.prems(4,6) by (cases "k = 1") auto
  show ?case
  proof (cases "n = 0")
    case True
    then have "k = nPastBlocks" using Suc.prems(3) by (simp add: nPastBlocks_def)
    then show ?thesis using Suc.prems(1) avg1 True by (auto simp: Let_def)
  next
    case False
    obtain q where q: "pprev b = Some q"
      using wf_index_pprev_None [OF wf Suc.prems(1)] Suc.prems(5) False by (cases "pprev b") auto
    obtain c where c: "A q = Some c" "nHeight c = nHeight b - 1"
      using wf_index_pprev_Some [OF wf Suc.prems(1) q] by blast
    have "k \<noteq> nPastBlocks" using Suc.prems(3) False by (simp add: nPastBlocks_def)
    then show ?thesis
      using Suc.IH [OF c(1), of "k + 1" avg1] Suc.prems False c q avg1 by (auto simp: Let_def)
  qed
qed simp

section \<open>The block before the special rule\<close>

lemma last_regular_block_total:
  assumes wf: "wf_index A" and i: "interval \<noteq> 0"
  shows "A p = Some b \<Longrightarrow> \<exists>q c. last_regular_block A limit interval p = Some q \<and> A q = Some c"
proof (induction "nat (nHeight b)" arbitrary: p b rule: less_induct)
  case less
  show ?case
  proof (cases "pprev b")
    case None
    then show ?thesis using less.prems by (subst last_regular_block.simps) simp
  next
    case (Some q)
    then obtain c where c: "A q = Some c" "nHeight c = nHeight b - 1"
      using wf_index_pprev_Some [OF wf less.prems] by blast
    have "0 \<le> nHeight c" by (rule wf_index_height [OF wf c(1)])
    then have "\<exists>r d. last_regular_block A limit interval q = Some r \<and> A r = Some d"
      using c(2) by (intro less.hyps [OF _ c(1)]) simp
    then show ?thesis
      using Some less.prems i by (subst last_regular_block.simps) (auto simp: c_mod_def)
  qed
qed

section \<open>The rules\<close>

text \<open>What the rules need of the parameters of a network.\<close>

definition valid_pow_params :: "Params \<Rightarrow> bool" where
  "valid_pow_params params \<longleftrightarrow>
     0 < nPowTargetSpacing params \<and> nPowTargetSpacing params \<le> nPowTargetTimespan params \<and>
     nPowTargetSpacing params < 2 ^ 22 \<and> nPowTargetTimespan params < 2 ^ 30 \<and>
     uval (UintToArith256 (phihashLimit params)) \<le> uval (UintToArith256 (powLimit params))"

abbreviation limit_of :: "Params \<Rightarrow> int" where
  "limit_of params \<equiv> uval (UintToArith256 (powLimit params))"

lemma valid_interval:
  assumes "valid_pow_params params"
  shows "\<exists>i. DifficultyAdjustmentInterval params = Some i \<and> 0 < i"
  using assms by (auto simp: valid_pow_params_def DifficultyAdjustmentInterval_def c_div_pos pos_imp_zdiv_pos_iff)

lemma regular_block_bits:
  assumes "wf_index A" "A p = Some b" "0 < i" "\<forall>q c. A q = Some c \<longrightarrow> target_of (nBits c) \<le> limit"
  shows "\<exists>c. do { p \<leftarrow> last_regular_block A l i p; b \<leftarrow> A p; Some (nBits b) } = Some c \<and> target_of c \<le> limit"
  using last_regular_block_total [OF assms(1) _ assms(2), of i l] assms(3,4) by fastforce

lemma GetCompact_le:
  assumes "uval (UintToArith256 a) \<le> v"
  shows "\<exists>c. GetCompact (UintToArith256 a) False = Some c \<and> target_of c \<le> v"
  using GetCompact_target [OF wf_UintToArith256, of a] assms by (meson order_trans)

lemma DarkGravityWave_total:
  assumes wf: "wf_index A" and p: "A p = Some b" and valid: "valid_pow_params (consensus cp)"
    and bits: "\<forall>q c. A q = Some c \<longrightarrow> target_of (nBits c) \<le> limit_of (consensus cp)"
  shows "\<exists>c. DarkGravityWave A cp p blk = Some c \<and> target_of c \<le> limit_of (consensus cp)"
proof -
  let ?ps = "consensus cp" and ?act = "nPHIHASHActivationTime cp"
  obtain l where l: "GetCompact (UintToArith256 (powLimit ?ps)) False = Some l" "target_of l \<le> limit_of ?ps"
    using GetCompact_le [of "powLimit ?ps"] by blast
  obtain ph where ph: "GetCompact (UintToArith256 (phihashLimit ?ps)) False = Some ph" "target_of ph \<le> limit_of ?ps"
    using GetCompact_le [of "phihashLimit ?ps" "limit_of ?ps"] valid by (auto simp: valid_pow_params_def)
  obtain i where i: "DifficultyAdjustmentInterval ?ps = Some i" "0 < i" using valid_interval [OF valid] by blast
  obtain r where r: "do { p \<leftarrow> last_regular_block A l i p; b \<leftarrow> A p; Some (nBits b) } = Some r"
      "target_of r \<le> limit_of ?ps"
    using regular_block_bits [OF wf p i(2) bits] by blast
  show ?thesis
  proof (cases "nHeight b < int nPastBlocks \<or> fPowAllowMinDifficultyBlocks ?ps \<and> fPowNoRetargeting ?ps")
    case True
    then show ?thesis using l i r p by (auto simp: DarkGravityWave_def Let_def)
  next
    case False
    obtain q c avg f where loop: "dgw_loop A ?act 240 1 p base_uint_zero 0 = Some (q, avg, f)" "A q = Some c" "wf_uint avg"
      using dgw_loop_total [OF wf p, of 240 1 base_uint_zero ?act 0] False by (auto simp: nPastBlocks_def)
    obtain v where v: "retarget avg
        (clamp_timespan 3 (240 * nPowTargetSpacing ?ps) ((240 * nPowTargetSpacing ?ps) sdiv 3) (GetBlockTime b - GetBlockTime c))
        (240 * nPowTargetSpacing ?ps) (UintToArith256 (powLimit ?ps)) = Some v" "target_of v \<le> limit_of ?ps"
      using retarget_total [OF loop(3) wf_UintToArith256, of "240 * nPowTargetSpacing ?ps"] valid
      by (auto simp: valid_pow_params_def)
    show ?thesis
      using False l(1) ph v loop p by (auto simp: DarkGravityWave_def Let_def nPastBlocks_def)
  qed
qed

lemma CalculateNextWorkRequired_total:
  assumes p: "A p = Some b" and valid: "valid_pow_params params" and bits: "target_of (nBits b) \<le> limit_of params"
  shows "\<exists>c. CalculateNextWorkRequired A params p t = Some c \<and> target_of c \<le> limit_of params"
  using retarget_total [OF SetCompact_wf wf_UintToArith256, of "nPowTargetTimespan params"] assms
  by (auto simp: CalculateNextWorkRequired_def valid_pow_params_def)

lemma GetNextWorkRequiredBTC_total:
  assumes wf: "wf_index A" and p: "A p = Some b" and valid: "valid_pow_params params"
    and bits: "\<forall>q c. A q = Some c \<longrightarrow> target_of (nBits c) \<le> limit_of params"
  shows "\<exists>c. GetNextWorkRequiredBTC A params p blk = Some c \<and> target_of c \<le> limit_of params"
proof -
  obtain l where l: "GetCompact (UintToArith256 (powLimit params)) False = Some l" "target_of l \<le> limit_of params"
    using GetCompact_le [of "powLimit params"] by blast
  obtain i where i: "DifficultyAdjustmentInterval params = Some i" "0 < i" using valid_interval [OF valid] by blast
  obtain r where r: "do { p \<leftarrow> last_regular_block A l i p; b \<leftarrow> A p; Some (nBits b) } = Some r"
      "target_of r \<le> limit_of params"
    using regular_block_bits [OF wf p i(2) bits] by blast
  have h: "0 \<le> nHeight b" by (rule wf_index_height [OF wf p])
  have m: "c_mod (nHeight b + 1) i = Some ((nHeight b + 1) mod i)" using i h by (simp add: c_mod_pos)
  show ?thesis
  proof (cases "(nHeight b + 1) mod i = 0")
    case False
    then show ?thesis using l i(1) r p m bits by (auto simp: GetNextWorkRequiredBTC_def)
  next
    case True
    then have "i \<le> nHeight b + 1" using h by (intro zdvd_imp_le) auto
    then have first: "0 \<le> nHeight b - (i - 1)" "nHeight b - (i - 1) \<le> nHeight b" using i(2) by auto
    then obtain q c where q: "GetAncestor A p (nHeight b - (i - 1)) = Some (Some q)" "A q = Some c"
      using ancestor_at_Some [OF wf p first] GetAncestor_correct [OF wf p] by auto
    obtain w where "CalculateNextWorkRequired A params p (GetBlockTime c) = Some w" "target_of w \<le> limit_of params"
      using CalculateNextWorkRequired_total [OF _ valid, of A p b] p bits by blast
    then show ?thesis using True l(1) i(1) p m q first by (auto simp: GetNextWorkRequiredBTC_def Let_def)
  qed
qed

lemma DarkGravityWave_value:
  assumes wf: "wf_index A" and p: "A p = Some b" and h: "240 \<le> nHeight b" and valid: "valid_pow_params (consensus cp)"
    and mode: "\<not> (fPowAllowMinDifficultyBlocks (consensus cp) \<and> fPowNoRetargeting (consensus cp))"
    and phase: "bh_nTime blk < nPHIHASHActivationTime cp \<or>
      (\<forall>c \<in> set (last_blocks A 240 p). nPHIHASHActivationTime cp \<le> nTime c)"
    and targets: "0 \<le> lo" "\<forall>c \<in> set (last_blocks A 240 p). lo \<le> raw_target c \<and> raw_target c \<le> hi"
    and fits: "hi * 241 < M256" "hi * (3 * T) < M256"
    and T: "T = 240 * nPowTargetSpacing (consensus cp)"
  shows "\<exists>q c avg w. nth_prev A 239 p = Some q \<and> A q = Some c \<and> lo \<le> avg \<and> avg \<le> hi \<and>
    DarkGravityWave A cp p blk = Some w \<and>
    close_below (min (avg * max (T div 3) (min (3 * T) (GetBlockTime b - GetBlockTime c)) div T)
      (limit_of (consensus cp))) w"
proof -
  let ?ps = "consensus cp" and ?act = "nPHIHASHActivationTime cp"
  obtain l where l: "GetCompact (UintToArith256 (powLimit ?ps)) False = Some l"
    using GetCompact_le [of "powLimit ?ps"] by blast
  have len: "length (last_blocks A 240 p) = 240" using length_last_blocks [OF wf p] h by simp
  obtain q avg where loop: "dgw_loop A ?act 240 1 p base_uint_zero 0 =
        Some (q, avg, length (filter (\<lambda>c. ?act \<le> nTime c) (last_blocks A 240 p)))"
      "nth_prev A 239 p = Some q" "wf_uint avg" "lo \<le> uval avg" "uval avg \<le> hi"
    using dgw_loop_correct [OF wf targets(1) fits(1) p, of 240 1 base_uint_zero ?act 0] targets(2) h by auto
  obtain c where c: "A q = Some c" using nth_prev_height [OF wf p, of 239] loop(2) h by auto
  let ?d = "GetBlockTime b - GetBlockTime c"
  have T0: "0 < T" "T < 2 ^ 30" using valid by (auto simp: T valid_pow_params_def)
  have s3: "T sdiv 3 = T div 3" using T0 by (simp add: signed_divide_int_def sgn_if)
  define ts where "ts = max (T div 3) (min (3 * T) ?d)"
  have ts: "clamp_timespan 3 T (T sdiv 3) ?d = ts"
    using T0 by (auto simp: clamp_timespan_def s3 Let_def max_def min_def ts_def)
  have tsb: "0 \<le> ts" "ts \<le> 3 * T" using T0 by (auto simp: ts_def)
  have "uval avg * ts \<le> hi * (3 * T)"
    using loop(4,5) targets(1) tsb T0 by (intro mult_mono) auto
  then have "uval avg * ts < M256" using fits(2) by linarith
  moreover have "T < 2 ^ 64" "ts < 2 ^ 32" using T0 tsb by simp_all
  ultimately obtain w where w: "retarget avg ts T (UintToArith256 (powLimit ?ps)) = Some w"
      "close_below (min (uval avg * ts div T) (limit_of ?ps)) w"
    using retarget_value [OF loop(3) wf_UintToArith256 T0(1) _ tsb(1)] by blast
  have early: "\<not> (?act \<le> bh_nTime blk \<and> length (filter (\<lambda>c. ?act \<le> nTime c) (last_blocks A 240 p)) \<noteq> nPastBlocks)"
    (is "\<not> ?early")
  proof (cases "bh_nTime blk < ?act")
    case False
    then have "filter (\<lambda>c. ?act \<le> nTime c) (last_blocks A 240 p) = last_blocks A 240 p"
      using phase by (simp add: filter_id_conv)
    then show ?thesis by (simp only: len nPastBlocks_def simp_thms)
  qed auto
  have "DarkGravityWave A cp p blk =
      (if ?early then GetCompact (UintToArith256 (phihashLimit ?ps)) False
       else retarget avg (clamp_timespan 3 T (T sdiv 3) ?d) T (UintToArith256 (powLimit ?ps)))"
    unfolding DarkGravityWave_def Let_def nPastBlocks_def T of_nat_numeral
    using p c h l loop(1) by (simp add: mode [THEN eq_False [THEN iffD2]])
  then have "DarkGravityWave A cp p blk = Some w" unfolding ts if_not_P [OF early] w(1) .
  then show ?thesis using loop c w(2) unfolding ts_def by blast
qed

text \<open>
  The test network's limit is 2^256 - 1, so the sum in the averaging loop wraps there: averaging two equal
  targets at the limit does not give that target back.
\<close>

lemma test_network_average_wraps:
  fixes t :: base_uint
  defines "t \<equiv> fst (SetCompact 0x2100ffff)"
  shows "uval t \<le> limit_of test_consensus"
    and "base_div (base_add (base_mul32 t 2) t) (base_uint_of_u64 3) \<noteq> Some t"
proof -
  have wf: "wf_uint t" by (simp add: t_def SetCompact_wf)
  have t: "uval t = 65535 * 2 ^ 240" unfolding t_def by code_simp
  show "uval t \<le> limit_of test_consensus" unfolding t by code_simp
  have "uval (base_add (base_mul32 t 2) t) = 3 * uval t mod M256"
    using wf by (simp add: uval_add uval_mul32 mod_simps)
  then have "uval (base_add (base_mul32 t 2) t) div 3 \<noteq> uval t" by (simp add: t)
  then show "base_div (base_add (base_mul32 t 2) t) (base_uint_of_u64 3) \<noteq> Some t"
    using base_div_correct(2) [of "base_add (base_mul32 t 2) t" "base_uint_of_u64 3"] wf by (auto simp: u256.val_of_u64)
qed

section \<open>Properties\<close>

text \<open>
  A concrete tree for the examples below: one chain, a block every 15 seconds, all with the same \<open>nBits\<close>.
\<close>

definition line_block :: "uint32 \<Rightarrow> nat \<Rightarrow> CBlockIndex" where
  "line_block bits p =
     CBlockIndex_SetNull\<lparr>nHeight := int p, pprev := (case p of 0 \<Rightarrow> None | Suc q \<Rightarrow> Some q), nBits := bits,
       nTime := 1750000000 + 15 * of_nat p\<rparr>"

definition line_arena :: "uint32 \<Rightarrow> arena" where
  "line_arena bits p = Some (line_block bits p)"

lemma line_block_simps [simp]:
  "nHeight (line_block bits p) = int p" "pprev (line_block bits p) = (case p of 0 \<Rightarrow> None | Suc q \<Rightarrow> Some q)"
  "nBits (line_block bits p) = bits" "pskip (line_block bits p) = None"
  "nTime (line_block bits p) = 1750000000 + 15 * of_nat p"
  by (simp_all add: line_block_def CBlockIndex_SetNull_def)

lemma wf_line_arena: "wf_index (line_arena bits)"
  by (auto simp: wf_index_def wf_block_def line_arena_def split: nat.splits)

lemma last_blocks_line: "c \<in> set (last_blocks (line_arena bits) n p) \<Longrightarrow> \<exists>q \<le> p. c = line_block bits q"
proof (induction n arbitrary: p)
  case (Suc n)
  then show ?case by (cases p) (auto simp: line_arena_def intro: le_SucI)
qed simp

lemma main_limit: "limit_of main_consensus = 2 ^ 236 - 1" "valid_pow_params main_consensus"
  by code_simp+

text \<open>
  C6. Difficulty is always defined and never below the limit.  On every well-formed block tree whose
  blocks respect the proof-of-work limit, and for every network with sane parameters,
  \<open>GetNextWorkRequired\<close> returns: no assertion fails, nothing is divided by zero, no null pointer is
  followed and the walks end.  The compact target it returns is at most the limit, so the rule keeps
  the invariant it relies on.
\<close>

theorem next_work_required_total_and_capped:
  assumes "wf_index A" "A p = Some b" "valid_pow_params (consensus cp)"
    and "\<forall>q c. A q = Some c \<longrightarrow> target_of (nBits c) \<le> limit_of (consensus cp)"
  shows "\<exists>c. GetNextWorkRequired A cp p blk = Some c \<and> target_of c \<le> limit_of (consensus cp)"
  using DarkGravityWave_total [OF assms] GetNextWorkRequiredBTC_total [OF assms] assms(2)
  by (auto simp: GetNextWorkRequired_def)

theorem next_work_required_total_and_capped_witness:
  "\<exists>c. GetNextWorkRequired (line_arena 0x1e00ffff) CMainParams 1000 CBlockHeader_SetNull = Some c \<and>
     target_of c \<le> limit_of main_consensus"
proof -
  have "target_of 0x1e00ffff \<le> limit_of main_consensus" by code_simp
  then have "\<forall>q c. line_arena 0x1e00ffff q = Some c \<longrightarrow> target_of (nBits c) \<le> limit_of (consensus CMainParams)"
    by (simp add: line_arena_def CMainParams_def)
  then show ?thesis
    using next_work_required_total_and_capped [OF wf_line_arena _ _, of "0x1e00ffff" 1000 _ CMainParams] main_limit(2)
    by (simp add: CMainParams_def line_arena_def)
qed

text \<open>
  C7. Dark Gravity Wave.  Once 240 blocks are there (and, after the activation time, all of them are
  PHIHASH blocks), the new target is the product of an average that lies between the smallest and the
  greatest target of those blocks and the time they took, clamped to a third and three times the
  planned 240 spacings, divided by the planned time, cut off at the limit and rounded down by the compact form
  by at most one part in 2^15.  No product overflows 256 bits as long as 720 spacings of the greatest
  target fit.
\<close>

theorem dark_gravity_wave_bounded_adjustment:
  assumes "wf_index A" "A p = Some b" "240 \<le> nHeight b" "valid_pow_params (consensus cp)"
    and "\<not> (fPowAllowMinDifficultyBlocks (consensus cp) \<and> fPowNoRetargeting (consensus cp))"
    and "bh_nTime blk < nPHIHASHActivationTime cp \<or>
      (\<forall>c \<in> set (last_blocks A 240 p). nPHIHASHActivationTime cp \<le> nTime c)"
    and "0 \<le> lo" "\<forall>c \<in> set (last_blocks A 240 p). lo \<le> raw_target c \<and> raw_target c \<le> hi"
    and "hi * 241 < M256" "hi * (3 * T) < M256"
    and "T = 240 * nPowTargetSpacing (consensus cp)"
  shows "\<exists>q c avg w. nth_prev A 239 p = Some q \<and> A q = Some c \<and> lo \<le> avg \<and> avg \<le> hi \<and>
    DarkGravityWave A cp p blk = Some w \<and>
    close_below (min (avg * max (T div 3) (min (3 * T) (GetBlockTime b - GetBlockTime c)) div T)
      (limit_of (consensus cp))) w"
  by (rule DarkGravityWave_value [OF assms])

theorem dark_gravity_wave_bounded_adjustment_witness:
  "\<exists>q c avg w. nth_prev (line_arena 0x1e00ffff) 239 1000 = Some q \<and> line_arena 0x1e00ffff q = Some c \<and>
    0 \<le> avg \<and> avg \<le> 2 ^ 236 - 1 \<and>
    DarkGravityWave (line_arena 0x1e00ffff) CMainParams 1000 CBlockHeader_SetNull = Some w \<and>
    close_below (min (avg * max (3600 div 3) (min (3 * 3600) (GetBlockTime (line_block 0x1e00ffff 1000) - GetBlockTime c)) div 3600)
      (limit_of main_consensus)) w"
proof -
  have "uval (fst (SetCompact 0x1e00ffff)) \<le> 2 ^ 236 - 1" by code_simp
  then have targets: "\<forall>c \<in> set (last_blocks (line_arena 0x1e00ffff) 240 1000). 0 \<le> raw_target c \<and> raw_target c \<le> 2 ^ 236 - 1"
    using last_blocks_line by fastforce
  have cp: "consensus CMainParams = main_consensus" "bh_nTime CBlockHeader_SetNull < nPHIHASHActivationTime CMainParams"
    "nPowTargetSpacing main_consensus = 15" "\<not> fPowAllowMinDifficultyBlocks main_consensus"
    by (simp_all add: CMainParams_def main_consensus_def CBlockHeader_SetNull_def)
  have "\<not> (fPowAllowMinDifficultyBlocks main_consensus \<and> fPowNoRetargeting main_consensus)"
    "bh_nTime CBlockHeader_SetNull < nPHIHASHActivationTime CMainParams \<or>
      (\<forall>c \<in> set (last_blocks (line_arena 0x1e00ffff) 240 1000). nPHIHASHActivationTime CMainParams \<le> nTime c)"
    "(3600 :: int) = 240 * nPowTargetSpacing main_consensus"
    using cp by simp_all
  note mode = this
  have p: "line_arena 0x1e00ffff 1000 = Some (line_block 0x1e00ffff 1000)" "240 \<le> nHeight (line_block 0x1e00ffff 1000)"
    by (simp_all add: line_arena_def)
  have fits: "(2 ^ 236 - 1 :: int) * 241 < M256" "(2 ^ 236 - 1 :: int) * (3 * 3600) < M256" by simp_all
  show ?thesis
    by (rule dark_gravity_wave_bounded_adjustment [OF wf_line_arena p, of CMainParams CBlockHeader_SetNull,
          unfolded cp(1), OF main_limit(2) mode(1,2) order_refl targets fits mode(3)])
qed

text \<open>
  C8. Proof of work.  \<open>CheckProofOfWork\<close> accepts a hash exactly when \<open>nBits\<close> decodes without sign and
  overflow to a target that is positive and at most the limit, and the hash, read as a number, is at
  most the target.
\<close>

theorem check_proof_of_work_iff:
  "CheckProofOfWork hash bits params \<longleftrightarrow>
     0 < target_of bits \<and> target_of bits \<le> limit_of params \<and> uval (UintToArith256 hash) \<le> target_of bits"
proof -
  obtain t neg ovf where sc: "SetCompact bits = (t, neg, ovf)" by (metis surj_pair)
  have t: "wf_uint t" using SetCompact_wf [of bits] by (simp add: sc)
  have "0 < uval t \<longleftrightarrow> uval t \<noteq> 0" using limbs_val_nonneg [of t] by linarith
  then show ?thesis
    using limbs_val_nonneg [of t] t
    by (auto simp: CheckProofOfWork_def sc target_of_def EqualTo_iff not_less)
qed

end
