(* ===== verification/VersionBits.thy ===== *)
theory VersionBits
  imports BlockIndex ConsensusParams
begin

text \<open>
  The deployment of soft forks by version bits, src/src/versionbits.h and versionbits.cpp: the threshold
  state machine with its cache, the statistics of the current period and the height since which a
  state holds.  The abstract class is a record of its virtual functions; the cache is a map from the
  parent block (\<open>None\<close> is \<open>nullptr\<close>) to the state.

  The reference is BIP 9 as it is written: the state of period \<open>k\<close> is computed from the state of period
  \<open>k - 1\<close>, starting at the genesis block, without a cache and without the shortcut at the start time.
\<close>

section \<open>The state machine\<close>

datatype ThresholdState =
  THRESHOLD_DEFINED | THRESHOLD_STARTED | THRESHOLD_LOCKED_IN | THRESHOLD_ACTIVE | THRESHOLD_FAILED

type_synonym ThresholdConditionCache = "ptr option \<rightharpoonup> ThresholdState"

record AbstractThresholdConditionChecker =
  Condition :: "CBlockIndex \<Rightarrow> Params \<Rightarrow> bool"
  BeginTime :: "Params \<Rightarrow> int"
  EndTime :: "Params \<Rightarrow> int"
  Period :: "Params \<Rightarrow> int"
  Threshold :: "Params \<Rightarrow> int"

text \<open>The last block of the period before the one \<open>pindex\<close> is followed by.\<close>

definition period_parent :: "arena \<Rightarrow> int \<Rightarrow> ptr \<Rightarrow> ptr option option" where
  "period_parent A nPeriod pindex =
     do { b \<leftarrow> A pindex; r \<leftarrow> c_mod (nHeight b + 1) nPeriod; GetAncestor A pindex (nHeight b - r) }"

text \<open>The walk back to a block whose state is known; \<open>vToCompute\<close> has its back at the head.\<close>

partial_function (option) find_known ::
    "arena \<Rightarrow> int \<Rightarrow> int \<Rightarrow> ThresholdConditionCache \<Rightarrow> ptr option \<Rightarrow> ptr list \<Rightarrow>
     (ptr option \<times> ptr list \<times> ThresholdConditionCache) option" where
  "find_known A nPeriod nTimeStart cache pindexPrev vToCompute =
     (if cache pindexPrev \<noteq> None then Some (pindexPrev, vToCompute, cache)
      else case pindexPrev of
        None \<Rightarrow> Some (None, vToCompute, cache(None \<mapsto> THRESHOLD_DEFINED))
      | Some q \<Rightarrow>
          do { t \<leftarrow> GetMedianTimePast A q;
               if t < nTimeStart then Some (pindexPrev, vToCompute, cache(pindexPrev \<mapsto> THRESHOLD_DEFINED))
               else do { b \<leftarrow> A q;
                         r \<leftarrow> GetAncestor A q (nHeight b - nPeriod);
                         find_known A nPeriod nTimeStart cache r (q # vToCompute) } })"

declare find_known.simps [code]

text \<open>The loop that counts the blocks of a period that fulfil the condition.\<close>

fun count_condition :: "arena \<Rightarrow> (CBlockIndex \<Rightarrow> bool) \<Rightarrow> nat \<Rightarrow> ptr option \<Rightarrow> int option" where
  "count_condition A cond 0 pindexCount = Some 0"
| "count_condition A cond (Suc n) pindexCount =
     do { q \<leftarrow> pindexCount;
          b \<leftarrow> A q;
          k \<leftarrow> count_condition A cond n (pprev b);
          Some (if cond b then k + 1 else k) }"

definition next_state ::
    "arena \<Rightarrow> AbstractThresholdConditionChecker \<Rightarrow> Params \<Rightarrow> ptr \<Rightarrow> ThresholdState \<Rightarrow> ThresholdState option" where
  "next_state A chk params pindexPrev state =
     (case state of
        THRESHOLD_DEFINED \<Rightarrow>
          do { t \<leftarrow> GetMedianTimePast A pindexPrev;
               Some (if t \<ge> EndTime chk params then THRESHOLD_FAILED
                     else if t \<ge> BeginTime chk params then THRESHOLD_STARTED else state) }
      | THRESHOLD_STARTED \<Rightarrow>
          do { t \<leftarrow> GetMedianTimePast A pindexPrev;
               if t \<ge> EndTime chk params then Some THRESHOLD_FAILED
               else do {
                 count \<leftarrow> count_condition A (\<lambda>b. Condition chk b params) (nat (Period chk params)) (Some pindexPrev);
                 Some (if count \<ge> Threshold chk params then THRESHOLD_LOCKED_IN else state) } }
      | THRESHOLD_LOCKED_IN \<Rightarrow> Some THRESHOLD_ACTIVE
      | THRESHOLD_FAILED \<Rightarrow> Some state
      | THRESHOLD_ACTIVE \<Rightarrow> Some state)"

fun compute_forward ::
    "arena \<Rightarrow> AbstractThresholdConditionChecker \<Rightarrow> Params \<Rightarrow> ptr list \<Rightarrow> ThresholdState \<Rightarrow>
     ThresholdConditionCache \<Rightarrow> (ThresholdState \<times> ThresholdConditionCache) option" where
  "compute_forward A chk params [] state cache = Some (state, cache)"
| "compute_forward A chk params (pindexPrev # vToCompute) state cache =
     do { stateNext \<leftarrow> next_state A chk params pindexPrev state;
          compute_forward A chk params vToCompute stateNext (cache(Some pindexPrev \<mapsto> stateNext)) }"

definition GetStateFor ::
    "arena \<Rightarrow> AbstractThresholdConditionChecker \<Rightarrow> ptr option \<Rightarrow> Params \<Rightarrow> ThresholdConditionCache \<Rightarrow>
     (ThresholdState \<times> ThresholdConditionCache) option" where
  "GetStateFor A chk pindexPrev params cache =
     do { p \<leftarrow> (case pindexPrev of None \<Rightarrow> Some None | Some q \<Rightarrow> period_parent A (Period chk params) q);
          (known, vToCompute, cache) \<leftarrow>
            find_known A (Period chk params) (BeginTime chk params) cache p [];
          state \<leftarrow> cache known;
          compute_forward A chk params vToCompute state cache }"

section \<open>Statistics and the height of the last change\<close>

record BIP9Stats =
  stat_period :: int
  stat_threshold :: int
  stat_elapsed :: int
  stat_count :: int
  stat_possible :: bool

partial_function (option) count_period ::
    "arena \<Rightarrow> (CBlockIndex \<Rightarrow> bool) \<Rightarrow> int \<Rightarrow> ptr option \<Rightarrow> int \<Rightarrow> int option" where
  "count_period A cond endHeight currentIndex count =
     do { q \<leftarrow> currentIndex;
          b \<leftarrow> A q;
          if endHeight \<noteq> nHeight b
          then count_period A cond endHeight (pprev b) (if cond b then count + 1 else count)
          else Some count }"

declare count_period.simps [code]

definition GetStateStatisticsFor ::
    "arena \<Rightarrow> AbstractThresholdConditionChecker \<Rightarrow> ptr option \<Rightarrow> Params \<Rightarrow> BIP9Stats option" where
  "GetStateStatisticsFor A chk pindex params =
     (case pindex of
        None \<Rightarrow> Some \<lparr>stat_period = Period chk params, stat_threshold = Threshold chk params,
                     stat_elapsed = 0, stat_count = 0, stat_possible = False\<rparr>
      | Some p \<Rightarrow>
          do { b \<leftarrow> A p;
               e \<leftarrow> period_parent A (Period chk params) p;
               pindexEndOfPrevPeriod \<leftarrow> e;
               c \<leftarrow> A pindexEndOfPrevPeriod;
               count \<leftarrow> count_period A (\<lambda>b. Condition chk b params) (nHeight c) (Some p) 0;
               Some \<lparr>stat_period = Period chk params, stat_threshold = Threshold chk params,
                     stat_elapsed = nHeight b - nHeight c, stat_count = count,
                     stat_possible =
                       (Period chk params - Threshold chk params \<ge> (nHeight b - nHeight c) - count)\<rparr> })"

partial_function (option) since_loop ::
    "arena \<Rightarrow> AbstractThresholdConditionChecker \<Rightarrow> Params \<Rightarrow> ThresholdState \<Rightarrow> ptr \<Rightarrow> ptr option \<Rightarrow>
     ThresholdConditionCache \<Rightarrow> (ptr \<times> ThresholdConditionCache) option" where
  "since_loop A chk params initialState pindexPrev previousPeriodParent cache =
     (case previousPeriodParent of
        None \<Rightarrow> Some (pindexPrev, cache)
      | Some q \<Rightarrow>
          do { (state, cache) \<leftarrow> GetStateFor A chk (Some q) params cache;
               if state = initialState
               then do { b \<leftarrow> A q;
                         r \<leftarrow> GetAncestor A q (nHeight b - Period chk params);
                         since_loop A chk params initialState q r cache }
               else Some (pindexPrev, cache) })"

declare since_loop.simps [code]

definition GetStateSinceHeightFor ::
    "arena \<Rightarrow> AbstractThresholdConditionChecker \<Rightarrow> ptr option \<Rightarrow> Params \<Rightarrow> ThresholdConditionCache \<Rightarrow>
     (int \<times> ThresholdConditionCache) option" where
  "GetStateSinceHeightFor A chk pindexPrev params cache =
     do { (initialState, cache) \<leftarrow> GetStateFor A chk pindexPrev params cache;
          if initialState = THRESHOLD_DEFINED then Some (0, cache)
          else do {
            p \<leftarrow> pindexPrev;
            e \<leftarrow> period_parent A (Period chk params) p;
            q \<leftarrow> e;
            b \<leftarrow> A q;
            r \<leftarrow> GetAncestor A q (nHeight b - Period chk params);
            (q, cache) \<leftarrow> since_loop A chk params initialState q r cache;
            c \<leftarrow> A q;
            Some (nHeight c + 1, cache) } }"

section \<open>Version bits\<close>

text \<open>The bit positions of all deployments are below 32, so the shift is defined.\<close>

definition Mask :: "DeploymentPos \<Rightarrow> Params \<Rightarrow> uint32" where
  "Mask d params = push_bit (nat (bip9_bit (vDeployments params d))) 1"

definition VersionBitsConditionChecker :: "DeploymentPos \<Rightarrow> AbstractThresholdConditionChecker" where
  "VersionBitsConditionChecker d =
     \<lparr>Condition = (\<lambda>pindex params. word_of_int (nVersion pindex) AND Mask d params \<noteq> 0),
      BeginTime = (\<lambda>params. nStartTime (vDeployments params d)),
      EndTime = (\<lambda>params. nTimeout (vDeployments params d)),
      Period = (\<lambda>params.
        if nOverrideMinerConfirmationWindow (vDeployments params d) > 0
        then sint (nOverrideMinerConfirmationWindow (vDeployments params d))
        else sint (nMinerConfirmationWindow params)),
      Threshold = (\<lambda>params.
        if nOverrideRuleChangeActivationThreshold (vDeployments params d) > 0
        then sint (nOverrideRuleChangeActivationThreshold (vDeployments params d))
        else sint (nRuleChangeActivationThreshold params))\<rparr>"

type_synonym VersionBitsCache = "DeploymentPos \<Rightarrow> ThresholdConditionCache"

definition VersionBitsState ::
    "arena \<Rightarrow> ptr option \<Rightarrow> Params \<Rightarrow> DeploymentPos \<Rightarrow> VersionBitsCache \<Rightarrow> (ThresholdState \<times> VersionBitsCache) option" where
  "VersionBitsState A pindexPrev params d caches =
     do { (state, cache) \<leftarrow> GetStateFor A (VersionBitsConditionChecker d) pindexPrev params (caches d);
          Some (state, caches(d := cache)) }"

definition VersionBitsStatistics :: "arena \<Rightarrow> ptr option \<Rightarrow> Params \<Rightarrow> DeploymentPos \<Rightarrow> BIP9Stats option" where
  "VersionBitsStatistics A pindexPrev params d =
     GetStateStatisticsFor A (VersionBitsConditionChecker d) pindexPrev params"

definition VersionBitsStateSinceHeight ::
    "arena \<Rightarrow> ptr option \<Rightarrow> Params \<Rightarrow> DeploymentPos \<Rightarrow> VersionBitsCache \<Rightarrow> (int \<times> VersionBitsCache) option" where
  "VersionBitsStateSinceHeight A pindexPrev params d caches =
     do { (h, cache) \<leftarrow> GetStateSinceHeightFor A (VersionBitsConditionChecker d) pindexPrev params (caches d);
          Some (h, caches(d := cache)) }"

definition VersionBitsMask :: "Params \<Rightarrow> DeploymentPos \<Rightarrow> uint32" where
  "VersionBitsMask params d = Mask d params"

definition VersionBitsCache_Clear :: "VersionBitsCache \<Rightarrow> VersionBitsCache" where
  "VersionBitsCache_Clear caches = (\<lambda>d. Map.empty)"

section \<open>BIP 9\<close>

text \<open>
  The step relation of the deployment state, and the transition as a function of what a period shows:
  the median time at its end and the number of signalling blocks.
\<close>

inductive bip9_step :: "ThresholdState \<Rightarrow> ThresholdState \<Rightarrow> bool" where
  start: "bip9_step THRESHOLD_DEFINED THRESHOLD_STARTED"
| expire: "bip9_step THRESHOLD_DEFINED THRESHOLD_FAILED"
| lock_in: "bip9_step THRESHOLD_STARTED THRESHOLD_LOCKED_IN"
| timeout: "bip9_step THRESHOLD_STARTED THRESHOLD_FAILED"
| activate: "bip9_step THRESHOLD_LOCKED_IN THRESHOLD_ACTIVE"

inductive_simps bip9_step_from:
  "bip9_step THRESHOLD_ACTIVE s" "bip9_step THRESHOLD_FAILED s"

definition bip9_next ::
    "AbstractThresholdConditionChecker \<Rightarrow> Params \<Rightarrow> int \<Rightarrow> int \<Rightarrow> ThresholdState \<Rightarrow> ThresholdState" where
  "bip9_next chk params t signals s =
     (case s of
        THRESHOLD_DEFINED \<Rightarrow>
          if EndTime chk params \<le> t then THRESHOLD_FAILED
          else if BeginTime chk params \<le> t then THRESHOLD_STARTED else THRESHOLD_DEFINED
      | THRESHOLD_STARTED \<Rightarrow>
          if EndTime chk params \<le> t then THRESHOLD_FAILED
          else if Threshold chk params \<le> signals then THRESHOLD_LOCKED_IN else THRESHOLD_STARTED
      | THRESHOLD_LOCKED_IN \<Rightarrow> THRESHOLD_ACTIVE
      | _ \<Rightarrow> s)"

lemma bip9_next_step: "bip9_next chk params t n s = s \<or> bip9_step s (bip9_next chk params t n s)"
  by (cases s) (auto simp: bip9_next_def intro: bip9_step.intros)

lemma bip9_terminal:
  "bip9_step\<^sup>*\<^sup>* s s' \<Longrightarrow> s = THRESHOLD_ACTIVE \<or> s = THRESHOLD_FAILED \<Longrightarrow> s' = s"
  by (induction rule: rtranclp_induct) (auto simp: bip9_step_from)

text \<open>Once a state is left it does not come back.\<close>

fun bip9_rank :: "ThresholdState \<Rightarrow> nat" where
  "bip9_rank THRESHOLD_DEFINED = 0"
| "bip9_rank THRESHOLD_STARTED = 1"
| "bip9_rank THRESHOLD_LOCKED_IN = 2"
| "bip9_rank THRESHOLD_ACTIVE = 3"
| "bip9_rank THRESHOLD_FAILED = 3"

lemma bip9_step_rank: "bip9_step s s' \<Longrightarrow> bip9_rank s < bip9_rank s'"
  by (cases rule: bip9_step.cases) auto

definition mtp :: "arena \<Rightarrow> ptr \<Rightarrow> int" where
  "mtp A q = the (GetMedianTimePast A q)"

definition signals :: "arena \<Rightarrow> (CBlockIndex \<Rightarrow> bool) \<Rightarrow> int \<Rightarrow> ptr \<Rightarrow> int" where
  "signals A cond n q = int (length (filter cond (last_blocks A (nat n) q)))"

text \<open>The state of period \<open>k\<close> on the branch that ends at \<open>p\<close>, from the genesis block on.\<close>

fun bip9_state :: "arena \<Rightarrow> AbstractThresholdConditionChecker \<Rightarrow> Params \<Rightarrow> nat \<Rightarrow> ptr \<Rightarrow> ThresholdState" where
  "bip9_state A chk params 0 p = THRESHOLD_DEFINED"
| "bip9_state A chk params (Suc k) p =
     (case ancestor_at A p (int (Suc k) * Period chk params - 1) of
        None \<Rightarrow> bip9_state A chk params k p
      | Some r \<Rightarrow> bip9_next chk params (mtp A r) (signals A (\<lambda>b. Condition chk b params) (Period chk params) r)
                    (bip9_state A chk params k p))"

definition period_of :: "arena \<Rightarrow> AbstractThresholdConditionChecker \<Rightarrow> Params \<Rightarrow> ptr \<Rightarrow> nat" where
  "period_of A chk params p = nat ((nHeight (the (A p)) + 1) div Period chk params)"

definition state_after :: "arena \<Rightarrow> AbstractThresholdConditionChecker \<Rightarrow> Params \<Rightarrow> ptr option \<Rightarrow> ThresholdState" where
  "state_after A chk params p =
     (case p of None \<Rightarrow> THRESHOLD_DEFINED | Some q \<Rightarrow> bip9_state A chk params (period_of A chk params q) q)"

definition times_ok :: "arena \<Rightarrow> bool" where
  "times_ok A \<longleftrightarrow> (\<forall>p b q. A p = Some b \<longrightarrow> pprev b = Some q \<longrightarrow> mtp A q \<le> GetBlockTime b)"

definition valid_checker :: "AbstractThresholdConditionChecker \<Rightarrow> Params \<Rightarrow> bool" where
  "valid_checker chk params \<longleftrightarrow> 0 < Period chk params \<and> BeginTime chk params \<le> EndTime chk params"

definition in_tree :: "arena \<Rightarrow> ptr option \<Rightarrow> bool" where
  "in_tree A p = (case p of None \<Rightarrow> True | Some q \<Rightarrow> A q \<noteq> None)"

definition cache_ok :: "arena \<Rightarrow> AbstractThresholdConditionChecker \<Rightarrow> Params \<Rightarrow> ThresholdConditionCache \<Rightarrow> bool" where
  "cache_ok A chk params cache \<longleftrightarrow> (\<forall>p s. cache p = Some s \<longrightarrow> s = state_after A chk params p)"

lemma cache_ok_empty [simp]: "cache_ok A chk params Map.empty"
  by (simp add: cache_ok_def)

lemma cache_okD: "cache_ok A chk params cache \<Longrightarrow> cache p = Some s \<Longrightarrow> s = state_after A chk params p"
  by (simp add: cache_ok_def)

lemma cache_ok_update [simp]:
  "cache_ok A chk params cache \<Longrightarrow> s = state_after A chk params p \<Longrightarrow> cache_ok A chk params (cache(p \<mapsto> s))"
  by (simp add: cache_ok_def)

section \<open>The loops against the reference\<close>

lemma mtp_Some: "wf_index A \<Longrightarrow> A q = Some b \<Longrightarrow> GetMedianTimePast A q = Some (mtp A q)"
  using GetMedianTimePast_total [of A q b] by (auto simp: mtp_def)

lemma mtp_nth_prev:
  assumes wf: "wf_index A" and ok: "times_ok A"
  shows "A p = Some b \<Longrightarrow> nth_prev A n p = Some q \<Longrightarrow> mtp A q \<le> mtp A p"
proof (induction n arbitrary: p b)
  case (Suc n)
  then obtain r where r: "pprev b = Some r" "nth_prev A n r = Some q" by (auto split: bind_splits)
  obtain c where c: "A r = Some c" using wf_index_pprev_Some [OF wf Suc.prems(1) r(1)] by blast
  have "mtp A r \<le> GetBlockTime b" using ok Suc.prems(1) r(1) by (auto simp: times_ok_def)
  then have "mtp A r \<le> mtp A p"
    using GetMedianTimePast_mono [OF wf Suc.prems(1) r(1) mtp_Some [OF wf c]] by (auto simp: mtp_def)
  then show ?case using Suc.IH [OF c r(2)] by simp
qed simp

lemma mtp_ancestor:
  assumes "wf_index A" "times_ok A" "ancestor_at A p h = Some q"
  shows "mtp A q \<le> mtp A p"
  using assms mtp_nth_prev [OF assms(1,2)] by (auto simp: ancestor_at_def split: bind_splits if_splits)

lemma count_condition_correct:
  assumes wf: "wf_index A"
  shows "A p = Some b \<Longrightarrow> int n \<le> nHeight b + 1 \<Longrightarrow>
    count_condition A cond n (Some p) = Some (int (length (filter cond (last_blocks A n p))))"
proof (induction n arbitrary: p b)
  case (Suc n)
  show ?case
  proof (cases "pprev b")
    case None
    then have "n = 0" using wf_index_pprev_None [OF wf Suc.prems(1)] Suc.prems(2) by simp
    then show ?thesis using Suc.prems(1) None by simp
  next
    case (Some q)
    then obtain c where "A q = Some c" "nHeight c = nHeight b - 1"
      using wf_index_pprev_Some [OF wf Suc.prems(1)] by blast
    then show ?thesis using Suc Some by simp
  qed
qed simp

lemma next_state_correct:
  assumes wf: "wf_index A" and p: "A p = Some b" and n: "0 < Period chk params" "Period chk params \<le> nHeight b + 1"
  shows "next_state A chk params p s =
    Some (bip9_next chk params (mtp A p) (signals A (\<lambda>b. Condition chk b params) (Period chk params) p) s)"
  using count_condition_correct [OF wf p, of "nat (Period chk params)"] n
  by (cases s) (simp_all add: next_state_def bip9_next_def mtp_Some [OF wf p] signals_def)

text \<open>The state of a period depends only on its branch up to its last block.\<close>

lemma bip9_state_ancestor:
  assumes wf: "wf_index A" and q: "ancestor_at A p h = Some q" and n: "0 < Period chk params"
  shows "int k * Period chk params \<le> h + 1 \<Longrightarrow> bip9_state A chk params k p = bip9_state A chk params k q"
proof (induction k)
  case (Suc k)
  have "int (Suc k) * Period chk params - 1 \<le> h" "0 \<le> int (Suc k) * Period chk params - 1"
    using Suc.prems n mult_pos_pos [of "int (Suc k)" "Period chk params"] by simp_all
  then have "ancestor_at A q (int (Suc k) * Period chk params - 1) = ancestor_at A p (int (Suc k) * Period chk params - 1)"
    using ancestor_at_trans [OF wf q] by simp
  moreover have "int k * Period chk params \<le> h + 1" using Suc.prems n by (simp add: distrib_right)
  ultimately show ?case using Suc.IH by (simp split: option.split)
qed simp

text \<open>Before the start time a deployment is defined, whatever its history.\<close>

lemma bip9_state_before:
  assumes wf: "wf_index A" and ok: "times_ok A" and v: "valid_checker chk params" and t: "mtp A p < BeginTime chk params"
  shows "bip9_state A chk params k p = THRESHOLD_DEFINED"
proof (induction k)
  case (Suc k)
  have "mtp A r < EndTime chk params \<and> mtp A r < BeginTime chk params"
    if "ancestor_at A p (int (Suc k) * Period chk params - 1) = Some r" for r
    using mtp_ancestor [OF wf ok that] t v by (auto simp: valid_checker_def)
  then show ?case using Suc by (fastforce simp: bip9_next_def split: option.split)
qed simp

text \<open>\<open>at_period\<close>: the block is the last one of its period, the \<open>k\<close>-th; \<open>nullptr\<close> stands before the first.\<close>

definition at_period :: "arena \<Rightarrow> int \<Rightarrow> nat \<Rightarrow> ptr option \<Rightarrow> bool" where
  "at_period A n k p \<longleftrightarrow>
     (case p of None \<Rightarrow> k = 0 | Some q \<Rightarrow> 0 < k \<and> (\<exists>b. A q = Some b \<and> nHeight b + 1 = int k * n))"

lemma at_period_None [simp]: "at_period A n k None \<longleftrightarrow> k = 0"
  by (simp add: at_period_def)

lemma state_at_period:
  assumes "at_period A (Period chk params) k (Some q)" "0 < Period chk params"
  shows "state_after A chk params (Some q) = bip9_state A chk params k q"
  using assms by (auto simp: at_period_def state_after_def period_of_def)

lemma at_period_back:
  assumes wf: "wf_index A" and p: "at_period A n (Suc k) (Some q)" "A q = Some b" and n: "0 < n"
  shows "at_period A n k (ancestor_at A q (nHeight b - n))"
proof (cases k)
  case 0
  then have "nHeight b - n < 0" using p by (simp add: at_period_def)
  then show ?thesis using 0 by (simp add: ancestor_at_def p(2))
next
  case (Suc j)
  have h: "nHeight b - n + 1 = int k * n" using p by (simp add: at_period_def distrib_right)
  then have "0 < nHeight b - n + 1" using Suc n by simp
  then obtain r c where "ancestor_at A q (nHeight b - n) = Some r" "A r = Some c" "nHeight c = nHeight b - n"
    using ancestor_at_Some [OF wf p(2), of "nHeight b - n"] n by auto
  then show ?thesis using h Suc by (simp add: at_period_def)
qed

lemma state_at_period_Suc:
  assumes wf: "wf_index A" and p: "at_period A (Period chk params) (Suc k) (Some q)" "A q = Some b" and n: "0 < Period chk params"
  shows "state_after A chk params (Some q) =
    bip9_next chk params (mtp A q) (signals A (\<lambda>b. Condition chk b params) (Period chk params) q)
      (state_after A chk params (ancestor_at A q (nHeight b - Period chk params)))"
proof -
  have h: "nHeight b = int (Suc k) * Period chk params - 1" using p by (auto simp: at_period_def)
  have self: "ancestor_at A q (int (Suc k) * Period chk params - 1) = Some q"
    using ancestor_at_self [of A q b] wf_index_height [OF wf p(2)] p(2) h by simp
  have "bip9_state A chk params k q = state_after A chk params (ancestor_at A q (nHeight b - Period chk params))"
  proof (cases "ancestor_at A q (nHeight b - Period chk params)")
    case None
    then show ?thesis using at_period_back [OF wf p n] by (simp add: state_after_def)
  next
    case (Some r)
    have "int k * Period chk params \<le> nHeight b - Period chk params + 1" using h by (simp add: distrib_right)
    then show ?thesis
      using bip9_state_ancestor [OF wf Some n] state_at_period [OF _ n, of A k r] at_period_back [OF wf p n] Some by simp
  qed
  then show ?thesis using state_at_period [OF p(1) n] self by simp
qed

lemma find_known_correct:
  assumes wf: "wf_index A" and ok: "times_ok A" and v: "valid_checker chk params"
  shows "at_period A (Period chk params) k p \<Longrightarrow> cache_ok A chk params cache \<Longrightarrow>
    \<exists>known todo c s c'. find_known A (Period chk params) (BeginTime chk params) cache p acc = Some (known, todo, c) \<and>
      c known = Some s \<and> cache_ok A chk params c' \<and>
      compute_forward A chk params todo s c = compute_forward A chk params acc (state_after A chk params p) c'"
proof (induction k arbitrary: p acc)
  case 0
  then have "p = None" by (auto simp: at_period_def split: option.splits)
  moreover have "state_after A chk params None = THRESHOLD_DEFINED" by (simp add: state_after_def)
  moreover have "find_known A (Period chk params) (BeginTime chk params) cache None acc =
      Some (None, acc, if cache None \<noteq> None then cache else cache(None \<mapsto> THRESHOLD_DEFINED))"
    by (subst find_known.simps) simp
  moreover have "\<exists>s. (if cache None \<noteq> None then cache else cache(None \<mapsto> THRESHOLD_DEFINED)) None = Some s \<and>
      s = state_after A chk params None"
    using calculation cache_okD [OF 0(2), of None] by auto
  moreover have "cache_ok A chk params (if cache None \<noteq> None then cache else cache(None \<mapsto> THRESHOLD_DEFINED))"
    using calculation 0(2) by simp
  ultimately show ?case by metis
next
  case (Suc k)
  have n: "0 < Period chk params" using v by (simp add: valid_checker_def)
  obtain q b where p: "p = Some q" "A q = Some b" "nHeight b + 1 = int (Suc k) * Period chk params"
    using Suc.prems(1) by (auto simp: at_period_def split: option.splits)
  let ?r = "ancestor_at A q (nHeight b - Period chk params)"
  have at: "at_period A (Period chk params) (Suc k) (Some q)" using Suc.prems(1) p(1) by simp
  show ?case
  proof (cases "cache p \<noteq> None")
    case True
    then have "find_known A (Period chk params) (BeginTime chk params) cache p acc = Some (p, acc, cache)"
      by (subst find_known.simps) simp
    then show ?thesis using True Suc.prems(2) cache_okD [OF Suc.prems(2), of p] by auto
  next
    case unknown: False
    show ?thesis
    proof (cases "mtp A q < BeginTime chk params")
      case True
      then have "state_after A chk params p = THRESHOLD_DEFINED"
        using bip9_state_before [OF wf ok v True] p(1) by (simp add: state_after_def)
      then show ?thesis
        using unknown True p mtp_Some [OF wf p(2)] cache_ok_update [OF Suc.prems(2), of THRESHOLD_DEFINED p]
        by (subst find_known.simps) (auto intro!: exI [of _ THRESHOLD_DEFINED])
    next
      case False
      have "Period chk params \<le> nHeight b + 1" using p(3) n by (simp add: distrib_right)
      then have step: "next_state A chk params q (state_after A chk params ?r) = Some (state_after A chk params p)"
        using next_state_correct [OF wf p(2) n] state_at_period_Suc [OF wf at p(2) n] p(1) by simp
      obtain known todo c s c' where IH:
        "find_known A (Period chk params) (BeginTime chk params) cache ?r (q # acc) = Some (known, todo, c)"
        "c known = Some s" "cache_ok A chk params c'"
        "compute_forward A chk params todo s c = compute_forward A chk params (q # acc) (state_after A chk params ?r) c'"
        using Suc.IH [OF at_period_back [OF wf at p(2) n] Suc.prems(2), of "q # acc"] by blast
      have "find_known A (Period chk params) (BeginTime chk params) cache p acc = Some (known, todo, c)"
        using unknown False p IH(1) mtp_Some [OF wf p(2)] GetAncestor_correct [OF wf p(2)]
        by (subst find_known.simps) auto
      moreover have "cache_ok A chk params (c'(p \<mapsto> state_after A chk params p))" using IH(3) by simp
      ultimately show ?thesis using IH(2,4) step p(1) by auto
    qed
  qed
qed

lemma period_parent_correct:
  assumes wf: "wf_index A" and p: "A p = Some b" and n: "0 < n"
  shows "period_parent A n p = Some (ancestor_at A p (nHeight b - (nHeight b + 1) mod n))"
    and "at_period A n (nat ((nHeight b + 1) div n)) (ancestor_at A p (nHeight b - (nHeight b + 1) mod n))"
proof -
  have h: "0 \<le> nHeight b" by (rule wf_index_height [OF wf p])
  show "period_parent A n p = Some (ancestor_at A p (nHeight b - (nHeight b + 1) mod n))"
    using h n by (simp add: period_parent_def p c_mod_pos GetAncestor_correct [OF wf p])
  let ?k = "(nHeight b + 1) div n" and ?h = "nHeight b - (nHeight b + 1) mod n"
  have eq: "?h + 1 = ?k * n" using minus_mod_eq_div_mult [of "nHeight b + 1" n] by simp
  have k: "0 \<le> ?k" using h n by (simp add: pos_imp_zdiv_nonneg_iff)
  show "at_period A n (nat ?k) (ancestor_at A p ?h)"
  proof (cases "?k = 0")
    case True
    then have "?h < 0" using eq by simp
    then show ?thesis using True by (simp add: ancestor_at_def p)
  next
    case False
    then have "0 < ?k * n" using k n by simp
    then obtain r c where "ancestor_at A p ?h = Some r" "A r = Some c" "nHeight c = ?h"
      using ancestor_at_Some [OF wf p, of ?h] eq pos_mod_sign [OF n, of "nHeight b + 1"] by auto
    then show ?thesis using eq k False by (simp add: at_period_def)
  qed
qed

lemma state_after_period_parent:
  assumes wf: "wf_index A" and p: "A p = Some b" and n: "0 < Period chk params"
  shows "state_after A chk params (ancestor_at A p (nHeight b - (nHeight b + 1) mod Period chk params)) =
    state_after A chk params (Some p)"
proof -
  let ?n = "Period chk params"
  let ?h = "nHeight b - (nHeight b + 1) mod ?n"
  have at: "at_period A ?n (period_of A chk params p) (ancestor_at A p ?h)"
    using period_parent_correct(2) [OF wf p n] by (simp add: period_of_def p)
  show ?thesis
  proof (cases "ancestor_at A p ?h")
    case None
    then show ?thesis using at by (simp add: state_after_def)
  next
    case (Some r)
    have "int (period_of A chk params p) * ?n \<le> ?h + 1"
      using minus_mod_eq_div_mult [of "nHeight b + 1" ?n] wf_index_height [OF wf p] n
      by (simp add: period_of_def p pos_imp_zdiv_nonneg_iff)
    then show ?thesis
      using bip9_state_ancestor [OF wf Some n] state_at_period [OF at [unfolded Some] n] Some
      by (simp add: state_after_def)
  qed
qed

lemma GetStateFor_correct:
  assumes wf: "wf_index A" and ok: "times_ok A" and v: "valid_checker chk params"
    and p: "in_tree A p" and c: "cache_ok A chk params cache"
  shows "\<exists>c'. GetStateFor A chk p params cache = Some (state_after A chk params p, c') \<and> cache_ok A chk params c'"
proof -
  have n: "0 < Period chk params" using v by (simp add: valid_checker_def)
  obtain k r where r: "(case p of None \<Rightarrow> Some None | Some q \<Rightarrow> period_parent A (Period chk params) q) = Some r"
    "at_period A (Period chk params) k r" "state_after A chk params r = state_after A chk params p"
  proof (cases p)
    case (Some q)
    then obtain b where "A q = Some b" using p by (auto simp: in_tree_def)
    then show ?thesis
      using that [OF _ period_parent_correct(2) [OF wf _ n] state_after_period_parent [OF wf _ n, THEN trans]]
        period_parent_correct(1) [OF wf _ n] Some by simp
  qed (use that in simp)
  show ?thesis
    using find_known_correct [OF wf ok v r(2) c, of "[]"] r(1,3) by (auto simp: GetStateFor_def)
qed

lemma since_loop_correct:
  assumes wf: "wf_index A" and ok: "times_ok A" and v: "valid_checker chk params" and s: "s \<noteq> THRESHOLD_DEFINED"
  shows "at_period A (Period chk params) k (Some q) \<Longrightarrow> A q = Some b \<Longrightarrow> bip9_state A chk params k q = s \<Longrightarrow>
    cache_ok A chk params cache \<Longrightarrow>
    \<exists>q' b' c' j. since_loop A chk params s q (ancestor_at A q (nHeight b - Period chk params)) cache = Some (q', c') \<and>
      cache_ok A chk params c' \<and> A q' = Some b' \<and> nHeight b' + 1 = int j * Period chk params \<and> 0 < j \<and> j \<le> k \<and>
      (\<forall>i. j \<le> i \<longrightarrow> i \<le> k \<longrightarrow> bip9_state A chk params i q = s) \<and> bip9_state A chk params (j - 1) q \<noteq> s"
proof (induction k arbitrary: q b cache)
  case (Suc k)
  have n: "0 < Period chk params" using v by (simp add: valid_checker_def)
  let ?r = "ancestor_at A q (nHeight b - Period chk params)"
  have h: "nHeight b + 1 = int (Suc k) * Period chk params" using Suc.prems(1,2) by (simp add: at_period_def)
  have stop: "\<exists>q' b' c' j. Some (q, c) = Some (q', c') \<and>
      cache_ok A chk params c' \<and> A q' = Some b' \<and> nHeight b' + 1 = int j * Period chk params \<and> 0 < j \<and> j \<le> Suc k \<and>
      (\<forall>i. j \<le> i \<longrightarrow> i \<le> Suc k \<longrightarrow> bip9_state A chk params i q = s) \<and> bip9_state A chk params (j - 1) q \<noteq> s"
    if "bip9_state A chk params k q \<noteq> s" "cache_ok A chk params c" for c
  proof (intro exI conjI)
    show "\<forall>i. Suc k \<le> i \<longrightarrow> i \<le> Suc k \<longrightarrow> bip9_state A chk params i q = s"
      using Suc.prems(3) by (metis le_antisym)
  qed (use that Suc.prems(2) h in simp_all)
  show ?case
  proof (cases ?r)
    case None
    then have "k = 0" using at_period_back [OF wf Suc.prems(1,2) n] by simp
    then have "bip9_state A chk params k q \<noteq> s" using s by auto
    then show ?thesis using stop [OF _ Suc.prems(4)] None by (subst since_loop.simps) simp
  next
    case (Some r)
    have at: "at_period A (Period chk params) k (Some r)" using at_period_back [OF wf Suc.prems(1,2) n] Some by simp
    then obtain c where r: "A r = Some c" by (auto simp: at_period_def)
    have below: "bip9_state A chk params i r = bip9_state A chk params i q" if "i \<le> k" for i
    proof -
      have "int i * Period chk params \<le> int k * Period chk params" using that n by simp
      then show ?thesis using bip9_state_ancestor [OF wf Some n, of i] h by (simp add: distrib_right)
    qed
    obtain c' where c': "GetStateFor A chk (Some r) params cache = Some (bip9_state A chk params k q, c')"
        "cache_ok A chk params c'"
      using GetStateFor_correct [OF wf ok v, of "Some r" cache] r Suc.prems(4) state_at_period [OF at n] below [of k]
      by (auto simp: in_tree_def)
    show ?thesis
    proof (cases "bip9_state A chk params k q = s")
      case False
      then show ?thesis using stop [OF False c'(2)] c'(1) Some by (subst since_loop.simps) simp
    next
      case True
      obtain q' b' c'' j where IH:
        "since_loop A chk params s r (ancestor_at A r (nHeight c - Period chk params)) c' = Some (q', c'')"
        "cache_ok A chk params c''" "A q' = Some b'" "nHeight b' + 1 = int j * Period chk params" "0 < j" "j \<le> k"
        "\<forall>i. j \<le> i \<longrightarrow> i \<le> k \<longrightarrow> bip9_state A chk params i r = s" "bip9_state A chk params (j - 1) r \<noteq> s"
        using Suc.IH [OF at r _ c'(2)] True below [of k] by auto
      have "since_loop A chk params s q ?r cache = Some (q', c'')"
        using IH(1) c'(1) True Some r GetAncestor_correct [OF wf r] by (subst since_loop.simps) simp
      moreover have "bip9_state A chk params i q = s" if "j \<le> i" "i \<le> Suc k" for i
        using that IH(7) below [of i] Suc.prems(3) by (metis le_Suc_eq)
      moreover have "bip9_state A chk params (j - 1) q \<noteq> s" using IH(6,8) below [of "j - 1"] by simp
      ultimately show ?thesis using IH(2-6) le_SucI by blast
    qed
  qed
qed (simp add: at_period_def)

lemma count_period_correct:
  assumes wf: "wf_index A" and e: "0 \<le> e"
  shows "A p = Some b \<Longrightarrow> e \<le> nHeight b \<Longrightarrow>
    count_period A cond e (Some p) count = Some (count + int (length (filter cond (last_blocks A (nat (nHeight b - e)) p))))"
proof (induction "nat (nHeight b - e)" arbitrary: p b count)
  case 0
  then show ?case by (subst count_period.simps) simp
next
  case (Suc n)
  then obtain q where q: "pprev b = Some q"
    using wf_index_pprev_None [OF wf Suc.prems(1)] e by (cases "pprev b") auto
  obtain c where c: "A q = Some c" "nHeight c = nHeight b - 1"
    using wf_index_pprev_Some [OF wf Suc.prems(1) q] by blast
  have n: "n = nat (nHeight c - e)" "nat (nHeight b - e) = Suc n" using Suc.hyps(2) c(2) by simp_all
  have "e \<noteq> nHeight b" "e \<le> nHeight c" using Suc.hyps(2) c(2) by auto
  then show ?case
    using Suc.hyps(1) [OF n(1) c(1)] Suc.prems(1) q c(1) n by (subst count_period.simps) simp
qed

lemma GetStateStatisticsFor_correct:
  assumes wf: "wf_index A" and v: "valid_checker chk params" and p: "A p = Some b"
  shows "nHeight b + 1 < Period chk params \<Longrightarrow> GetStateStatisticsFor A chk (Some p) params = None"
    and "Period chk params \<le> nHeight b + 1 \<Longrightarrow>
      \<exists>st. GetStateStatisticsFor A chk (Some p) params = Some st \<and>
        stat_elapsed st = (nHeight b + 1) mod Period chk params \<and>
        stat_count st = signals A (\<lambda>b. Condition chk b params) (stat_elapsed st) p \<and>
        stat_period st = Period chk params \<and> stat_threshold st = Threshold chk params \<and>
        stat_possible st = (Threshold chk params \<le> stat_count st + (Period chk params - stat_elapsed st))"
proof -
  let ?n = "Period chk params"
  let ?h = "nHeight b - (nHeight b + 1) mod ?n"
  have n: "0 < ?n" using v by (simp add: valid_checker_def)
  have h: "0 \<le> nHeight b" by (rule wf_index_height [OF wf p])
  { assume "nHeight b + 1 < ?n"
    then have "ancestor_at A p ?h = None" using h by (simp add: ancestor_at_def p)
    then show "GetStateStatisticsFor A chk (Some p) params = None"
      using period_parent_correct(1) [OF wf p n] by (simp add: GetStateStatisticsFor_def p) }
  assume "?n \<le> nHeight b + 1"
  then have "0 < (nHeight b + 1) div ?n" using n by (simp add: pos_imp_zdiv_pos_iff)
  then have "0 < (nHeight b + 1) div ?n * ?n" using n by simp
  then have h0: "0 \<le> ?h" "?h \<le> nHeight b" using minus_mod_eq_div_mult [of "nHeight b + 1" ?n] n by simp_all
  obtain e c where e: "ancestor_at A p ?h = Some e" "A e = Some c" "nHeight c = ?h"
    using ancestor_at_Some [OF wf p h0] by blast
  show "\<exists>st. GetStateStatisticsFor A chk (Some p) params = Some st \<and>
        stat_elapsed st = (nHeight b + 1) mod ?n \<and>
        stat_count st = signals A (\<lambda>b. Condition chk b params) (stat_elapsed st) p \<and>
        stat_period st = ?n \<and> stat_threshold st = Threshold chk params \<and>
        stat_possible st = (Threshold chk params \<le> stat_count st + (?n - stat_elapsed st))"
    using e period_parent_correct(1) [OF wf p n] count_period_correct [OF wf h0(1) p h0(2)]
    by (auto simp: GetStateStatisticsFor_def p signals_def)
qed

lemma bip9_state_mono: "j \<le> k \<Longrightarrow> bip9_step\<^sup>*\<^sup>* (bip9_state A chk params j p) (bip9_state A chk params k p)"
proof (induction rule: dec_induct)
  case (step k)
  have "bip9_step\<^sup>*\<^sup>* (bip9_state A chk params k p) (bip9_state A chk params (Suc k) p)"
    using bip9_next_step [of chk params _ _ "bip9_state A chk params k p"]
    by (auto split: option.split dest: r_into_rtranclp) (metis r_into_rtranclp rtranclp.rtrancl_refl)
  then show ?case using step.IH by (rule rtranclp_trans [rotated])
qed simp

lemma state_after_ancestor:
  assumes wf: "wf_index A" and q: "ancestor_at A p h = Some q" and n: "0 < Period chk params"
  shows "bip9_step\<^sup>*\<^sup>* (state_after A chk params (Some q)) (state_after A chk params (Some p))"
proof -
  obtain b where b: "A p = Some b" "0 \<le> h" "h \<le> nHeight b"
    using q by (auto simp: ancestor_at_def split: bind_splits if_splits)
  obtain c where c: "A q = Some c" "nHeight c = h" using ancestor_at_Some [OF wf b] q by auto
  let ?j = "period_of A chk params q"
  have "int ?j * Period chk params \<le> h + 1"
    using int_mult_div_le [OF n, of "h + 1"] b(2) n
    by (simp add: period_of_def c pos_imp_zdiv_nonneg_iff mult.commute)
  then have "bip9_state A chk params ?j q = bip9_state A chk params ?j p"
    using bip9_state_ancestor [OF wf q n] by simp
  moreover have "?j \<le> period_of A chk params p"
    using zdiv_mono1 [of "h + 1" "nHeight b + 1" "Period chk params"] b n by (simp add: period_of_def c)
  ultimately show ?thesis by (simp add: state_after_def bip9_state_mono)
qed

text \<open>All deployments of the three networks have a positive period and do not end before they start.\<close>

lemma networks_valid_checkers:
  "valid_checker (VersionBitsConditionChecker d) main_consensus"
  "valid_checker (VersionBitsConditionChecker d) test_consensus"
  "valid_checker (VersionBitsConditionChecker d) regtest_consensus"
  by (cases d; simp add: valid_checker_def VersionBitsConditionChecker_def main_consensus_def test_consensus_def
      regtest_consensus_def)+

definition vb_cache_ok :: "arena \<Rightarrow> Params \<Rightarrow> VersionBitsCache \<Rightarrow> bool" where
  "vb_cache_ok A params caches \<longleftrightarrow> (\<forall>d. cache_ok A (VersionBitsConditionChecker d) params (caches d))"

lemma VersionBitsState_correct:
  assumes "wf_index A" "times_ok A" "valid_checker (VersionBitsConditionChecker d) params" "in_tree A p"
    and "vb_cache_ok A params caches"
  shows "\<exists>caches'. VersionBitsState A p params d caches =
      Some (state_after A (VersionBitsConditionChecker d) params p, caches') \<and>
    vb_cache_ok A params caches' \<and> (\<forall>d'. d' \<noteq> d \<longrightarrow> caches' d' = caches d')"
  using GetStateFor_correct [OF assms(1-4), of "caches d"] assms(5)
  by (auto simp: VersionBitsState_def vb_cache_ok_def)

lemma GetStateSinceHeightFor_correct:
  assumes wf: "wf_index A" and ok: "times_ok A" and v: "valid_checker chk params" and p: "A p = Some b"
    and c: "cache_ok A chk params cache"
  defines "k \<equiv> period_of A chk params p"
  shows "\<exists>h c'. GetStateSinceHeightFor A chk (Some p) params cache = Some (h, c') \<and> cache_ok A chk params c' \<and>
    (if bip9_state A chk params k p = THRESHOLD_DEFINED then h = 0
     else \<exists>j. h = int j * Period chk params \<and> 0 < j \<and> j \<le> k \<and>
       (\<forall>i. j \<le> i \<longrightarrow> i \<le> k \<longrightarrow> bip9_state A chk params i p = bip9_state A chk params k p) \<and>
       bip9_state A chk params (j - 1) p \<noteq> bip9_state A chk params k p)"
proof -
  let ?n = "Period chk params" and ?s = "bip9_state A chk params k p"
  let ?e = "ancestor_at A p (nHeight b - (nHeight b + 1) mod Period chk params)"
  have n: "0 < ?n" using v by (simp add: valid_checker_def)
  obtain c1 where c1: "GetStateFor A chk (Some p) params cache = Some (?s, c1)" "cache_ok A chk params c1"
    using GetStateFor_correct [OF wf ok v _ c, of "Some p"] p by (auto simp: in_tree_def state_after_def k_def)
  show ?thesis
  proof (cases "?s = THRESHOLD_DEFINED")
    case True
    then show ?thesis using c1 by (simp add: GetStateSinceHeightFor_def)
  next
    case False
    have at: "at_period A ?n k ?e"
      using period_parent_correct(2) [OF wf p n] by (simp add: k_def period_of_def p)
    have "0 < k" using False by (cases k) auto
    then obtain q c where q: "?e = Some q" "A q = Some c" "nHeight c + 1 = int k * ?n"
      using at by (auto simp: at_period_def split: option.splits)
    have below: "bip9_state A chk params i p = bip9_state A chk params i q" if "i \<le> k" for i
    proof -
      have "int i * ?n \<le> nHeight c + 1" unfolding q(3) using that n by simp
      moreover have "nHeight c = nHeight b - (nHeight b + 1) mod ?n"
        using q(3) minus_mod_eq_div_mult [of "nHeight b + 1" ?n] wf_index_height [OF wf p] n
        by (simp add: k_def period_of_def p pos_imp_zdiv_nonneg_iff)
      ultimately show ?thesis using bip9_state_ancestor [OF wf q(1) n, of i] by simp
    qed
    obtain q' b' c' j where r:
      "since_loop A chk params ?s q (ancestor_at A q (nHeight c - ?n)) c1 = Some (q', c')"
      "cache_ok A chk params c'" "A q' = Some b'" "nHeight b' + 1 = int j * ?n" "0 < j" "j \<le> k"
      "\<forall>i. j \<le> i \<longrightarrow> i \<le> k \<longrightarrow> bip9_state A chk params i q = ?s" "bip9_state A chk params (j - 1) q \<noteq> ?s"
      using since_loop_correct [OF wf ok v False at [unfolded q(1)] q(2) below [OF order_refl, symmetric] c1(2)] by blast
    have "GetStateSinceHeightFor A chk (Some p) params cache = Some (int j * ?n, c')"
      using c1(1) False period_parent_correct(1) [OF wf p n] q(1,2) GetAncestor_correct [OF wf q(2)] r(1,3,4)
      by (simp add: GetStateSinceHeightFor_def)
    moreover have "\<forall>i. j \<le> i \<longrightarrow> i \<le> k \<longrightarrow> bip9_state A chk params i p = ?s"
      using r(7) below by metis
    moreover have "bip9_state A chk params (j - 1) p \<noteq> ?s" using r(6,8) below [of "j - 1"] by simp
    ultimately show ?thesis using r(2,5,6) unfolding if_not_P [OF False] by blast
  qed
qed

section \<open>Properties\<close>

text \<open>
  The example: three blocks with the times 100, 160 and 170, the first two signalling on bit 5, and a
  deployment with a period of one block, a threshold of one and the times 120 and 1000.
\<close>

definition vb_params :: Params where
  "vb_params = main_consensus\<lparr>vDeployments := (\<lambda>d.
     \<lparr>bip9_bit = 5, nStartTime = 120, nTimeout = 1000, nOverrideMinerConfirmationWindow = 1,
      nOverrideRuleChangeActivationThreshold = 1\<rparr>)\<rparr>"

definition vb_block :: "nat \<Rightarrow> CBlockIndex" where
  "vb_block p = CBlockIndex_SetNull\<lparr>nHeight := int p, pprev := (case p of 0 \<Rightarrow> None | Suc q \<Rightarrow> Some q),
     nVersion := (if p < 3 then 32 else 0), nTime := 100 + 60 * of_nat p\<rparr>"

definition vb_arena :: arena where
  "vb_arena p = (if p < 6 then Some (vb_block p) else None)"

lemma vb_arena_wf: "wf_index vb_arena"
  by (auto simp: wf_index_def wf_block_def vb_arena_def vb_block_def CBlockIndex_SetNull_def
      split: nat.splits if_splits)

lemma vb_arena_times: "times_ok vb_arena"
proof -
  have "list_all (\<lambda>p. case pprev (vb_block p) of None \<Rightarrow> True | Some q \<Rightarrow> mtp vb_arena q \<le> GetBlockTime (vb_block p)) [0..<6]"
    by code_simp
  then have "pprev (vb_block p) = Some q \<Longrightarrow> mtp vb_arena q \<le> GetBlockTime (vb_block p)" if "p < 6" for p q
    using that unfolding list_all_iff by (force dest: bspec [of _ _ p])
  then show ?thesis by (auto simp: times_ok_def vb_arena_def split: if_splits)
qed

lemma vb_valid: "valid_checker (VersionBitsConditionChecker d) vb_params"
  by (simp add: valid_checker_def VersionBitsConditionChecker_def vb_params_def)

lemma vb_empty: "vb_cache_ok A params (\<lambda>d. Map.empty)"
  by (simp add: vb_cache_ok_def)



text \<open>
  C20. Deployments only move forward.  The state at a block and the state at any of its descendants are
  related by the steps DEFINED to STARTED to LOCKED_IN to ACTIVE, or to FAILED from the first two; in
  particular a deployment that is active or has failed at a block is so at every descendant.
\<close>

theorem deployment_states_progress:
  assumes "wf_index A" "times_ok A" "valid_checker (VersionBitsConditionChecker d) params"
    and "vb_cache_ok A params caches" "vb_cache_ok A params caches2" "ancestor_at A p h = Some q"
  shows "\<exists>s s' c c'. VersionBitsState A (Some q) params d caches = Some (s, c) \<and>
    VersionBitsState A (Some p) params d caches2 = Some (s', c') \<and> bip9_step\<^sup>*\<^sup>* s s' \<and>
    (s = THRESHOLD_ACTIVE \<or> s = THRESHOLD_FAILED \<longrightarrow> s' = s)"
proof -
  obtain b where b: "A p = Some b" "0 \<le> h" "h \<le> nHeight b"
    using assms(6) by (auto simp: ancestor_at_def split: bind_splits if_splits)
  have "in_tree A (Some q)" "in_tree A (Some p)"
    using ancestor_at_Some [OF assms(1) b] assms(6) b(1) by (auto simp: in_tree_def)
  moreover have "bip9_step\<^sup>*\<^sup>* (state_after A (VersionBitsConditionChecker d) params (Some q))
      (state_after A (VersionBitsConditionChecker d) params (Some p))"
    using state_after_ancestor [OF assms(1,6)] assms(3) by (simp add: valid_checker_def)
  ultimately show ?thesis
    using VersionBitsState_correct [OF assms(1-3) _ assms(4), of "Some q"]
      VersionBitsState_correct [OF assms(1-3) _ assms(5), of "Some p"] bip9_terminal by metis
qed

theorem deployment_states_progress_witness:
  "\<exists>s s' c c'. VersionBitsState vb_arena (Some 3) vb_params DEPLOYMENT_ASSETS (\<lambda>d. Map.empty) = Some (s, c) \<and>
    VersionBitsState vb_arena (Some 5) vb_params DEPLOYMENT_ASSETS (\<lambda>d. Map.empty) = Some (s', c') \<and> bip9_step\<^sup>*\<^sup>* s s'"
proof -
  have "ancestor_at vb_arena 5 3 = Some 3" by code_simp
  then show ?thesis
    using deployment_states_progress [OF vb_arena_wf vb_arena_times vb_valid vb_empty vb_empty] by blast
qed

text \<open>
  C21. Since when, and how many.  The height \<open>VersionBitsStateSinceHeight\<close> returns is 0 for a deployment
  that is defined; otherwise it is the start of a period \<open>j\<close> such that all periods from \<open>j\<close> to the current
  one have the current state and the one before \<open>j\<close> has not.  In that case \<open>VersionBitsStatistics\<close>
  returns too (it follows a null pointer only while the first period is incomplete): it counts the
  signalling blocks since the end of the last period, and \<open>possible\<close> says whether the threshold can still be met
  by the remaining blocks of the period.
\<close>

theorem state_since_height_and_statistics:
  assumes "wf_index A" "times_ok A" "valid_checker (VersionBitsConditionChecker d) params" "A p = Some b"
    and "vb_cache_ok A params caches"
  defines "chk \<equiv> VersionBitsConditionChecker d" and "n \<equiv> Period (VersionBitsConditionChecker d) params"
    and "k \<equiv> period_of A (VersionBitsConditionChecker d) params p"
  shows "\<exists>h caches'. VersionBitsStateSinceHeight A (Some p) params d caches = Some (h, caches') \<and>
    vb_cache_ok A params caches' \<and>
    (if bip9_state A chk params k p = THRESHOLD_DEFINED then h = 0
     else (\<exists>j. h = int j * n \<and> 0 < j \<and> j \<le> k \<and>
         (\<forall>i. j \<le> i \<longrightarrow> i \<le> k \<longrightarrow> bip9_state A chk params i p = bip9_state A chk params k p) \<and>
         bip9_state A chk params (j - 1) p \<noteq> bip9_state A chk params k p) \<and>
       (\<exists>st. VersionBitsStatistics A (Some p) params d = Some st \<and>
         stat_elapsed st = (nHeight b + 1) mod n \<and>
         stat_count st = signals A (\<lambda>b. Condition chk b params) (stat_elapsed st) p \<and>
         stat_possible st = (Threshold chk params \<le> stat_count st + (n - stat_elapsed st))))"
proof -
  obtain h c' where h: "GetStateSinceHeightFor A chk (Some p) params (caches d) = Some (h, c')" "cache_ok A chk params c'"
    "if bip9_state A chk params k p = THRESHOLD_DEFINED then h = 0
     else \<exists>j. h = int j * n \<and> 0 < j \<and> j \<le> k \<and>
       (\<forall>i. j \<le> i \<longrightarrow> i \<le> k \<longrightarrow> bip9_state A chk params i p = bip9_state A chk params k p) \<and>
       bip9_state A chk params (j - 1) p \<noteq> bip9_state A chk params k p"
    using GetStateSinceHeightFor_correct [OF assms(1-4), of "caches d"] assms(5)
    unfolding chk_def n_def k_def vb_cache_ok_def by blast
  have "n \<le> nHeight b + 1" if "bip9_state A chk params k p \<noteq> THRESHOLD_DEFINED"
  proof -
    have "0 < k" using that by (cases k) auto
    then show ?thesis
      using assms(3,4) unfolding k_def n_def period_of_def valid_checker_def by (simp add: pos_imp_zdiv_pos_iff)
  qed
  then show ?thesis
    using h assms(5) GetStateStatisticsFor_correct(2) [OF assms(1,3,4)]
    by (auto simp: VersionBitsStateSinceHeight_def VersionBitsStatistics_def vb_cache_ok_def chk_def n_def)
qed

theorem state_since_height_and_statistics_witness:
  "\<exists>h caches'. VersionBitsStateSinceHeight vb_arena (Some 4) vb_params DEPLOYMENT_ASSETS (\<lambda>d. Map.empty) = Some (h, caches') \<and>
     vb_cache_ok vb_arena vb_params caches'"
  using state_since_height_and_statistics [OF vb_arena_wf vb_arena_times vb_valid _ vb_empty, of 4 "vb_block 4" DEPLOYMENT_ASSETS]
  by (auto simp: vb_arena_def)

end
