(* ===== verification/Hasher.thy ===== *)
theory Hasher
  imports CryptoCommon
begin

text \<open>
  What the hash classes of src/src/crypto share.  CSHA1, CSHA256, CSHA512 and CRIPEMD160 keep a chaining
  state, a buffer with the bytes that do not fill a block yet and the number of bytes written; their
  \<open>Write\<close> functions have the same text but for the block size and the compression function, and so
  have their \<open>Finalize\<close> functions but for the byte order and the size of the length field.  The
  operations are written once here and instantiated in the theory of each class.

  The specification of a hasher is the byte string written so far.  The locale \<open>block_hasher\<close> states what
  a class provides; its lemmas show that \<open>Write\<close> appends to that string however the input is cut up,
  and that \<open>Finalize\<close> returns the Merkle-Damgard hash of the padded string.
\<close>

section \<open>Operations\<close>

record 's md_hasher =
  md_s :: 's
  md_buf :: bytes
  md_bytes :: uint64

definition memcpy_at :: "nat \<Rightarrow> bytes \<Rightarrow> bytes \<Rightarrow> bytes" where
  "memcpy_at off data buf = take off buf @ data @ drop (off + length data) buf"

text \<open>The loop over the full blocks of the input.\<close>

function md_loop :: "nat \<Rightarrow> ('s \<Rightarrow> bytes \<Rightarrow> 's) \<Rightarrow> 's \<Rightarrow> bytes \<Rightarrow> 's" where
  "md_loop blk transform s data =
     (if 0 < blk \<and> blk \<le> length data
      then md_loop blk transform (transform s (take blk data)) (drop blk data)
      else s)"
  by pat_completeness auto
termination by (relation "measure (\<lambda>(_, _, _, data). length data)") auto

declare md_loop.simps [simp del]

text \<open>
  \<open>transform\<close> is the compression of one block, \<open>process\<close> what the class does with the full blocks of the
  input.
\<close>

definition md_Write ::
    "nat \<Rightarrow> ('s \<Rightarrow> bytes \<Rightarrow> 's) \<Rightarrow> ('s \<Rightarrow> bytes \<Rightarrow> 's) \<Rightarrow> 's md_hasher \<Rightarrow> bytes \<Rightarrow> 's md_hasher" where
  "md_Write blk transform process h0 data0 =
     (let bufsize0 = unat (md_bytes h0) mod blk;
          (h1, data1, bufsize) =
            (if bufsize0 \<noteq> 0 \<and> bufsize0 + length data0 \<ge> blk
             then let buf = memcpy_at bufsize0 (take (blk - bufsize0) data0) (md_buf h0)
                  in (h0\<lparr>md_buf := buf, md_bytes := md_bytes h0 + of_nat (blk - bufsize0),
                        md_s := transform (md_s h0) buf\<rparr>,
                      drop (blk - bufsize0) data0, 0)
             else (h0, data0, bufsize0));
          n = length data1 div blk * blk;
          h2 = h1\<lparr>md_s := process (md_s h1) data1, md_bytes := md_bytes h1 + of_nat n\<rparr>;
          data2 = drop n data1
      in if data2 \<noteq> []
         then h2\<lparr>md_buf := memcpy_at bufsize data2 (md_buf h2), md_bytes := md_bytes h2 + of_nat (length data2)\<rparr>
         else h2)"

text \<open>
  \<open>padbase\<close> is the constant of the padding formula (119 or 239), \<open>sizedesc\<close> writes the number of bits.
  The state is returned as well, since \<open>Finalize\<close> changes it.
\<close>

definition md_Finalize ::
    "nat \<Rightarrow> ('s \<Rightarrow> bytes \<Rightarrow> 's) \<Rightarrow> ('s \<Rightarrow> bytes \<Rightarrow> 's) \<Rightarrow> nat \<Rightarrow> (uint64 \<Rightarrow> bytes) \<Rightarrow> ('s \<Rightarrow> bytes) \<Rightarrow>
     's md_hasher \<Rightarrow> bytes \<times> 's md_hasher" where
  "md_Finalize blk transform process padbase sizedesc outp h0 =
     (let pad = 0x80 # replicate (blk - 1) 0;
          desc = sizedesc (push_bit 3 (md_bytes h0));
          h1 = md_Write blk transform process h0 (take (1 + (padbase - unat (md_bytes h0) mod blk) mod blk) pad);
          h2 = md_Write blk transform process h1 desc
      in (outp (md_s h2), h2))"

definition md_new :: "nat \<Rightarrow> 's \<Rightarrow> 's md_hasher" where
  "md_new blk s0 = \<lparr>md_s = s0, md_buf = replicate blk 0, md_bytes = 0\<rparr>"

section \<open>Unrolled loops\<close>

text \<open>
  Straight-line code with rebound variables: each binding is named, so that the bindings before it can be used
  as rewrite rules for those after it.
\<close>

lemma case_prod_eqI: "(\<And>x y. p = (x, y) \<Longrightarrow> f x y = r) \<Longrightarrow> (case p of (x, y) \<Rightarrow> f x y) = r"
  by (cases p) simp

lemma case_prod_eqI_fun: "(\<And>x y. p = (x, y) \<Longrightarrow> h (f x y) = r) \<Longrightarrow> h (case p of (x, y) \<Rightarrow> f x y) = r"
  by (cases p) simp

lemma let_eqI: "(\<And>x. v = x \<Longrightarrow> f x = r) \<Longrightarrow> Let v f = r"
  by simp

text \<open>
  A schedule kept in sixteen variables: overwriting them in turn moves the window by sixteen words.
  \<open>F\<close> is the recurrence of the schedule over the sixteen words before.
\<close>

lemma ring_schedule:
  assumes W: "\<And>u. t \<le> u \<Longrightarrow> W (u + 16) = F (\<lambda>m. W (u + m))"
    and F: "\<And>g h. (\<And>m. m < 16 \<Longrightarrow> g m = h m) \<Longrightarrow> F g = F h"
  shows "foldl (\<lambda>w i. w[i := F (\<lambda>m. w ! ((i + m) mod 16))]) (map W [t..<t + 16]) [0..<16] = map W [t + 16..<t + 32]"
proof -
  have "i \<le> 16 \<Longrightarrow> foldl (\<lambda>w i. w[i := F (\<lambda>m. w ! ((i + m) mod 16))]) (map W [t..<t + 16]) [0..<i] =
      map (\<lambda>j. W (if j < i then t + 16 + j else t + j)) [0..<16]" for i
  proof (induction i)
    case 0
    show ?case by (rule nth_equalityI) simp_all
  next
    case (Suc i)
    let ?w = "map (\<lambda>j. W (if j < i then t + 16 + j else t + j)) [0..<16]"
    have "?w ! ((i + m) mod 16) = W (t + i + m)" if "m < 16" for m
      using that Suc.prems by (cases "i + m < 16") (auto simp: le_mod_geq add.commute add.left_commute)
    then have "F (\<lambda>m. ?w ! ((i + m) mod 16)) = W (t + i + 16)"
      using F [of "\<lambda>m. ?w ! ((i + m) mod 16)" "\<lambda>m. W (t + i + m)"] W [of "t + i"] by simp
    then have "foldl (\<lambda>w i. w[i := F (\<lambda>m. w ! ((i + m) mod 16))]) (map W [t..<t + 16]) [0..<Suc i] = ?w[i := W (t + i + 16)]"
      using Suc.IH Suc.prems by (simp del: map_map nth_map)
    also have "\<dots> = map (\<lambda>j. W (if j < Suc i then t + 16 + j else t + j)) [0..<16]"
      by (auto intro!: nth_equalityI simp: nth_list_update less_Suc_eq ac_simps)
    finally show ?case .
  qed
  from this [of 16] show ?thesis by (auto intro!: nth_equalityI)
qed

text \<open>A rotation written with two shifts.\<close>

lemma rotr_shifts:
  fixes x :: "'a::len word"
  assumes "n < LENGTH('a)"
  shows "drop_bit n x OR push_bit (LENGTH('a) - n) x = word_rotr n x"
proof (rule bit_word_eqI)
  fix i assume i: "i < LENGTH('a)"
  show "bit (drop_bit n x OR push_bit (LENGTH('a) - n) x) i = bit (word_rotr n x) i"
  proof (cases "n + i < LENGTH('a)")
    case True
    then have "\<not> LENGTH('a) - n \<le> i" by simp
    then show ?thesis using True i assms by (simp add: bit_simps add.commute)
  next
    case False
    then have "(i + n) mod LENGTH('a) = i - (LENGTH('a) - n)" using i assms by (simp add: le_mod_geq)
    then show ?thesis using False i assms by (auto simp: bit_simps dest: bit_imp_le_length)
  qed
qed

lemma rotl_shifts:
  fixes x :: "'a::len word"
  assumes "0 < n" "n < LENGTH('a)"
  shows "push_bit n x OR drop_bit (LENGTH('a) - n) x = word_rotl n x"
  using rotr_shifts [of "LENGTH('a) - n" x] assms
  by (simp add: or.commute word_rotl_eq_word_rotr)

section \<open>The byte string written so far\<close>

lemma memcpy_at_fits:
  assumes "off + length data \<le> length buf"
  shows "length (memcpy_at off data buf) = length buf" "take (off + length data) (memcpy_at off data buf) = take off buf @ data"
  using assms by (simp_all add: memcpy_at_def)

lemma md_loop_short: "length data < blk \<Longrightarrow> md_loop blk transform s data = s"
  by (subst md_loop.simps) simp

lemma md_loop_step:
  "0 < blk \<Longrightarrow> blk \<le> length d \<Longrightarrow>
   md_loop blk transform s d = md_loop blk transform (transform s (take blk d)) (drop blk d)"
  by (subst md_loop.simps) simp

lemma div_add_small: "(a :: nat) mod b + x < b \<Longrightarrow> (a + x) div b = a div b"
  by (simp add: div_add1_eq [of a x b])

lemma md_loop_append:
  "0 < blk \<Longrightarrow> blk dvd length m \<Longrightarrow> md_loop blk transform s (m @ d) = md_loop blk transform (md_loop blk transform s m) d"
proof (induction "length m" arbitrary: m s rule: less_induct)
  case less
  show ?case
  proof (cases "m = []")
    case True
    then show ?thesis using less.prems(1) by (simp add: md_loop_short)
  next
    case False
    then have le: "blk \<le> length m" using less.prems(2) by (simp add: dvd_imp_le)
    have "md_loop blk transform (transform s (take blk m)) (drop blk m @ d) =
        md_loop blk transform (md_loop blk transform (transform s (take blk m)) (drop blk m)) d"
      using less.hyps [of "drop blk m"] less.prems le by (simp add: dvd_diff_nat)
    then show ?thesis
      using le md_loop_step [OF less.prems(1), of "m @ d" transform s] md_loop_step [OF less.prems(1) le, of transform s]
      by simp
  qed
qed

lemma whole_blocks_dvd: "blk dvd length (take (length m div blk * blk) m)"
proof -
  have "length (take (length m div blk * blk) m) = length m div blk * blk" by simp
  then show ?thesis by (metis dvd_triv_right)
qed

lemma md_loop_whole_blocks:
  assumes "0 < blk"
  shows "md_loop blk transform s (take (length m div blk * blk) m) = md_loop blk transform s m"
proof -
  have "length (drop (length m div blk * blk) m) < blk"
    using assms by (simp add: minus_div_mult_eq_mod)
  then show ?thesis
    using md_loop_append [OF assms whole_blocks_dvd, of transform s m "drop (length m div blk * blk) m"]
    by (simp add: md_loop_short)
qed

definition md_abs :: "nat \<Rightarrow> ('s \<Rightarrow> bytes \<Rightarrow> 's) \<Rightarrow> 's \<Rightarrow> 's md_hasher \<Rightarrow> bytes \<Rightarrow> bool" where
  "md_abs blk transform s0 h m \<longleftrightarrow>
     length (md_buf h) = blk \<and> md_bytes h = of_nat (length m) \<and> md_s h = md_loop blk transform s0 m \<and>
     take (length m mod blk) (md_buf h) = drop (length m div blk * blk) m"

lemma md_abs_s: "md_abs blk transform s0 h m \<Longrightarrow> md_s h = md_loop blk transform s0 m"
  by (simp add: md_abs_def)

lemma md_abs_new: "0 < blk \<Longrightarrow> md_abs blk transform s0 (md_new blk s0) []"
  by (simp add: md_abs_def md_new_def md_loop_short)

text \<open>The two parts of \<open>Write\<close>: filling the buffer, and whole blocks with a rest behind a boundary.\<close>

lemma fill_length:
  assumes "r = length m mod blk" "r < blk" "blk \<le> r + length d"
  shows "length (m @ take (blk - r) d) = (length m div blk + 1) * blk"
proof -
  have "length (take (blk - r) d) = blk - r" using assms by simp
  then show ?thesis
    using div_mult_mod_eq [of "length m" blk] assms by (simp only: length_append add_mult_distrib)
qed

lemma fill_buffer:
  assumes abs: "md_abs blk transform s0 h m" and blk: "0 < blk" and r: "r = length m mod blk" "r \<noteq> 0"
    and d: "blk \<le> r + length d"
  shows "md_abs blk transform s0
    (h\<lparr>md_buf := memcpy_at r (take (blk - r) d) (md_buf h), md_bytes := md_bytes h + of_nat (blk - r),
      md_s := transform (md_s h) (memcpy_at r (take (blk - r) d) (md_buf h))\<rparr>) (m @ take (blk - r) d)"
proof -
  let ?n = "length m div blk * blk" and ?b = "take (blk - r) d"
  have rlt: "r < blk" using blk r(1) by simp
  then have lb: "length ?b = blk - r" using d by simp
  have buf: "memcpy_at r ?b (md_buf h) = drop ?n m @ ?b"
    using abs lb rlt r(1) by (simp add: memcpy_at_def md_abs_def)
  have len: "length (m @ ?b) = (length m div blk + 1) * blk" by (rule fill_length [OF r(1) rlt d])
  have lr: "length (drop ?n m) = r" using r(1) by (simp add: minus_div_mult_eq_mod)
  have "md_loop blk transform s0 (m @ ?b) = md_loop blk transform (md_loop blk transform s0 m) (drop ?n m @ ?b)"
    using md_loop_append [OF blk whole_blocks_dvd, of transform s0 m "drop ?n m @ ?b"] md_loop_whole_blocks [OF blk, of transform s0 m]
    by (simp flip: append_assoc)
  also have "\<dots> = transform (md_loop blk transform s0 m) (drop ?n m @ ?b)"
    using lr lb rlt blk by (subst md_loop.simps) (simp add: md_loop_short)
  finally have "md_loop blk transform s0 (m @ ?b) = transform (md_s h) (drop ?n m @ ?b)"
    using abs by (simp add: md_abs_def)
  moreover have "length (m @ ?b) mod blk = 0" "length (m @ ?b) div blk * blk = length (m @ ?b)"
    unfolding len using blk by simp_all
  moreover have "length (memcpy_at r ?b (md_buf h)) = blk" unfolding buf using lr lb rlt by simp
  moreover have "md_bytes h + of_nat (blk - r) = of_nat (length (m @ ?b))"
    using abs lb by (simp add: md_abs_def)
  ultimately show ?thesis using buf unfolding md_abs_def by simp
qed

lemma whole_blocks:
  assumes abs: "md_abs blk transform s0 h m" and blk: "0 < blk"
    and r: "r = length m mod blk" "r = 0 \<or> r + length d < blk"
  defines "n \<equiv> length d div blk * blk"
  defines "h2 \<equiv> h\<lparr>md_s := md_loop blk transform (md_s h) d, md_bytes := md_bytes h + of_nat n\<rparr>"
  shows "md_abs blk transform s0
    (if drop n d \<noteq> []
     then h2\<lparr>md_buf := memcpy_at r (drop n d) (md_buf h2), md_bytes := md_bytes h2 + of_nat (length (drop n d))\<rparr>
     else h2) (m @ d)" (is "md_abs _ _ _ ?h _")
proof -
  have n: "n \<le> length d" unfolding n_def by simp
  have rest: "length (drop n d) = length d mod blk" by (simp add: n_def minus_div_mult_eq_mod)
  have s: "md_s ?h = md_loop blk transform s0 (m @ d)"
  proof (cases "r = 0")
    case True
    then have "md_loop blk transform s0 (m @ d) = md_loop blk transform (md_loop blk transform s0 m) d"
      using md_loop_append [OF blk, of m] r(1) by (simp add: mod_eq_0_iff_dvd)
    then show ?thesis using abs by (simp add: h2_def md_abs_def)
  next
    case False
    then have lt: "r + length d < blk" using r(2) by simp
    have "(length m + length d) div blk = length m div blk"
      using lt r(1) div_add_small [of "length m" blk "length d"] by simp
    then have "md_loop blk transform s0 (m @ d) = md_loop blk transform s0 m"
      using md_loop_whole_blocks [OF blk, of transform s0 "m @ d"] md_loop_whole_blocks [OF blk, of transform s0 m] by simp
    then show ?thesis using abs lt by (simp add: h2_def md_abs_def md_loop_short)
  qed
  have b: "md_bytes ?h = of_nat (length (m @ d))"
  proof -
    have "of_nat (length d) = (of_nat n + of_nat (length (drop n d)) :: uint64)"
      using n by (metis length_drop le_add_diff_inverse of_nat_add)
    then show ?thesis using abs n by (auto simp: h2_def md_abs_def)
  qed
  have len: "r + length (drop n d) = length (m @ d) mod blk \<and> drop (length (m @ d) div blk * blk) (m @ d) = drop (length m div blk * blk) m @ drop n d"
  proof (cases "r = 0")
    case True
    then have m: "length m div blk * blk = length m" using r(1) div_mult_mod_eq [of "length m" blk] by simp
    have "(length m + length d) mod blk = length d mod blk" using True r(1) by (metis add_cancel_right_left mod_add_left_eq)
    moreover have "(length m + length d) div blk * blk = length m + n"
      using m True r(1) by (metis add_mult_distrib div_plus_div_distrib_dvd_left mod_0_imp_dvd n_def)
    ultimately show ?thesis using True rest m by simp
  next
    case False
    then have lt: "r + length d < blk" using r(2) by simp
    then have "n = 0" by (simp add: n_def)
    moreover have "length (m @ d) div blk = length m div blk"
      using lt r(1) div_add_small [of "length m" blk "length d"] by simp
    moreover have "(length m + length d) mod blk = r + length d"
      using lt r(1) by (metis mod_add_left_eq mod_less)
    moreover have "length m div blk * blk \<le> length m" by simp
    ultimately show ?thesis by simp
  qed
  have buf: "md_buf ?h = (if drop n d \<noteq> [] then memcpy_at r (drop n d) (md_buf h) else md_buf h)"
    by (simp add: h2_def)
  have "r + length (drop n d) \<le> blk" using len blk by (metis less_or_eq_imp_le mod_less_divisor)
  moreover have "length (md_buf h) = blk" "take r (md_buf h) = drop (length m div blk * blk) m"
    using abs r(1) by (simp_all add: md_abs_def)
  ultimately have "length (md_buf ?h) = blk \<and> take (r + length (drop n d)) (md_buf ?h) = drop (length m div blk * blk) m @ drop n d"
    unfolding buf using memcpy_at_fits [of r "drop n d" "md_buf h"] by (cases "drop n d = []") simp_all
  then show ?thesis unfolding md_abs_def using s b len by metis
qed

section \<open>The contract of a hash class\<close>

text \<open>
  A class provides a block size that divides 2^64, a compression function, a way to run it over the full
  blocks of an input, and a length field that fills the last block.
\<close>

locale block_hasher =
  fixes blk :: nat
    and transform process :: "'s \<Rightarrow> bytes \<Rightarrow> 's"
    and s0 :: 's
    and padbase lenbytes :: nat
    and sizedesc :: "uint64 \<Rightarrow> bytes"
    and outp :: "'s \<Rightarrow> bytes"
  assumes blk_dvd: "blk dvd 2 ^ 64"
    and process: "process s d = md_loop blk transform s d"
    and length_sizedesc: "length (sizedesc n) = lenbytes"
    and padbase: "padbase + 1 + lenbytes = 2 * blk" "lenbytes < blk"
begin

lemma blk_pos: "0 < blk"
  using padbase(2) by simp

lemma unat_mod_blk: "unat (of_nat n :: uint64) mod blk = n mod blk"
  using blk_dvd by (simp add: unat_of_nat mod_mod_cancel)

lemma new_abs: "md_abs blk transform s0 (md_new blk s0) []"
  by (rule md_abs_new [OF blk_pos])

lemma Write_abs:
  assumes "md_abs blk transform s0 h m"
  shows "md_abs blk transform s0 (md_Write blk transform process h d) (m @ d)"
proof -
  let ?r = "length m mod blk"
  have r: "unat (md_bytes h) mod blk = ?r" using assms by (simp add: md_abs_def unat_mod_blk)
  show ?thesis
  proof (cases "?r \<noteq> 0 \<and> blk \<le> ?r + length d")
    case True
    let ?b = "memcpy_at ?r (take (blk - ?r) d) (md_buf h)"
    define h1 where "h1 = h\<lparr>md_buf := ?b, md_bytes := md_bytes h + of_nat (blk - ?r), md_s := transform (md_s h) ?b\<rparr>"
    have h1: "md_abs blk transform s0 h1 (m @ take (blk - ?r) d)"
      unfolding h1_def using fill_buffer [OF assms blk_pos refl] True by blast
    have "length (m @ take (blk - ?r) d) mod blk = 0"
      using fill_length [OF refl mod_less_divisor [OF blk_pos]] True by (metis mod_mult_self2_is_0)
    then show ?thesis
      using whole_blocks [OF h1 blk_pos, of 0 "drop (blk - ?r) d"]
      unfolding md_Write_def Let_def r process if_P [OF True] prod.case h1_def [symmetric] by simp
  next
    case False
    then have "?r = 0 \<or> ?r + length d < blk" by auto
    then show ?thesis
      using whole_blocks [OF assms blk_pos refl, of d] False
      unfolding md_Write_def Let_def r process if_not_P [OF False] by simp
  qed
qed

lemma Write_fold_abs:
  "md_abs blk transform s0 h m \<Longrightarrow> md_abs blk transform s0 (foldl (md_Write blk transform process) h ds) (m @ concat ds)"
proof (induction ds arbitrary: h m)
  case (Cons d ds)
  then show ?case using Cons.IH [OF Write_abs [OF Cons.prems, of d]] by simp
qed simp

end

text \<open>The Merkle-Damgard hash of a byte string: pad it to whole blocks and fold the compression over them.\<close>

definition md_padding :: "nat \<Rightarrow> nat \<Rightarrow> (uint64 \<Rightarrow> bytes) \<Rightarrow> bytes \<Rightarrow> bytes" where
  "md_padding blk padbase sizedesc m =
     0x80 # replicate ((padbase - length m mod blk) mod blk) 0 @ sizedesc (of_nat (8 * length m))"

definition md_digest ::
    "nat \<Rightarrow> ('s \<Rightarrow> bytes \<Rightarrow> 's) \<Rightarrow> 's \<Rightarrow> nat \<Rightarrow> (uint64 \<Rightarrow> bytes) \<Rightarrow> ('s \<Rightarrow> bytes) \<Rightarrow> bytes \<Rightarrow> bytes" where
  "md_digest blk transform s0 padbase sizedesc outp m =
     outp (md_loop blk transform s0 (m @ md_padding blk padbase sizedesc m))"

lemma push_bit_3_of_nat: "push_bit 3 (of_nat n :: uint64) = of_nat (8 * n)"
  by (simp add: push_bit_eq_mult)

context block_hasher
begin

lemma padded_length: "blk dvd length (m @ md_padding blk padbase sizedesc m)"
proof -
  let ?r = "length m mod blk"
  have r: "?r < blk" using blk_pos by simp
  have "length (m @ md_padding blk padbase sizedesc m) = (length m + (1 + lenbytes)) + (padbase - ?r) mod blk"
    by (simp add: md_padding_def length_sizedesc)
  then have "length (m @ md_padding blk padbase sizedesc m) mod blk = ((length m + (1 + lenbytes)) + (padbase - ?r)) mod blk"
    by (simp only: mod_add_right_eq)
  also have "\<dots> = (?r + ((1 + lenbytes) + (padbase - ?r))) mod blk" by (simp only: add.assoc mod_add_left_eq)
  also have "?r + ((1 + lenbytes) + (padbase - ?r)) = 2 * blk" using r padbase by linarith
  finally show ?thesis by (simp add: mod_eq_0_iff_dvd)
qed

lemma Finalize_digest:
  assumes "md_abs blk transform s0 h m"
  shows "fst (md_Finalize blk transform process padbase sizedesc outp h) =
    md_digest blk transform s0 padbase sizedesc outp m"
proof -
  let ?k = "(padbase - length m mod blk) mod blk"
  have r: "unat (md_bytes h) mod blk = length m mod blk" using assms by (simp add: md_abs_def unat_mod_blk)
  have "?k < blk" using blk_pos by simp
  then have pad: "take (1 + ?k) (0x80 # replicate (blk - 1) 0) = (0x80 # replicate ?k 0 :: bytes)"
    by (simp add: min_def)
  have bits: "push_bit 3 (md_bytes h) = of_nat (8 * length m)"
    using assms push_bit_3_of_nat [of "length m"] by (simp only: md_abs_def)
  note md_abs_s [OF Write_abs [OF Write_abs [OF assms, of "0x80 # replicate ?k 0"], of "sizedesc (of_nat (8 * length m))"]]
  then show ?thesis
    unfolding md_Finalize_def Let_def r pad bits md_digest_def md_padding_def by simp
qed

lemma Finalize_buf:
  assumes "md_abs blk transform s0 h m"
  shows "length (md_buf (snd (md_Finalize blk transform process padbase sizedesc outp h))) = blk"
  using Write_abs [OF Write_abs [OF assms]] unfolding md_Finalize_def Let_def snd_conv md_abs_def by blast

lemma hash_of_pieces:
  "fst (md_Finalize blk transform process padbase sizedesc outp
     (foldl (md_Write blk transform process) (md_new blk s0) ds)) =
   md_digest blk transform s0 padbase sizedesc outp (concat ds)"
  using Finalize_digest [OF Write_fold_abs [OF new_abs, of ds]] by simp

end

end
