(* ===== verification/Sha1.thy ===== *)
theory Sha1
  imports Hasher
begin

text \<open>
  SHA-1, src/src/crypto/sha1.h and sha1.cpp: 80 unrolled rounds in which the five registers change their
  roles; \<open>sha1_rounds0\<close> to \<open>sha1_rounds4\<close> are the five groups of sixteen calls of \<open>Round\<close>, and
  \<open>sha1_expand\<close> the sixteen updates of the schedule between two groups.  The reference is FIPS 180-4.
\<close>

section \<open>The compression function\<close>

type_synonym regs1 = "uint32 \<times> uint32 \<times> uint32 \<times> uint32 \<times> uint32"

text \<open>\<open>Round\<close> returns the new values of its reference parameters \<open>b\<close> and \<open>e\<close>.\<close>

definition sha1_Round ::
    "uint32 \<Rightarrow> uint32 \<Rightarrow> uint32 \<Rightarrow> uint32 \<Rightarrow> uint32 \<Rightarrow> uint32 \<Rightarrow> uint32 \<Rightarrow> uint32 \<Rightarrow> uint32 \<times> uint32" where
  "sha1_Round a b c d e f k w =
     (push_bit 30 b OR drop_bit 2 b, e + ((push_bit 5 a OR drop_bit 27 a) + f + k + w))"

definition sha1_f1 :: "uint32 \<Rightarrow> uint32 \<Rightarrow> uint32 \<Rightarrow> uint32" where
  "sha1_f1 b c d = d XOR (b AND (c XOR d))"

definition sha1_f2 :: "uint32 \<Rightarrow> uint32 \<Rightarrow> uint32 \<Rightarrow> uint32" where
  "sha1_f2 b c d = b XOR c XOR d"

definition sha1_f3 :: "uint32 \<Rightarrow> uint32 \<Rightarrow> uint32 \<Rightarrow> uint32" where
  "sha1_f3 b c d = (b AND c) OR (d AND (b OR c))"

definition sha1_left :: "uint32 \<Rightarrow> uint32" where
  "sha1_left x = push_bit 1 x OR drop_bit 31 x"

definition sha1_Initialize :: "uint32 list" where
  "sha1_Initialize = [0x67452301, 0xEFCDAB89, 0x98BADCFE, 0x10325476, 0xC3D2E1F0]"

definition sha1_k1 :: uint32 where "sha1_k1 = 0x5A827999"
definition sha1_k2 :: uint32 where "sha1_k2 = 0x6ED9EBA1"
definition sha1_k3 :: uint32 where "sha1_k3 = 0x8F1BBCDC"
definition sha1_k4 :: uint32 where "sha1_k4 = 0xCA62C1D6"

definition sha1_rounds0 :: "uint32 list \<Rightarrow> regs1 \<Rightarrow> regs1" where
  "sha1_rounds0 w r =
     (case r of (a, b, c, d, e) \<Rightarrow>
      let
          (b, e) = sha1_Round a b c d e (sha1_f1 b c d) sha1_k1 (w ! 0);
          (a, d) = sha1_Round e a b c d (sha1_f1 a b c) sha1_k1 (w ! 1);
          (e, c) = sha1_Round d e a b c (sha1_f1 e a b) sha1_k1 (w ! 2);
          (d, b) = sha1_Round c d e a b (sha1_f1 d e a) sha1_k1 (w ! 3);
          (c, a) = sha1_Round b c d e a (sha1_f1 c d e) sha1_k1 (w ! 4);
          (b, e) = sha1_Round a b c d e (sha1_f1 b c d) sha1_k1 (w ! 5);
          (a, d) = sha1_Round e a b c d (sha1_f1 a b c) sha1_k1 (w ! 6);
          (e, c) = sha1_Round d e a b c (sha1_f1 e a b) sha1_k1 (w ! 7);
          (d, b) = sha1_Round c d e a b (sha1_f1 d e a) sha1_k1 (w ! 8);
          (c, a) = sha1_Round b c d e a (sha1_f1 c d e) sha1_k1 (w ! 9);
          (b, e) = sha1_Round a b c d e (sha1_f1 b c d) sha1_k1 (w ! 10);
          (a, d) = sha1_Round e a b c d (sha1_f1 a b c) sha1_k1 (w ! 11);
          (e, c) = sha1_Round d e a b c (sha1_f1 e a b) sha1_k1 (w ! 12);
          (d, b) = sha1_Round c d e a b (sha1_f1 d e a) sha1_k1 (w ! 13);
          (c, a) = sha1_Round b c d e a (sha1_f1 c d e) sha1_k1 (w ! 14);
          (b, e) = sha1_Round a b c d e (sha1_f1 b c d) sha1_k1 (w ! 15)
      in (a, b, c, d, e))"

definition sha1_rounds1 :: "uint32 list \<Rightarrow> regs1 \<Rightarrow> regs1" where
  "sha1_rounds1 w r =
     (case r of (a, b, c, d, e) \<Rightarrow>
      let
          (a, d) = sha1_Round e a b c d (sha1_f1 a b c) sha1_k1 (w ! 0);
          (e, c) = sha1_Round d e a b c (sha1_f1 e a b) sha1_k1 (w ! 1);
          (d, b) = sha1_Round c d e a b (sha1_f1 d e a) sha1_k1 (w ! 2);
          (c, a) = sha1_Round b c d e a (sha1_f1 c d e) sha1_k1 (w ! 3);
          (b, e) = sha1_Round a b c d e (sha1_f2 b c d) sha1_k2 (w ! 4);
          (a, d) = sha1_Round e a b c d (sha1_f2 a b c) sha1_k2 (w ! 5);
          (e, c) = sha1_Round d e a b c (sha1_f2 e a b) sha1_k2 (w ! 6);
          (d, b) = sha1_Round c d e a b (sha1_f2 d e a) sha1_k2 (w ! 7);
          (c, a) = sha1_Round b c d e a (sha1_f2 c d e) sha1_k2 (w ! 8);
          (b, e) = sha1_Round a b c d e (sha1_f2 b c d) sha1_k2 (w ! 9);
          (a, d) = sha1_Round e a b c d (sha1_f2 a b c) sha1_k2 (w ! 10);
          (e, c) = sha1_Round d e a b c (sha1_f2 e a b) sha1_k2 (w ! 11);
          (d, b) = sha1_Round c d e a b (sha1_f2 d e a) sha1_k2 (w ! 12);
          (c, a) = sha1_Round b c d e a (sha1_f2 c d e) sha1_k2 (w ! 13);
          (b, e) = sha1_Round a b c d e (sha1_f2 b c d) sha1_k2 (w ! 14);
          (a, d) = sha1_Round e a b c d (sha1_f2 a b c) sha1_k2 (w ! 15)
      in (a, b, c, d, e))"

definition sha1_rounds2 :: "uint32 list \<Rightarrow> regs1 \<Rightarrow> regs1" where
  "sha1_rounds2 w r =
     (case r of (a, b, c, d, e) \<Rightarrow>
      let
          (e, c) = sha1_Round d e a b c (sha1_f2 e a b) sha1_k2 (w ! 0);
          (d, b) = sha1_Round c d e a b (sha1_f2 d e a) sha1_k2 (w ! 1);
          (c, a) = sha1_Round b c d e a (sha1_f2 c d e) sha1_k2 (w ! 2);
          (b, e) = sha1_Round a b c d e (sha1_f2 b c d) sha1_k2 (w ! 3);
          (a, d) = sha1_Round e a b c d (sha1_f2 a b c) sha1_k2 (w ! 4);
          (e, c) = sha1_Round d e a b c (sha1_f2 e a b) sha1_k2 (w ! 5);
          (d, b) = sha1_Round c d e a b (sha1_f2 d e a) sha1_k2 (w ! 6);
          (c, a) = sha1_Round b c d e a (sha1_f2 c d e) sha1_k2 (w ! 7);
          (b, e) = sha1_Round a b c d e (sha1_f3 b c d) sha1_k3 (w ! 8);
          (a, d) = sha1_Round e a b c d (sha1_f3 a b c) sha1_k3 (w ! 9);
          (e, c) = sha1_Round d e a b c (sha1_f3 e a b) sha1_k3 (w ! 10);
          (d, b) = sha1_Round c d e a b (sha1_f3 d e a) sha1_k3 (w ! 11);
          (c, a) = sha1_Round b c d e a (sha1_f3 c d e) sha1_k3 (w ! 12);
          (b, e) = sha1_Round a b c d e (sha1_f3 b c d) sha1_k3 (w ! 13);
          (a, d) = sha1_Round e a b c d (sha1_f3 a b c) sha1_k3 (w ! 14);
          (e, c) = sha1_Round d e a b c (sha1_f3 e a b) sha1_k3 (w ! 15)
      in (a, b, c, d, e))"

definition sha1_rounds3 :: "uint32 list \<Rightarrow> regs1 \<Rightarrow> regs1" where
  "sha1_rounds3 w r =
     (case r of (a, b, c, d, e) \<Rightarrow>
      let
          (d, b) = sha1_Round c d e a b (sha1_f3 d e a) sha1_k3 (w ! 0);
          (c, a) = sha1_Round b c d e a (sha1_f3 c d e) sha1_k3 (w ! 1);
          (b, e) = sha1_Round a b c d e (sha1_f3 b c d) sha1_k3 (w ! 2);
          (a, d) = sha1_Round e a b c d (sha1_f3 a b c) sha1_k3 (w ! 3);
          (e, c) = sha1_Round d e a b c (sha1_f3 e a b) sha1_k3 (w ! 4);
          (d, b) = sha1_Round c d e a b (sha1_f3 d e a) sha1_k3 (w ! 5);
          (c, a) = sha1_Round b c d e a (sha1_f3 c d e) sha1_k3 (w ! 6);
          (b, e) = sha1_Round a b c d e (sha1_f3 b c d) sha1_k3 (w ! 7);
          (a, d) = sha1_Round e a b c d (sha1_f3 a b c) sha1_k3 (w ! 8);
          (e, c) = sha1_Round d e a b c (sha1_f3 e a b) sha1_k3 (w ! 9);
          (d, b) = sha1_Round c d e a b (sha1_f3 d e a) sha1_k3 (w ! 10);
          (c, a) = sha1_Round b c d e a (sha1_f3 c d e) sha1_k3 (w ! 11);
          (b, e) = sha1_Round a b c d e (sha1_f2 b c d) sha1_k4 (w ! 12);
          (a, d) = sha1_Round e a b c d (sha1_f2 a b c) sha1_k4 (w ! 13);
          (e, c) = sha1_Round d e a b c (sha1_f2 e a b) sha1_k4 (w ! 14);
          (d, b) = sha1_Round c d e a b (sha1_f2 d e a) sha1_k4 (w ! 15)
      in (a, b, c, d, e))"

definition sha1_rounds4 :: "uint32 list \<Rightarrow> regs1 \<Rightarrow> regs1" where
  "sha1_rounds4 w r =
     (case r of (a, b, c, d, e) \<Rightarrow>
      let
          (c, a) = sha1_Round b c d e a (sha1_f2 c d e) sha1_k4 (w ! 0);
          (b, e) = sha1_Round a b c d e (sha1_f2 b c d) sha1_k4 (w ! 1);
          (a, d) = sha1_Round e a b c d (sha1_f2 a b c) sha1_k4 (w ! 2);
          (e, c) = sha1_Round d e a b c (sha1_f2 e a b) sha1_k4 (w ! 3);
          (d, b) = sha1_Round c d e a b (sha1_f2 d e a) sha1_k4 (w ! 4);
          (c, a) = sha1_Round b c d e a (sha1_f2 c d e) sha1_k4 (w ! 5);
          (b, e) = sha1_Round a b c d e (sha1_f2 b c d) sha1_k4 (w ! 6);
          (a, d) = sha1_Round e a b c d (sha1_f2 a b c) sha1_k4 (w ! 7);
          (e, c) = sha1_Round d e a b c (sha1_f2 e a b) sha1_k4 (w ! 8);
          (d, b) = sha1_Round c d e a b (sha1_f2 d e a) sha1_k4 (w ! 9);
          (c, a) = sha1_Round b c d e a (sha1_f2 c d e) sha1_k4 (w ! 10);
          (b, e) = sha1_Round a b c d e (sha1_f2 b c d) sha1_k4 (w ! 11);
          (a, d) = sha1_Round e a b c d (sha1_f2 a b c) sha1_k4 (w ! 12);
          (e, c) = sha1_Round d e a b c (sha1_f2 e a b) sha1_k4 (w ! 13);
          (d, b) = sha1_Round c d e a b (sha1_f2 d e a) sha1_k4 (w ! 14);
          (c, a) = sha1_Round b c d e a (sha1_f2 c d e) sha1_k4 (w ! 15)
      in (a, b, c, d, e))"

definition sha1_expand :: "uint32 list \<Rightarrow> uint32 list" where
  "sha1_expand w0 =
     foldl (\<lambda>w i. w[i := sha1_left (w ! i XOR w ! ((i + 13) mod 16) XOR w ! ((i + 8) mod 16) XOR w ! ((i + 2) mod 16))])
       w0 [0..<16]"

definition sha1_Transform :: "uint32 list \<Rightarrow> bytes \<Rightarrow> uint32 list" where
  "sha1_Transform s chunk =
     (let w0 = map (\<lambda>i. ReadBE32 (drop (4 * i) chunk)) [0..<16];
          w1 = sha1_expand w0;
          w2 = sha1_expand w1;
          w3 = sha1_expand w2;
          w4 = sha1_expand w3;
          (a, b, c, d, e) = sha1_rounds4 w4 (sha1_rounds3 w3 (sha1_rounds2 w2 (sha1_rounds1 w1 (sha1_rounds0 w0
            (s ! 0, s ! 1, s ! 2, s ! 3, s ! 4)))))
      in map2 (+) s [a, b, c, d, e])"

section \<open>The hasher\<close>

type_synonym CSHA1 = "uint32 list md_hasher"

definition CSHA1_new :: CSHA1 where
  "CSHA1_new = md_new 64 sha1_Initialize"

definition CSHA1_Write :: "CSHA1 \<Rightarrow> bytes \<Rightarrow> CSHA1" where
  "CSHA1_Write = md_Write 64 sha1_Transform (md_loop 64 sha1_Transform)"

definition CSHA1_Finalize :: "CSHA1 \<Rightarrow> bytes \<times> CSHA1" where
  "CSHA1_Finalize =
     md_Finalize 64 sha1_Transform (md_loop 64 sha1_Transform) 119 WriteBE64 (\<lambda>s. concat (map WriteBE32 s))"

definition CSHA1_Reset :: "CSHA1 \<Rightarrow> CSHA1" where
  "CSHA1_Reset h = h\<lparr>md_bytes := 0, md_s := sha1_Initialize\<rparr>"

section \<open>FIPS 180-4\<close>

text \<open>The functions and constants of sections 4.1.1 and 4.2.1, the schedule and one round of section 6.1.2.\<close>

definition fips1_f :: "nat \<Rightarrow> uint32 \<Rightarrow> uint32 \<Rightarrow> uint32 \<Rightarrow> uint32" where
  "fips1_f t x y z =
     (if t < 20 then (x AND y) XOR (NOT x AND z)
      else if t < 40 then x XOR y XOR z
      else if t < 60 then (x AND y) XOR (x AND z) XOR (y AND z)
      else x XOR y XOR z)"

definition fips1_K :: "nat \<Rightarrow> uint32" where
  "fips1_K t = (if t < 20 then 0x5a827999 else if t < 40 then 0x6ed9eba1 else if t < 60 then 0x8f1bbcdc else 0xca62c1d6)"

function fips1_W :: "(nat \<Rightarrow> uint32) \<Rightarrow> nat \<Rightarrow> uint32" where
  "fips1_W M t =
     (if t < 16 then M t
      else word_rotl 1 (fips1_W M (t - 3) XOR fips1_W M (t - 8) XOR fips1_W M (t - 14) XOR fips1_W M (t - 16)))"
  by pat_completeness auto
termination by (relation "measure snd") auto

declare fips1_W.simps [simp del]

definition fips1_round :: "nat \<Rightarrow> uint32 \<Rightarrow> regs1 \<Rightarrow> regs1" where
  "fips1_round t w r =
     (case r of (a, b, c, d, e) \<Rightarrow> (word_rotl 5 a + fips1_f t b c d + e + fips1_K t + w, a, word_rotl 30 b, c, d))"

definition fips1_compress :: "uint32 list \<Rightarrow> bytes \<Rightarrow> uint32 list" where
  "fips1_compress s chunk =
     (let W = fips1_W (\<lambda>t. ReadBE32 (drop (4 * t) chunk));
          (a, b, c, d, e) = foldl (\<lambda>r t. fips1_round t (W t) r) (s ! 0, s ! 1, s ! 2, s ! 3, s ! 4) [0..<80]
      in map2 (+) s [a, b, c, d, e])"

lemma rotl_or32: "0 < n \<Longrightarrow> n < 32 \<Longrightarrow> push_bit n x OR drop_bit (32 - n) x = word_rotl n (x :: uint32)"
  using rotl_shifts [of n x] by simp

lemma sha1_left_rotl: "sha1_left x = word_rotl 1 x"
  using rotl_or32 [of 1 x] by (simp add: sha1_left_def)

lemma sha1_functions:
  "sha1_f1 x y z = (x AND y) XOR (NOT x AND z)" "sha1_f3 x y z = (x AND y) XOR (x AND z) XOR (y AND z)"
  by (rule bit_word_eqI; auto simp: sha1_f1_def sha1_f3_def bit_simps)+

lemma sha1_Round_fips:
  assumes "sha1_Round a b c d e f k w = (b', e')" "f = fips1_f t b c d" "k = fips1_K t"
  shows "fips1_round t w (a, b, c, d, e) = (e', a, b', c, d)"
  using assms rotl_or32 [of 30 b] rotl_or32 [of 5 a] by (auto simp: sha1_Round_def fips1_round_def add_ac)

lemma sha1_Round_group:
  "t < 20 \<Longrightarrow> sha1_Round a b c d e (sha1_f1 b c d) sha1_k1 w = (b', e') \<Longrightarrow> fips1_round t w (a, b, c, d, e) = (e', a, b', c, d)"
  "20 \<le> t \<Longrightarrow> t < 40 \<Longrightarrow> sha1_Round a b c d e (sha1_f2 b c d) sha1_k2 w = (b', e') \<Longrightarrow> fips1_round t w (a, b, c, d, e) = (e', a, b', c, d)"
  "40 \<le> t \<Longrightarrow> t < 60 \<Longrightarrow> sha1_Round a b c d e (sha1_f3 b c d) sha1_k3 w = (b', e') \<Longrightarrow> fips1_round t w (a, b, c, d, e) = (e', a, b', c, d)"
  "60 \<le> t \<Longrightarrow> sha1_Round a b c d e (sha1_f2 b c d) sha1_k4 w = (b', e') \<Longrightarrow> fips1_round t w (a, b, c, d, e) = (e', a, b', c, d)"
  by (rule sha1_Round_fips; simp add: fips1_f_def fips1_K_def sha1_functions sha1_f2_def sha1_k1_def sha1_k2_def sha1_k3_def sha1_k4_def)+

text \<open>
  The source keeps the names of the registers and changes their roles: after each group of sixteen rounds
  the roles have moved by one name, and after five groups they are back.
\<close>

definition sha1_rot :: "regs1 \<Rightarrow> regs1" where
  "sha1_rot r = (case r of (a, b, c, d, e) \<Rightarrow> (e, a, b, c, d))"

lemma sha1_rot_simp [simp]: "sha1_rot (a, b, c, d, e) = (e, a, b, c, d)"
  by (simp add: sha1_rot_def)

lemma sha1_rot5: "sha1_rot (sha1_rot (sha1_rot (sha1_rot (sha1_rot r)))) = r"
  by (cases r) simp

lemma upt16: "[0..<16] = [0, 1, 2, 3, 4, 5, 6, 7, 8, 9, 10, 11, 12, 13, 14, 15 :: nat]"
  by (simp add: upt_rec)

lemma sha1_rounds0_fips:
  "sha1_rot (sha1_rounds0 w (a, b, c, d, e)) = foldl (\<lambda>r t. fips1_round (0 + t) (w ! t) r) (a, b, c, d, e) [0..<16]"
  unfolding sha1_rounds0_def prod.case Let_def upt16 foldl_Cons foldl_Nil
  by (intro case_prod_eqI_fun [where h = sha1_rot]) (simp add: sha1_Round_group)

lemma sha1_rounds1_fips:
  "sha1_rot (sha1_rot (sha1_rounds1 w (a, b, c, d, e))) = foldl (\<lambda>r t. fips1_round (16 + t) (w ! t) r) (sha1_rot (a, b, c, d, e)) [0..<16]"
  unfolding sha1_rounds1_def prod.case Let_def upt16 foldl_Cons foldl_Nil
  by (intro case_prod_eqI_fun [where h = "\<lambda>r. sha1_rot (sha1_rot r)"]) (simp add: sha1_Round_group)

lemma sha1_rounds2_fips:
  "sha1_rot (sha1_rot (sha1_rot (sha1_rounds2 w (a, b, c, d, e)))) =
   foldl (\<lambda>r t. fips1_round (32 + t) (w ! t) r) (sha1_rot (sha1_rot (a, b, c, d, e))) [0..<16]"
  unfolding sha1_rounds2_def prod.case Let_def upt16 foldl_Cons foldl_Nil
  by (intro case_prod_eqI_fun [where h = "\<lambda>r. sha1_rot (sha1_rot (sha1_rot r))"]) (simp add: sha1_Round_group)

lemma sha1_rounds3_fips:
  "sha1_rot (sha1_rot (sha1_rot (sha1_rot (sha1_rounds3 w (a, b, c, d, e))))) =
   foldl (\<lambda>r t. fips1_round (48 + t) (w ! t) r) (sha1_rot (sha1_rot (sha1_rot (a, b, c, d, e)))) [0..<16]"
  unfolding sha1_rounds3_def prod.case Let_def upt16 foldl_Cons foldl_Nil
  by (intro case_prod_eqI_fun [where h = "\<lambda>r. sha1_rot (sha1_rot (sha1_rot (sha1_rot r)))"]) (simp add: sha1_Round_group)

lemma sha1_rounds4_fips:
  "sha1_rounds4 w (a, b, c, d, e) =
   foldl (\<lambda>r t. fips1_round (64 + t) (w ! t) r) (sha1_rot (sha1_rot (sha1_rot (sha1_rot (a, b, c, d, e))))) [0..<16]"
  unfolding sha1_rounds4_def prod.case Let_def upt16 foldl_Cons foldl_Nil
  by (intro case_prod_eqI) (simp add: sha1_Round_group)

lemma sha1_expand_fips:
  assumes "W = fips1_W M"
  shows "sha1_expand (map W [t..<t + 16]) = map W [t + 16..<t + 32]"
proof -
  have "W (u + 16) = sha1_left (W (u + 0) XOR W (u + 13) XOR W (u + 8) XOR W (u + 2))" for u
    unfolding assms sha1_left_rotl by (subst fips1_W.simps) (simp add: ac_simps)
  then have "foldl (\<lambda>w i. w[i := sha1_left (w ! ((i + 0) mod 16) XOR w ! ((i + 13) mod 16) XOR w ! ((i + 8) mod 16)
        XOR w ! ((i + 2) mod 16))])
      (map W [t..<t + 16]) [0..<16] = map W [t + 16..<t + 32]"
    by (intro ring_schedule [of t W "\<lambda>g. sha1_left (g 0 XOR g 13 XOR g 8 XOR g 2)"]) simp_all
  moreover have "sha1_expand w0 = foldl (\<lambda>w i. w[i := sha1_left (w ! ((i + 0) mod 16) XOR w ! ((i + 13) mod 16)
        XOR w ! ((i + 8) mod 16) XOR w ! ((i + 2) mod 16))]) w0 [0..<16]" for w0
    unfolding sha1_expand_def by (rule foldl_cong) simp_all
  ultimately show ?thesis by simp
qed

lemma fips1_rounds_at:
  "foldl (\<lambda>r i. fips1_round (t + i) (map W [t..<t + 16] ! i) r) r [0..<16] = foldl (\<lambda>r t. fips1_round t (W t) r) r [t..<t + 16]"
proof -
  have "foldl (\<lambda>r i. fips1_round (t + i) (map W [t..<t + 16] ! i) r) r [0..<16] =
      foldl (\<lambda>r i. fips1_round (t + i) (W (t + i)) r) r [0..<16]"
    by (rule foldl_cong) simp_all
  also have "\<dots> = foldl (\<lambda>r t. fips1_round t (W t) r) r (map ((+) t) [0..<16])"
    by (simp add: foldl_map)
  also have "map ((+) t) [0..<16] = [t..<t + 16]" by (rule nth_equalityI) simp_all
  finally show ?thesis .
qed

lemma sha1_all_rounds:
  assumes W: "W = fips1_W M"
  shows "sha1_rounds4 (map W [64..<64 + 16]) (sha1_rounds3 (map W [48..<48 + 16]) (sha1_rounds2 (map W [32..<32 + 16])
      (sha1_rounds1 (map W [16..<16 + 16]) (sha1_rounds0 (map W [0..<0 + 16]) r)))) =
    foldl (\<lambda>r t. fips1_round t (W t) r) r [0..<80]"
proof -
  have upt: "[0..<80] = [0..<0 + 16] @ [16..<16 + 16] @ [32..<32 + 16] @ [48..<48 + 16] @ [64..<64 + 16 :: nat]"
    by (simp add: upt_add_eq_append [of 0 16 64, simplified] upt_add_eq_append [of 16 32 48, simplified]
        upt_add_eq_append [of 32 48 32, simplified] upt_add_eq_append [of 48 64 16, simplified])
  have g: "sha1_rot (sha1_rounds0 (map W [0..<0 + 16]) r) = foldl (\<lambda>r t. fips1_round t (W t) r) r [0..<0 + 16]"
    "sha1_rot (sha1_rot (sha1_rounds1 (map W [16..<16 + 16]) r)) = foldl (\<lambda>r t. fips1_round t (W t) r) (sha1_rot r) [16..<16 + 16]"
    "sha1_rot (sha1_rot (sha1_rot (sha1_rounds2 (map W [32..<32 + 16]) r))) =
      foldl (\<lambda>r t. fips1_round t (W t) r) (sha1_rot (sha1_rot r)) [32..<32 + 16]"
    "sha1_rot (sha1_rot (sha1_rot (sha1_rot (sha1_rounds3 (map W [48..<48 + 16]) r)))) =
      foldl (\<lambda>r t. fips1_round t (W t) r) (sha1_rot (sha1_rot (sha1_rot r))) [48..<48 + 16]"
    "sha1_rounds4 (map W [64..<64 + 16]) r =
      foldl (\<lambda>r t. fips1_round t (W t) r) (sha1_rot (sha1_rot (sha1_rot (sha1_rot r)))) [64..<64 + 16]" for r
    by (cases r; simp only: sha1_rounds0_fips sha1_rounds1_fips sha1_rounds2_fips sha1_rounds3_fips sha1_rounds4_fips
        fips1_rounds_at)+
  show ?thesis unfolding upt foldl_append g(5) g(4) g(3) g(2) g(1) by (rule refl)
qed

lemma sha1_Transform_fips: "sha1_Transform = fips1_compress"
proof (intro ext)
  fix s chunk
  let ?W = "fips1_W (\<lambda>t. ReadBE32 (drop (4 * t) chunk))"
  have w0: "map (\<lambda>i. ReadBE32 (drop (4 * i) chunk)) [0..<16] = map ?W [0..<0 + 16]"
    by (rule nth_equalityI) (simp_all add: fips1_W.simps)
  have w: "sha1_expand (map ?W [0..<0 + 16]) = map ?W [16..<16 + 16]" "sha1_expand (map ?W [16..<16 + 16]) = map ?W [32..<32 + 16]"
    "sha1_expand (map ?W [32..<32 + 16]) = map ?W [48..<48 + 16]" "sha1_expand (map ?W [48..<48 + 16]) = map ?W [64..<64 + 16]"
    using sha1_expand_fips [OF refl, of _ 0] sha1_expand_fips [OF refl, of _ 16] sha1_expand_fips [OF refl, of _ 32]
      sha1_expand_fips [OF refl, of _ 48] by simp_all
  show "sha1_Transform s chunk = fips1_compress s chunk"
    unfolding sha1_Transform_def fips1_compress_def Let_def w0 w sha1_all_rounds [OF refl] by (rule refl)
qed

section \<open>The contract\<close>

interpretation sha1: block_hasher 64 sha1_Transform "md_loop 64 sha1_Transform" sha1_Initialize 119 8 WriteBE64
  "\<lambda>s. concat (map WriteBE32 s)"
  by unfold_locales simp_all

definition fips_sha1 :: "bytes \<Rightarrow> bytes" where
  "fips_sha1 = md_digest 64 fips1_compress sha1_Initialize 119 WriteBE64 (\<lambda>s. concat (map WriteBE32 s))"

lemmas CSHA1_defs = CSHA1_new_def CSHA1_Write_def CSHA1_Finalize_def

lemma CSHA1_pieces: "fst (CSHA1_Finalize (foldl CSHA1_Write CSHA1_new ds)) = fips_sha1 (concat ds)"
  using sha1.hash_of_pieces [of ds] unfolding CSHA1_defs fips_sha1_def sha1_Transform_fips .

lemma CSHA1_Reset_pieces:
  assumes "length (md_buf h) = 64"
  shows "fst (CSHA1_Finalize (foldl CSHA1_Write (CSHA1_Reset h) ds)) = fips_sha1 (concat ds)"
proof -
  have "md_abs 64 fips1_compress sha1_Initialize (CSHA1_Reset h) []"
    using assms by (simp add: md_abs_def CSHA1_Reset_def md_loop_short)
  then show ?thesis
    using sha1.Finalize_digest [OF sha1.Write_fold_abs, of "CSHA1_Reset h" "[]" ds]
    unfolding CSHA1_defs fips_sha1_def sha1_Transform_fips by simp
qed

end
