(* ===== verification/Sha256.thy ===== *)
theory Sha256
  imports Hasher
begin

text \<open>
  SHA-256, src/src/crypto/sha256.h and sha256.cpp.  \<open>Transform\<close> is unrolled in the source: 64 calls of
  \<open>Round\<close> in which the registers change their roles instead of their contents, and sixteen variables
  \<open>w0\<close> to \<open>w15\<close> that are overwritten with the message schedule.  The calls repeat the same text every
  16 rounds but for the constants; that text is \<open>rounds16\<close>, and \<open>expand16\<close> holds the sixteen updates of
  the schedule.  The reference is FIPS 180-4: the schedule of 64 words and one round after the other
  with shifted registers.

  \<open>SHA256AutoDetect\<close>, which may install an SSE4 routine and runs a self test, is not modelled.
\<close>

section \<open>The compression function\<close>

type_synonym regs256 = "uint32 \<times> uint32 \<times> uint32 \<times> uint32 \<times> uint32 \<times> uint32 \<times> uint32 \<times> uint32"

definition sha256_Ch :: "uint32 \<Rightarrow> uint32 \<Rightarrow> uint32 \<Rightarrow> uint32" where
  "sha256_Ch x y z = z XOR (x AND (y XOR z))"

definition sha256_Maj :: "uint32 \<Rightarrow> uint32 \<Rightarrow> uint32 \<Rightarrow> uint32" where
  "sha256_Maj x y z = (x AND y) OR (z AND (x OR y))"

definition sha256_Sigma0 :: "uint32 \<Rightarrow> uint32" where
  "sha256_Sigma0 x = (drop_bit 2 x OR push_bit 30 x) XOR (drop_bit 13 x OR push_bit 19 x) XOR (drop_bit 22 x OR push_bit 10 x)"

definition sha256_Sigma1 :: "uint32 \<Rightarrow> uint32" where
  "sha256_Sigma1 x = (drop_bit 6 x OR push_bit 26 x) XOR (drop_bit 11 x OR push_bit 21 x) XOR (drop_bit 25 x OR push_bit 7 x)"

definition sha256_sigma0 :: "uint32 \<Rightarrow> uint32" where
  "sha256_sigma0 x = (drop_bit 7 x OR push_bit 25 x) XOR (drop_bit 18 x OR push_bit 14 x) XOR drop_bit 3 x"

definition sha256_sigma1 :: "uint32 \<Rightarrow> uint32" where
  "sha256_sigma1 x = (drop_bit 17 x OR push_bit 15 x) XOR (drop_bit 19 x OR push_bit 13 x) XOR drop_bit 10 x"

text \<open>\<open>Round\<close> returns the new values of its two reference parameters \<open>d\<close> and \<open>h\<close>.\<close>

definition sha256_Round ::
    "uint32 \<Rightarrow> uint32 \<Rightarrow> uint32 \<Rightarrow> uint32 \<Rightarrow> uint32 \<Rightarrow> uint32 \<Rightarrow> uint32 \<Rightarrow> uint32 \<Rightarrow> uint32 \<Rightarrow> uint32 \<Rightarrow> uint32 \<times> uint32" where
  "sha256_Round a b c d e f g h k w =
     (let t1 = h + sha256_Sigma1 e + sha256_Ch e f g + k + w;
          t2 = sha256_Sigma0 a + sha256_Maj a b c
      in (d + t1, t1 + t2))"

definition sha256_Initialize :: "uint32 list" where
  "sha256_Initialize = [0x6a09e667, 0xbb67ae85, 0x3c6ef372, 0xa54ff53a, 0x510e527f, 0x9b05688c, 0x1f83d9ab, 0x5be0cd19]"

text \<open>The constants of the rounds, a row for each turn of the eight registers.\<close>

definition K256 :: "uint32 list" where
  "K256 = concat
     [[0x428a2f98, 0x71374491, 0xb5c0fbcf, 0xe9b5dba5, 0x3956c25b, 0x59f111f1, 0x923f82a4, 0xab1c5ed5],
      [0xd807aa98, 0x12835b01, 0x243185be, 0x550c7dc3, 0x72be5d74, 0x80deb1fe, 0x9bdc06a7, 0xc19bf174],
      [0xe49b69c1, 0xefbe4786, 0x0fc19dc6, 0x240ca1cc, 0x2de92c6f, 0x4a7484aa, 0x5cb0a9dc, 0x76f988da],
      [0x983e5152, 0xa831c66d, 0xb00327c8, 0xbf597fc7, 0xc6e00bf3, 0xd5a79147, 0x06ca6351, 0x14292967],
      [0x27b70a85, 0x2e1b2138, 0x4d2c6dfc, 0x53380d13, 0x650a7354, 0x766a0abb, 0x81c2c92e, 0x92722c85],
      [0xa2bfe8a1, 0xa81a664b, 0xc24b8b70, 0xc76c51a3, 0xd192e819, 0xd6990624, 0xf40e3585, 0x106aa070],
      [0x19a4c116, 0x1e376c08, 0x2748774c, 0x34b0bcb5, 0x391c0cb3, 0x4ed8aa4a, 0x5b9cca4f, 0x682e6ff3],
      [0x748f82ee, 0x78a5636f, 0x84c87814, 0x8cc70208, 0x90befffa, 0xa4506ceb, 0xbef9a3f7, 0xc67178f2]]"

definition rounds16 :: "uint32 list \<Rightarrow> uint32 list \<Rightarrow> regs256 \<Rightarrow> regs256" where
  "rounds16 k w r =
     (case r of (a, b, c, d, e, f, g, h) \<Rightarrow>
      let
          (d, h) = sha256_Round a b c d e f g h (k ! 0) (w ! 0);
          (c, g) = sha256_Round h a b c d e f g (k ! 1) (w ! 1);
          (b, f) = sha256_Round g h a b c d e f (k ! 2) (w ! 2);
          (a, e) = sha256_Round f g h a b c d e (k ! 3) (w ! 3);
          (h, d) = sha256_Round e f g h a b c d (k ! 4) (w ! 4);
          (g, c) = sha256_Round d e f g h a b c (k ! 5) (w ! 5);
          (f, b) = sha256_Round c d e f g h a b (k ! 6) (w ! 6);
          (e, a) = sha256_Round b c d e f g h a (k ! 7) (w ! 7);
          (d, h) = sha256_Round a b c d e f g h (k ! 8) (w ! 8);
          (c, g) = sha256_Round h a b c d e f g (k ! 9) (w ! 9);
          (b, f) = sha256_Round g h a b c d e f (k ! 10) (w ! 10);
          (a, e) = sha256_Round f g h a b c d e (k ! 11) (w ! 11);
          (h, d) = sha256_Round e f g h a b c d (k ! 12) (w ! 12);
          (g, c) = sha256_Round d e f g h a b c (k ! 13) (w ! 13);
          (f, b) = sha256_Round c d e f g h a b (k ! 14) (w ! 14);
          (e, a) = sha256_Round b c d e f g h a (k ! 15) (w ! 15)
      in (a, b, c, d, e, f, g, h))"

definition expand16 :: "uint32 list \<Rightarrow> uint32 list" where
  "expand16 w0 =
     foldl (\<lambda>w i. w[i := w ! i + (sha256_sigma1 (w ! ((i + 14) mod 16)) + w ! ((i + 9) mod 16) + sha256_sigma0 (w ! ((i + 1) mod 16)))])
       w0 [0..<16]"

definition regs_of :: "uint32 list \<Rightarrow> regs256" where
  "regs_of s = (s ! 0, s ! 1, s ! 2, s ! 3, s ! 4, s ! 5, s ! 6, s ! 7)"

definition list_of_regs :: "regs256 \<Rightarrow> uint32 list" where
  "list_of_regs r = (case r of (a, b, c, d, e, f, g, h) \<Rightarrow> [a, b, c, d, e, f, g, h])"

text \<open>The body of the loop of \<open>Transform\<close>, for one block.\<close>

definition sha256_block :: "uint32 list \<Rightarrow> bytes \<Rightarrow> uint32 list" where
  "sha256_block s chunk =
     (let w0 = map (\<lambda>i. ReadBE32 (drop (4 * i) chunk)) [0..<16];
          w1 = expand16 w0;
          w2 = expand16 w1;
          w3 = expand16 w2;
          r = rounds16 (drop 48 K256) w3 (rounds16 (drop 32 K256) w2 (rounds16 (drop 16 K256) w1
                (rounds16 K256 w0 (regs_of s))))
      in map2 (+) s (list_of_regs r))"

fun sha256_Transform :: "uint32 list \<Rightarrow> bytes \<Rightarrow> nat \<Rightarrow> uint32 list" where
  "sha256_Transform s chunk 0 = s"
| "sha256_Transform s chunk (Suc blocks) = sha256_Transform (sha256_block s chunk) (drop 64 chunk) blocks"

section \<open>The hasher\<close>

type_synonym CSHA256 = "uint32 list md_hasher"

definition CSHA256_new :: CSHA256 where
  "CSHA256_new = md_new 64 sha256_Initialize"

definition CSHA256_Write :: "CSHA256 \<Rightarrow> bytes \<Rightarrow> CSHA256" where
  "CSHA256_Write = md_Write 64 (\<lambda>s buf. sha256_Transform s buf 1) (\<lambda>s data. sha256_Transform s data (length data div 64))"

definition CSHA256_Finalize :: "CSHA256 \<Rightarrow> bytes \<times> CSHA256" where
  "CSHA256_Finalize =
     md_Finalize 64 (\<lambda>s buf. sha256_Transform s buf 1) (\<lambda>s data. sha256_Transform s data (length data div 64))
       119 WriteBE64 (\<lambda>s. concat (map WriteBE32 s))"

definition CSHA256_Reset :: "CSHA256 \<Rightarrow> CSHA256" where
  "CSHA256_Reset h = h\<lparr>md_bytes := 0, md_s := sha256_Initialize\<rparr>"

section \<open>FIPS 180-4\<close>

text \<open>The functions of section 4.1.2, the message schedule and one round of section 6.2.2.\<close>

definition fips_Ch :: "uint32 \<Rightarrow> uint32 \<Rightarrow> uint32 \<Rightarrow> uint32" where
  "fips_Ch x y z = (x AND y) XOR (NOT x AND z)"

definition fips_Maj :: "uint32 \<Rightarrow> uint32 \<Rightarrow> uint32 \<Rightarrow> uint32" where
  "fips_Maj x y z = (x AND y) XOR (x AND z) XOR (y AND z)"

definition fips_Sigma :: "nat \<Rightarrow> nat \<Rightarrow> nat \<Rightarrow> uint32 \<Rightarrow> uint32" where
  "fips_Sigma i j k x = word_rotr i x XOR word_rotr j x XOR word_rotr k x"

definition fips_sigma :: "nat \<Rightarrow> nat \<Rightarrow> nat \<Rightarrow> uint32 \<Rightarrow> uint32" where
  "fips_sigma i j k x = word_rotr i x XOR word_rotr j x XOR drop_bit k x"

function fips_W :: "(nat \<Rightarrow> uint32) \<Rightarrow> nat \<Rightarrow> uint32" where
  "fips_W M t =
     (if t < 16 then M t
      else fips_sigma 17 19 10 (fips_W M (t - 2)) + fips_W M (t - 7) +
        fips_sigma 7 18 3 (fips_W M (t - 15)) + fips_W M (t - 16))"
  by pat_completeness auto
termination by (relation "measure snd") auto

declare fips_W.simps [simp del]

definition fips_round :: "uint32 \<Rightarrow> uint32 \<Rightarrow> regs256 \<Rightarrow> regs256" where
  "fips_round k w r =
     (case r of (a, b, c, d, e, f, g, h) \<Rightarrow>
      let T1 = h + fips_Sigma 6 11 25 e + fips_Ch e f g + k + w;
          T2 = fips_Sigma 2 13 22 a + fips_Maj a b c
      in (T1 + T2, a, b, c, d + T1, e, f, g))"

definition fips_compress :: "uint32 list \<Rightarrow> bytes \<Rightarrow> uint32 list" where
  "fips_compress s chunk =
     (let W = fips_W (\<lambda>t. ReadBE32 (drop (4 * t) chunk))
      in map2 (+) s (list_of_regs (foldl (\<lambda>r t. fips_round (K256 ! t) (W t) r) (regs_of s) [0..<64])))"

text \<open>The bit functions of the source are those of the standard.\<close>

lemma rotr_or: "n < 32 \<Longrightarrow> drop_bit n x OR push_bit (32 - n) x = word_rotr n (x :: uint32)"
  using rotr_shifts [of n x] by simp

lemma sha256_functions:
  "sha256_Ch = fips_Ch" "sha256_Maj = fips_Maj" "sha256_Sigma0 = fips_Sigma 2 13 22" "sha256_Sigma1 = fips_Sigma 6 11 25"
  "sha256_sigma0 = fips_sigma 7 18 3" "sha256_sigma1 = fips_sigma 17 19 10"
proof -
  show "sha256_Ch = fips_Ch" "sha256_Maj = fips_Maj"
    by (intro ext bit_word_eqI; auto simp: sha256_Ch_def fips_Ch_def sha256_Maj_def fips_Maj_def bit_simps)+
  show "sha256_Sigma0 = fips_Sigma 2 13 22" "sha256_Sigma1 = fips_Sigma 6 11 25"
    "sha256_sigma0 = fips_sigma 7 18 3" "sha256_sigma1 = fips_sigma 17 19 10"
    using rotr_or [of 2] rotr_or [of 13] rotr_or [of 22] rotr_or [of 6] rotr_or [of 11] rotr_or [of 25]
      rotr_or [of 7] rotr_or [of 18] rotr_or [of 17] rotr_or [of 19]
    by (auto simp: sha256_Sigma0_def sha256_Sigma1_def sha256_sigma0_def sha256_sigma1_def fips_Sigma_def fips_sigma_def)
qed

lemma sha256_Round_fips:
  "sha256_Round a b c d e f g h k w = (d', h') \<Longrightarrow> fips_round k w (a, b, c, d, e, f, g, h) = (h', a, b, c, d', e, f, g)"
  by (auto simp: sha256_Round_def fips_round_def Let_def sha256_functions)

lemma rounds16_fips: "rounds16 k w r = foldl (\<lambda>r t. fips_round (k ! t) (w ! t) r) r [0..<16]"
proof -
  obtain a b c d e f g h where r: "r = (a, b, c, d, e, f, g, h)" by (cases r) auto
  have upt: "[0..<16] = [0, 1, 2, 3, 4, 5, 6, 7, 8, 9, 10, 11, 12, 13, 14, 15 :: nat]" by (simp add: upt_rec)
  show ?thesis
    unfolding rounds16_def r prod.case Let_def upt foldl_Cons foldl_Nil
    by (intro case_prod_eqI) (simp only: sha256_Round_fips prod.case)
qed

lemma expand16_fips:
  assumes "W = fips_W M"
  shows "expand16 (map W [t..<t + 16]) = map W [t + 16..<t + 32]"
proof -
  have "W (u + 16) = W u + (sha256_sigma1 (W (u + 14)) + W (u + 9) + sha256_sigma0 (W (u + 1)))" for u
    unfolding assms by (subst fips_W.simps) (simp add: sha256_functions add_ac)
  then have "foldl (\<lambda>w i. w[i := w ! ((i + 0) mod 16) +
        (sha256_sigma1 (w ! ((i + 14) mod 16)) + w ! ((i + 9) mod 16) + sha256_sigma0 (w ! ((i + 1) mod 16)))])
      (map W [t..<t + 16]) [0..<16] = map W [t + 16..<t + 32]"
    by (intro ring_schedule [of t W "\<lambda>g. g 0 + (sha256_sigma1 (g 14) + g 9 + sha256_sigma0 (g 1))"]) simp_all
  moreover have "expand16 w0 = foldl (\<lambda>w i. w[i := w ! ((i + 0) mod 16) +
        (sha256_sigma1 (w ! ((i + 14) mod 16)) + w ! ((i + 9) mod 16) + sha256_sigma0 (w ! ((i + 1) mod 16)))]) w0 [0..<16]" for w0
    unfolding expand16_def by (rule foldl_cong) simp_all
  ultimately show ?thesis by simp
qed

lemma length_K256: "length K256 = 64"
  by (simp add: K256_def)

lemma rounds16_at:
  assumes "W = fips_W M" "t \<le> 64"
  shows "rounds16 (drop t K256) (map W [t..<t + 16]) r = foldl (\<lambda>r t. fips_round (K256 ! t) (W t) r) r [t..<t + 16]"
proof -
  have "foldl (\<lambda>r i. fips_round (drop t K256 ! i) (map W [t..<t + 16] ! i) r) r [0..<16] =
      foldl (\<lambda>r i. fips_round (K256 ! (t + i)) (W (t + i)) r) r [0..<16]"
    by (rule foldl_cong) (use assms(2) in \<open>simp_all add: length_K256\<close>)
  also have "\<dots> = foldl (\<lambda>r t. fips_round (K256 ! t) (W t) r) r (map ((+) t) [0..<16])"
    by (simp add: foldl_map)
  also have "map ((+) t) [0..<16] = [t..<t + 16]" by (rule nth_equalityI) simp_all
  finally show ?thesis by (simp add: rounds16_fips)
qed

lemma sha256_block_fips: "sha256_block s chunk = fips_compress s chunk"
proof -
  let ?W = "fips_W (\<lambda>t. ReadBE32 (drop (4 * t) chunk))"
  have w0: "map (\<lambda>i. ReadBE32 (drop (4 * i) chunk)) [0..<16] = map ?W [0..<0 + 16]"
    by (rule nth_equalityI) (simp_all add: fips_W.simps)
  have w: "expand16 (map ?W [0..<0 + 16]) = map ?W [16..<16 + 16]" "expand16 (map ?W [16..<16 + 16]) = map ?W [32..<32 + 16]"
    "expand16 (map ?W [32..<32 + 16]) = map ?W [48..<48 + 16]"
    using expand16_fips [OF refl, of _ 0] expand16_fips [OF refl, of _ 16] expand16_fips [OF refl, of _ 32] by simp_all
  have upt: "[0..<64] = [0..<0 + 16] @ [16..<16 + 16] @ [32..<32 + 16] @ [48..<48 + 16 :: nat]"
    by (simp add: upt_add_eq_append [of _ _ 16, symmetric] upt_add_eq_append [of 0 16 48, simplified]
        upt_add_eq_append [of 16 32 32, simplified] upt_add_eq_append [of 32 48 16, simplified])
  have le: "(0 :: nat) \<le> 64" "(16 :: nat) \<le> 64" "(32 :: nat) \<le> 64" "(48 :: nat) \<le> 64" by simp_all
  show ?thesis
    unfolding sha256_block_def fips_compress_def Let_def w0 w upt foldl_append
      rounds16_at [OF refl le(1), unfolded drop_0] rounds16_at [OF refl le(2)] rounds16_at [OF refl le(3)] rounds16_at [OF refl le(4)]
    by (rule refl)
qed

section \<open>The contract\<close>

lemma fips_W_cong: "(\<And>t. t < 16 \<Longrightarrow> M t = M' t) \<Longrightarrow> fips_W M t = fips_W M' t"
  by (induction t rule: less_induct) (subst (1 2) fips_W.simps, simp)

lemma fips_compress_take: "64 \<le> length chunk \<Longrightarrow> fips_compress s (take 64 chunk) = fips_compress s chunk"
  using fips_W_cong [of "\<lambda>t. ReadBE32 (drop (4 * t) (take 64 chunk))" "\<lambda>t. ReadBE32 (drop (4 * t) chunk)"]
  by (simp add: fips_compress_def ReadBE32_def)

lemma sha256_Transform_loop: "sha256_Transform s data (length data div 64) = md_loop 64 fips_compress s data"
proof (induction "length data" arbitrary: s data rule: less_induct)
  case less
  show ?case
  proof (cases "64 \<le> length data")
    case True
    then have "length data div 64 = Suc (length (drop 64 data) div 64)" by (simp add: div_if)
    then show ?thesis
      using less.hyps [of "drop 64 data" "sha256_block s data"] True
      by (simp add: md_loop_step sha256_block_fips fips_compress_take)
  qed (simp add: md_loop_short)
qed

lemma sha256_Transform_1: "(\<lambda>s buf. sha256_Transform s buf 1) = fips_compress"
  by (intro ext) (simp add: sha256_block_fips)

interpretation sha256: block_hasher 64 "\<lambda>s buf. sha256_Transform s buf 1"
  "\<lambda>s data. sha256_Transform s data (length data div 64)" sha256_Initialize 119 8 WriteBE64 "\<lambda>s. concat (map WriteBE32 s)"
proof
  show "sha256_Transform s d (length d div 64) = md_loop 64 (\<lambda>s buf. sha256_Transform s buf 1) s d" for s d
    unfolding sha256_Transform_1 by (rule sha256_Transform_loop)
qed simp_all

text \<open>SHA-256 of a byte string by the standard.\<close>

definition fips_sha256 :: "bytes \<Rightarrow> bytes" where
  "fips_sha256 = md_digest 64 fips_compress sha256_Initialize 119 WriteBE64 (\<lambda>s. concat (map WriteBE32 s))"

lemmas CSHA256_defs = CSHA256_new_def CSHA256_Write_def CSHA256_Finalize_def

lemma CSHA256_pieces: "fst (CSHA256_Finalize (foldl CSHA256_Write CSHA256_new ds)) = fips_sha256 (concat ds)"
  using sha256.hash_of_pieces [of ds] unfolding CSHA256_defs fips_sha256_def sha256_Transform_1 .

lemma CSHA256_Finalize_buf: "length (md_buf (snd (CSHA256_Finalize (foldl CSHA256_Write CSHA256_new ds)))) = 64"
  using sha256.Finalize_buf [OF sha256.Write_fold_abs [OF sha256.new_abs]] unfolding CSHA256_defs .

lemma CSHA256_Reset_pieces:
  assumes "length (md_buf h) = 64"
  shows "fst (CSHA256_Finalize (foldl CSHA256_Write (CSHA256_Reset h) ds)) = fips_sha256 (concat ds)"
proof -
  have "md_abs 64 fips_compress sha256_Initialize (CSHA256_Reset h) []"
    using assms by (simp add: md_abs_def CSHA256_Reset_def md_loop_short)
  then show ?thesis
    using sha256.Finalize_digest [OF sha256.Write_fold_abs, of "CSHA256_Reset h" "[]" ds]
    unfolding CSHA256_defs fips_sha256_def sha256_Transform_1 by simp
qed

lemma length_fips_compress: "length s = 8 \<Longrightarrow> length (fips_compress s chunk) = 8"
  by (simp add: fips_compress_def list_of_regs_def Let_def split: prod.split)

lemma length_md_loop_fips: "length s = 8 \<Longrightarrow> length (md_loop 64 fips_compress s m) = 8"
proof (induction "length m" arbitrary: s m rule: less_induct)
  case less
  then show ?case
    by (cases "64 \<le> length m") (simp_all add: md_loop_step md_loop_short length_fips_compress)
qed

lemma length_fips_sha256 [simp]: "length (fips_sha256 m) = 32"
  by (simp add: fips_sha256_def md_digest_def length_concat comp_def sum_list_triv length_md_loop_fips sha256_Initialize_def)

section \<open>Properties\<close>

text \<open>
  C22. SHA-256.  The unrolled compression with role-changing registers and sixteen overwritten schedule words
  is the compression function of FIPS 180-4.  A hasher, new or reset, that is fed a message in pieces of
  any sizes and then finalized returns the 32 bytes of the SHA-256 hash of the whole message: the
  standard's padding, a multiple of 64 bytes in all, and the compression folded over its blocks.
\<close>

theorem sha256_streaming_is_fips:
  assumes "length (md_buf h) = 64"
  shows "sha256_block s chunk = fips_compress s chunk \<and>
    fst (CSHA256_Finalize (foldl CSHA256_Write CSHA256_new ds)) = fips_sha256 (concat ds) \<and>
    fst (CSHA256_Finalize (foldl CSHA256_Write (CSHA256_Reset h) ds)) = fips_sha256 (concat ds) \<and>
    length (fips_sha256 (concat ds)) = 32 \<and> 64 dvd length (concat ds @ md_padding 64 119 WriteBE64 (concat ds))"
  using sha256_block_fips CSHA256_pieces CSHA256_Reset_pieces [OF assms] sha256.padded_length [of "concat ds"] by simp

theorem sha256_streaming_is_fips_witness:
  "fst (CSHA256_Finalize (foldl CSHA256_Write (CSHA256_Reset CSHA256_new) [[0x61], [0x62, 0x63]])) = fips_sha256 [0x61, 0x62, 0x63]"
  using sha256_streaming_is_fips [of CSHA256_new "[]" "[]" "[[0x61], [0x62, 0x63]]"] by (simp add: CSHA256_new_def md_new_def)

end
