(* ===== verification/Sha512.thy ===== *)
theory Sha512
  imports Hasher
begin

text \<open>
  SHA-512, src/src/crypto/sha512.h and sha512.cpp, in the form of the theory of SHA-256: 80 unrolled rounds
  on 64-bit words with blocks of 128 bytes and a length field of 16 bytes, of which the upper eight are 0.
\<close>

section \<open>The compression function\<close>

type_synonym regs512 = "uint64 \<times> uint64 \<times> uint64 \<times> uint64 \<times> uint64 \<times> uint64 \<times> uint64 \<times> uint64"

definition sha512_Ch :: "uint64 \<Rightarrow> uint64 \<Rightarrow> uint64 \<Rightarrow> uint64" where
  "sha512_Ch x y z = z XOR (x AND (y XOR z))"

definition sha512_Maj :: "uint64 \<Rightarrow> uint64 \<Rightarrow> uint64 \<Rightarrow> uint64" where
  "sha512_Maj x y z = (x AND y) OR (z AND (x OR y))"

definition sha512_Sigma0 :: "uint64 \<Rightarrow> uint64" where
  "sha512_Sigma0 x = (drop_bit 28 x OR push_bit 36 x) XOR (drop_bit 34 x OR push_bit 30 x) XOR (drop_bit 39 x OR push_bit 25 x)"

definition sha512_Sigma1 :: "uint64 \<Rightarrow> uint64" where
  "sha512_Sigma1 x = (drop_bit 14 x OR push_bit 50 x) XOR (drop_bit 18 x OR push_bit 46 x) XOR (drop_bit 41 x OR push_bit 23 x)"

definition sha512_sigma0 :: "uint64 \<Rightarrow> uint64" where
  "sha512_sigma0 x = (drop_bit 1 x OR push_bit 63 x) XOR (drop_bit 8 x OR push_bit 56 x) XOR drop_bit 7 x"

definition sha512_sigma1 :: "uint64 \<Rightarrow> uint64" where
  "sha512_sigma1 x = (drop_bit 19 x OR push_bit 45 x) XOR (drop_bit 61 x OR push_bit 3 x) XOR drop_bit 6 x"

text \<open>\<open>Round\<close> returns the new values of its two reference parameters \<open>d\<close> and \<open>h\<close>.\<close>

definition sha512_Round ::
    "uint64 \<Rightarrow> uint64 \<Rightarrow> uint64 \<Rightarrow> uint64 \<Rightarrow> uint64 \<Rightarrow> uint64 \<Rightarrow> uint64 \<Rightarrow> uint64 \<Rightarrow> uint64 \<Rightarrow> uint64 \<Rightarrow> uint64 \<times> uint64" where
  "sha512_Round a b c d e f g h k w =
     (let t1 = h + sha512_Sigma1 e + sha512_Ch e f g + k + w;
          t2 = sha512_Sigma0 a + sha512_Maj a b c
      in (d + t1, t1 + t2))"

definition sha512_Initialize :: "uint64 list" where
  "sha512_Initialize =
     [0x6a09e667f3bcc908, 0xbb67ae8584caa73b, 0x3c6ef372fe94f82b, 0xa54ff53a5f1d36f1,
      0x510e527fade682d1, 0x9b05688c2b3e6c1f, 0x1f83d9abfb41bd6b, 0x5be0cd19137e2179]"

text \<open>The constants of the rounds, a row for each turn of the eight registers.\<close>

definition K512 :: "uint64 list" where
  "K512 = concat
     [[0x428a2f98d728ae22, 0x7137449123ef65cd, 0xb5c0fbcfec4d3b2f, 0xe9b5dba58189dbbc,
       0x3956c25bf348b538, 0x59f111f1b605d019, 0x923f82a4af194f9b, 0xab1c5ed5da6d8118],
      [0xd807aa98a3030242, 0x12835b0145706fbe, 0x243185be4ee4b28c, 0x550c7dc3d5ffb4e2,
       0x72be5d74f27b896f, 0x80deb1fe3b1696b1, 0x9bdc06a725c71235, 0xc19bf174cf692694],
      [0xe49b69c19ef14ad2, 0xefbe4786384f25e3, 0x0fc19dc68b8cd5b5, 0x240ca1cc77ac9c65,
       0x2de92c6f592b0275, 0x4a7484aa6ea6e483, 0x5cb0a9dcbd41fbd4, 0x76f988da831153b5],
      [0x983e5152ee66dfab, 0xa831c66d2db43210, 0xb00327c898fb213f, 0xbf597fc7beef0ee4,
       0xc6e00bf33da88fc2, 0xd5a79147930aa725, 0x06ca6351e003826f, 0x142929670a0e6e70],
      [0x27b70a8546d22ffc, 0x2e1b21385c26c926, 0x4d2c6dfc5ac42aed, 0x53380d139d95b3df,
       0x650a73548baf63de, 0x766a0abb3c77b2a8, 0x81c2c92e47edaee6, 0x92722c851482353b],
      [0xa2bfe8a14cf10364, 0xa81a664bbc423001, 0xc24b8b70d0f89791, 0xc76c51a30654be30,
       0xd192e819d6ef5218, 0xd69906245565a910, 0xf40e35855771202a, 0x106aa07032bbd1b8],
      [0x19a4c116b8d2d0c8, 0x1e376c085141ab53, 0x2748774cdf8eeb99, 0x34b0bcb5e19b48a8,
       0x391c0cb3c5c95a63, 0x4ed8aa4ae3418acb, 0x5b9cca4f7763e373, 0x682e6ff3d6b2b8a3],
      [0x748f82ee5defb2fc, 0x78a5636f43172f60, 0x84c87814a1f0ab72, 0x8cc702081a6439ec,
       0x90befffa23631e28, 0xa4506cebde82bde9, 0xbef9a3f7b2c67915, 0xc67178f2e372532b],
      [0xca273eceea26619c, 0xd186b8c721c0c207, 0xeada7dd6cde0eb1e, 0xf57d4f7fee6ed178,
       0x06f067aa72176fba, 0x0a637dc5a2c898a6, 0x113f9804bef90dae, 0x1b710b35131c471b],
      [0x28db77f523047d84, 0x32caab7b40c72493, 0x3c9ebe0a15c9bebc, 0x431d67c49c100d4c,
       0x4cc5d4becb3e42b6, 0x597f299cfc657e2a, 0x5fcb6fab3ad6faec, 0x6c44198c4a475817]]"

definition rounds16_512 :: "uint64 list \<Rightarrow> uint64 list \<Rightarrow> regs512 \<Rightarrow> regs512" where
  "rounds16_512 k w r =
     (case r of (a, b, c, d, e, f, g, h) \<Rightarrow>
      let
          (d, h) = sha512_Round a b c d e f g h (k ! 0) (w ! 0);
          (c, g) = sha512_Round h a b c d e f g (k ! 1) (w ! 1);
          (b, f) = sha512_Round g h a b c d e f (k ! 2) (w ! 2);
          (a, e) = sha512_Round f g h a b c d e (k ! 3) (w ! 3);
          (h, d) = sha512_Round e f g h a b c d (k ! 4) (w ! 4);
          (g, c) = sha512_Round d e f g h a b c (k ! 5) (w ! 5);
          (f, b) = sha512_Round c d e f g h a b (k ! 6) (w ! 6);
          (e, a) = sha512_Round b c d e f g h a (k ! 7) (w ! 7);
          (d, h) = sha512_Round a b c d e f g h (k ! 8) (w ! 8);
          (c, g) = sha512_Round h a b c d e f g (k ! 9) (w ! 9);
          (b, f) = sha512_Round g h a b c d e f (k ! 10) (w ! 10);
          (a, e) = sha512_Round f g h a b c d e (k ! 11) (w ! 11);
          (h, d) = sha512_Round e f g h a b c d (k ! 12) (w ! 12);
          (g, c) = sha512_Round d e f g h a b c (k ! 13) (w ! 13);
          (f, b) = sha512_Round c d e f g h a b (k ! 14) (w ! 14);
          (e, a) = sha512_Round b c d e f g h a (k ! 15) (w ! 15)
      in (a, b, c, d, e, f, g, h))"

definition expand16_512 :: "uint64 list \<Rightarrow> uint64 list" where
  "expand16_512 w0 =
     foldl (\<lambda>w i. w[i := w ! i + (sha512_sigma1 (w ! ((i + 14) mod 16)) + w ! ((i + 9) mod 16) + sha512_sigma0 (w ! ((i + 1) mod 16)))])
       w0 [0..<16]"

definition regs512_of :: "uint64 list \<Rightarrow> regs512" where
  "regs512_of s = (s ! 0, s ! 1, s ! 2, s ! 3, s ! 4, s ! 5, s ! 6, s ! 7)"

definition list_of_regs512 :: "regs512 \<Rightarrow> uint64 list" where
  "list_of_regs512 r = (case r of (a, b, c, d, e, f, g, h) \<Rightarrow> [a, b, c, d, e, f, g, h])"

definition sha512_Transform :: "uint64 list \<Rightarrow> bytes \<Rightarrow> uint64 list" where
  "sha512_Transform s chunk =
     (let w0 = map (\<lambda>i. ReadBE64 (drop (8 * i) chunk)) [0..<16];
          w1 = expand16_512 w0;
          w2 = expand16_512 w1;
          w3 = expand16_512 w2;
          w4 = expand16_512 w3;
          r = rounds16_512 (drop 64 K512) w4 (rounds16_512 (drop 48 K512) w3 (rounds16_512 (drop 32 K512) w2
                (rounds16_512 (drop 16 K512) w1 (rounds16_512 K512 w0 (regs512_of s)))))
      in map2 (+) s (list_of_regs512 r))"

section \<open>The hasher\<close>

type_synonym CSHA512 = "uint64 list md_hasher"

definition CSHA512_new :: CSHA512 where
  "CSHA512_new = md_new 128 sha512_Initialize"

definition CSHA512_Write :: "CSHA512 \<Rightarrow> bytes \<Rightarrow> CSHA512" where
  "CSHA512_Write = md_Write 128 sha512_Transform (md_loop 128 sha512_Transform)"

definition CSHA512_Finalize :: "CSHA512 \<Rightarrow> bytes \<times> CSHA512" where
  "CSHA512_Finalize =
     md_Finalize 128 sha512_Transform (md_loop 128 sha512_Transform)
       239 (\<lambda>n. replicate 8 0 @ WriteBE64 n) (\<lambda>s. concat (map WriteBE64 s))"

definition CSHA512_Reset :: "CSHA512 \<Rightarrow> CSHA512" where
  "CSHA512_Reset h = h\<lparr>md_bytes := 0, md_s := sha512_Initialize\<rparr>"

section \<open>FIPS 180-4\<close>

text \<open>The functions of section 4.1.3, the message schedule and one round of section 6.4.2.\<close>

definition fips512_Ch :: "uint64 \<Rightarrow> uint64 \<Rightarrow> uint64 \<Rightarrow> uint64" where
  "fips512_Ch x y z = (x AND y) XOR (NOT x AND z)"

definition fips512_Maj :: "uint64 \<Rightarrow> uint64 \<Rightarrow> uint64 \<Rightarrow> uint64" where
  "fips512_Maj x y z = (x AND y) XOR (x AND z) XOR (y AND z)"

definition fips512_Sigma :: "nat \<Rightarrow> nat \<Rightarrow> nat \<Rightarrow> uint64 \<Rightarrow> uint64" where
  "fips512_Sigma i j k x = word_rotr i x XOR word_rotr j x XOR word_rotr k x"

definition fips512_sigma :: "nat \<Rightarrow> nat \<Rightarrow> nat \<Rightarrow> uint64 \<Rightarrow> uint64" where
  "fips512_sigma i j k x = word_rotr i x XOR word_rotr j x XOR drop_bit k x"

function fips512_W :: "(nat \<Rightarrow> uint64) \<Rightarrow> nat \<Rightarrow> uint64" where
  "fips512_W M t =
     (if t < 16 then M t
      else fips512_sigma 19 61 6 (fips512_W M (t - 2)) + fips512_W M (t - 7) +
        fips512_sigma 1 8 7 (fips512_W M (t - 15)) + fips512_W M (t - 16))"
  by pat_completeness auto
termination by (relation "measure snd") auto

declare fips512_W.simps [simp del]

definition fips512_round :: "uint64 \<Rightarrow> uint64 \<Rightarrow> regs512 \<Rightarrow> regs512" where
  "fips512_round k w r =
     (case r of (a, b, c, d, e, f, g, h) \<Rightarrow>
      let T1 = h + fips512_Sigma 14 18 41 e + fips512_Ch e f g + k + w;
          T2 = fips512_Sigma 28 34 39 a + fips512_Maj a b c
      in (T1 + T2, a, b, c, d + T1, e, f, g))"

definition fips512_compress :: "uint64 list \<Rightarrow> bytes \<Rightarrow> uint64 list" where
  "fips512_compress s chunk =
     (let W = fips512_W (\<lambda>t. ReadBE64 (drop (8 * t) chunk))
      in map2 (+) s (list_of_regs512 (foldl (\<lambda>r t. fips512_round (K512 ! t) (W t) r) (regs512_of s) [0..<80])))"

text \<open>The bit functions of the source are those of the standard.\<close>

lemma rotr_or64: "n < 64 \<Longrightarrow> drop_bit n x OR push_bit (64 - n) x = word_rotr n (x :: uint64)"
  using rotr_shifts [of n x] by simp

lemma sha512_functions:
  "sha512_Ch = fips512_Ch" "sha512_Maj = fips512_Maj" "sha512_Sigma0 = fips512_Sigma 28 34 39" "sha512_Sigma1 = fips512_Sigma 14 18 41"
  "sha512_sigma0 = fips512_sigma 1 8 7" "sha512_sigma1 = fips512_sigma 19 61 6"
proof -
  show "sha512_Ch = fips512_Ch" "sha512_Maj = fips512_Maj"
    by (intro ext bit_word_eqI; auto simp: sha512_Ch_def fips512_Ch_def sha512_Maj_def fips512_Maj_def bit_simps)+
  show "sha512_Sigma0 = fips512_Sigma 28 34 39" "sha512_Sigma1 = fips512_Sigma 14 18 41"
    "sha512_sigma0 = fips512_sigma 1 8 7" "sha512_sigma1 = fips512_sigma 19 61 6"
    using rotr_or64 [of 28] rotr_or64 [of 34] rotr_or64 [of 39] rotr_or64 [of 14] rotr_or64 [of 18] rotr_or64 [of 41]
      rotr_or64 [of 1] rotr_or64 [of 8] rotr_or64 [of 19] rotr_or64 [of 61]
    by (auto simp: sha512_Sigma0_def sha512_Sigma1_def sha512_sigma0_def sha512_sigma1_def fips512_Sigma_def fips512_sigma_def)
qed

lemma sha512_Round_fips:
  "sha512_Round a b c d e f g h k w = (d', h') \<Longrightarrow> fips512_round k w (a, b, c, d, e, f, g, h) = (h', a, b, c, d', e, f, g)"
  by (auto simp: sha512_Round_def fips512_round_def Let_def sha512_functions)

lemma rounds16_512_fips: "rounds16_512 k w r = foldl (\<lambda>r t. fips512_round (k ! t) (w ! t) r) r [0..<16]"
proof -
  obtain a b c d e f g h where r: "r = (a, b, c, d, e, f, g, h)" by (cases r) auto
  have upt: "[0..<16] = [0, 1, 2, 3, 4, 5, 6, 7, 8, 9, 10, 11, 12, 13, 14, 15 :: nat]" by (simp add: upt_rec)
  show ?thesis
    unfolding rounds16_512_def r prod.case Let_def upt foldl_Cons foldl_Nil
    by (intro case_prod_eqI) (simp only: sha512_Round_fips prod.case)
qed

lemma expand16_512_fips:
  assumes "W = fips512_W M"
  shows "expand16_512 (map W [t..<t + 16]) = map W [t + 16..<t + 32]"
proof -
  have "W (u + 16) = W u + (sha512_sigma1 (W (u + 14)) + W (u + 9) + sha512_sigma0 (W (u + 1)))" for u
    unfolding assms by (subst fips512_W.simps) (simp add: sha512_functions add_ac)
  then have "foldl (\<lambda>w i. w[i := w ! ((i + 0) mod 16) +
        (sha512_sigma1 (w ! ((i + 14) mod 16)) + w ! ((i + 9) mod 16) + sha512_sigma0 (w ! ((i + 1) mod 16)))])
      (map W [t..<t + 16]) [0..<16] = map W [t + 16..<t + 32]"
    by (intro ring_schedule [of t W "\<lambda>g. g 0 + (sha512_sigma1 (g 14) + g 9 + sha512_sigma0 (g 1))"]) simp_all
  moreover have "expand16_512 w0 = foldl (\<lambda>w i. w[i := w ! ((i + 0) mod 16) +
        (sha512_sigma1 (w ! ((i + 14) mod 16)) + w ! ((i + 9) mod 16) + sha512_sigma0 (w ! ((i + 1) mod 16)))]) w0 [0..<16]" for w0
    unfolding expand16_512_def by (rule foldl_cong) simp_all
  ultimately show ?thesis by simp
qed

lemma length_K512: "length K512 = 80"
  by (simp add: K512_def)

lemma rounds16_512_at:
  assumes "W = fips512_W M" "t \<le> 80"
  shows "rounds16_512 (drop t K512) (map W [t..<t + 16]) r = foldl (\<lambda>r t. fips512_round (K512 ! t) (W t) r) r [t..<t + 16]"
proof -
  have "foldl (\<lambda>r i. fips512_round (drop t K512 ! i) (map W [t..<t + 16] ! i) r) r [0..<16] =
      foldl (\<lambda>r i. fips512_round (K512 ! (t + i)) (W (t + i)) r) r [0..<16]"
    by (rule foldl_cong) (use assms(2) in \<open>simp_all add: length_K512\<close>)
  also have "\<dots> = foldl (\<lambda>r t. fips512_round (K512 ! t) (W t) r) r (map ((+) t) [0..<16])"
    by (simp add: foldl_map)
  also have "map ((+) t) [0..<16] = [t..<t + 16]" by (rule nth_equalityI) simp_all
  finally show ?thesis by (simp add: rounds16_512_fips)
qed

lemma sha512_Transform_fips: "sha512_Transform = fips512_compress"
proof (intro ext)
  fix s chunk
  let ?W = "fips512_W (\<lambda>t. ReadBE64 (drop (8 * t) chunk))"
  have w0: "map (\<lambda>i. ReadBE64 (drop (8 * i) chunk)) [0..<16] = map ?W [0..<0 + 16]"
    by (rule nth_equalityI) (simp_all add: fips512_W.simps)
  have w: "expand16_512 (map ?W [0..<0 + 16]) = map ?W [16..<16 + 16]" "expand16_512 (map ?W [16..<16 + 16]) = map ?W [32..<32 + 16]"
    "expand16_512 (map ?W [32..<32 + 16]) = map ?W [48..<48 + 16]" "expand16_512 (map ?W [48..<48 + 16]) = map ?W [64..<64 + 16]"
    using expand16_512_fips [OF refl, of _ 0] expand16_512_fips [OF refl, of _ 16] expand16_512_fips [OF refl, of _ 32]
      expand16_512_fips [OF refl, of _ 48] by simp_all
  have upt: "[0..<80] = [0..<0 + 16] @ [16..<16 + 16] @ [32..<32 + 16] @ [48..<48 + 16] @ [64..<64 + 16 :: nat]"
    by (simp add: upt_add_eq_append [of 0 16 64, simplified] upt_add_eq_append [of 16 32 48, simplified]
        upt_add_eq_append [of 32 48 32, simplified] upt_add_eq_append [of 48 64 16, simplified])
  have le: "(0 :: nat) \<le> 80" "(16 :: nat) \<le> 80" "(32 :: nat) \<le> 80" "(48 :: nat) \<le> 80" "(64 :: nat) \<le> 80" by simp_all
  show "sha512_Transform s chunk = fips512_compress s chunk"
    unfolding sha512_Transform_def fips512_compress_def Let_def w0 w upt foldl_append
      rounds16_512_at [OF refl le(1), unfolded drop_0] rounds16_512_at [OF refl le(2)] rounds16_512_at [OF refl le(3)]
      rounds16_512_at [OF refl le(4)] rounds16_512_at [OF refl le(5)]
    by (rule refl)
qed

section \<open>The contract\<close>

interpretation sha512: block_hasher 128 sha512_Transform "md_loop 128 sha512_Transform" sha512_Initialize 239 16
  "\<lambda>n. replicate 8 0 @ WriteBE64 n" "\<lambda>s. concat (map WriteBE64 s)"
  by unfold_locales simp_all

text \<open>SHA-512 of a byte string by the standard.\<close>

definition fips_sha512 :: "bytes \<Rightarrow> bytes" where
  "fips_sha512 = md_digest 128 fips512_compress sha512_Initialize 239 (\<lambda>n. replicate 8 0 @ WriteBE64 n) (\<lambda>s. concat (map WriteBE64 s))"

lemmas CSHA512_defs = CSHA512_new_def CSHA512_Write_def CSHA512_Finalize_def

lemma CSHA512_pieces: "fst (CSHA512_Finalize (foldl CSHA512_Write CSHA512_new ds)) = fips_sha512 (concat ds)"
  using sha512.hash_of_pieces [of ds] unfolding CSHA512_defs fips_sha512_def sha512_Transform_fips .

lemma CSHA512_Reset_pieces:
  assumes "length (md_buf h) = 128"
  shows "fst (CSHA512_Finalize (foldl CSHA512_Write (CSHA512_Reset h) ds)) = fips_sha512 (concat ds)"
proof -
  have "md_abs 128 fips512_compress sha512_Initialize (CSHA512_Reset h) []"
    using assms by (simp add: md_abs_def CSHA512_Reset_def md_loop_short)
  then show ?thesis
    using sha512.Finalize_digest [OF sha512.Write_fold_abs, of "CSHA512_Reset h" "[]" ds]
    unfolding CSHA512_defs fips_sha512_def sha512_Transform_fips by simp
qed

lemma length_fips512_compress: "length s = 8 \<Longrightarrow> length (fips512_compress s chunk) = 8"
  by (simp add: fips512_compress_def list_of_regs512_def Let_def split: prod.split)

lemma length_md_loop_fips512: "length s = 8 \<Longrightarrow> length (md_loop 128 fips512_compress s m) = 8"
proof (induction "length m" arbitrary: s m rule: less_induct)
  case less
  then show ?case
    by (cases "128 \<le> length m") (simp_all add: md_loop_step md_loop_short length_fips512_compress)
qed

lemma length_fips_sha512 [simp]: "length (fips_sha512 m) = 64"
  by (simp add: fips_sha512_def md_digest_def length_concat comp_def sum_list_triv length_md_loop_fips512 sha512_Initialize_def)

end
