(* ===== verification/Ripemd160.thy ===== *)
theory Ripemd160
  imports Hasher
begin

text \<open>
  RIPEMD-160, src/src/crypto/ripemd160.h and ripemd160.cpp.  The source interleaves two lines of 80 unrolled
  rounds on two sets of registers; the lines share only the message words, which neither changes, so
  they are written one after the other here: \<open>rmd_rounds11\<close> to \<open>rmd_rounds51\<close> are the five groups of
  sixteen calls of the left line and \<open>rmd_rounds12\<close> to \<open>rmd_rounds52\<close> those of the right one.  The
  reference is the pseudo-code of Dobbertin, Bosselaers and Preneel with its tables.
\<close>

section \<open>The compression function\<close>

type_synonym regs160 = "uint32 \<times> uint32 \<times> uint32 \<times> uint32 \<times> uint32"

definition rmd_f1 :: "uint32 \<Rightarrow> uint32 \<Rightarrow> uint32 \<Rightarrow> uint32" where
  "rmd_f1 x y z = x XOR y XOR z"

definition rmd_f2 :: "uint32 \<Rightarrow> uint32 \<Rightarrow> uint32 \<Rightarrow> uint32" where
  "rmd_f2 x y z = (x AND y) OR (NOT x AND z)"

definition rmd_f3 :: "uint32 \<Rightarrow> uint32 \<Rightarrow> uint32 \<Rightarrow> uint32" where
  "rmd_f3 x y z = (x OR NOT y) XOR z"

definition rmd_f4 :: "uint32 \<Rightarrow> uint32 \<Rightarrow> uint32 \<Rightarrow> uint32" where
  "rmd_f4 x y z = (x AND z) OR (y AND NOT z)"

definition rmd_f5 :: "uint32 \<Rightarrow> uint32 \<Rightarrow> uint32 \<Rightarrow> uint32" where
  "rmd_f5 x y z = x XOR (y OR NOT z)"

definition ripemd160_Initialize :: "uint32 list" where
  "ripemd160_Initialize = [0x67452301, 0xEFCDAB89, 0x98BADCFE, 0x10325476, 0xC3D2E1F0]"

definition rmd_rol :: "uint32 \<Rightarrow> nat \<Rightarrow> uint32" where
  "rmd_rol x i = push_bit i x OR drop_bit (32 - i) x"

text \<open>\<open>Round\<close> returns the new values of its reference parameters \<open>a\<close> and \<open>c\<close>.\<close>

definition rmd_Round ::
    "uint32 \<Rightarrow> uint32 \<Rightarrow> uint32 \<Rightarrow> uint32 \<Rightarrow> uint32 \<Rightarrow> uint32 \<Rightarrow> uint32 \<Rightarrow> uint32 \<Rightarrow> nat \<Rightarrow> uint32 \<times> uint32" where
  "rmd_Round a b c d e f x k r = (rmd_rol (a + f + x + k) r + e, rmd_rol c 10)"

definition R11 :: "uint32 \<Rightarrow> uint32 \<Rightarrow> uint32 \<Rightarrow> uint32 \<Rightarrow> uint32 \<Rightarrow> uint32 \<Rightarrow> nat \<Rightarrow> uint32 \<times> uint32" where
  "R11 a b c d e x r = rmd_Round a b c d e (rmd_f1 b c d) x 0 r"

definition R21 :: "uint32 \<Rightarrow> uint32 \<Rightarrow> uint32 \<Rightarrow> uint32 \<Rightarrow> uint32 \<Rightarrow> uint32 \<Rightarrow> nat \<Rightarrow> uint32 \<times> uint32" where
  "R21 a b c d e x r = rmd_Round a b c d e (rmd_f2 b c d) x 0x5A827999 r"

definition R31 :: "uint32 \<Rightarrow> uint32 \<Rightarrow> uint32 \<Rightarrow> uint32 \<Rightarrow> uint32 \<Rightarrow> uint32 \<Rightarrow> nat \<Rightarrow> uint32 \<times> uint32" where
  "R31 a b c d e x r = rmd_Round a b c d e (rmd_f3 b c d) x 0x6ED9EBA1 r"

definition R41 :: "uint32 \<Rightarrow> uint32 \<Rightarrow> uint32 \<Rightarrow> uint32 \<Rightarrow> uint32 \<Rightarrow> uint32 \<Rightarrow> nat \<Rightarrow> uint32 \<times> uint32" where
  "R41 a b c d e x r = rmd_Round a b c d e (rmd_f4 b c d) x 0x8F1BBCDC r"

definition R51 :: "uint32 \<Rightarrow> uint32 \<Rightarrow> uint32 \<Rightarrow> uint32 \<Rightarrow> uint32 \<Rightarrow> uint32 \<Rightarrow> nat \<Rightarrow> uint32 \<times> uint32" where
  "R51 a b c d e x r = rmd_Round a b c d e (rmd_f5 b c d) x 0xA953FD4E r"

definition R12 :: "uint32 \<Rightarrow> uint32 \<Rightarrow> uint32 \<Rightarrow> uint32 \<Rightarrow> uint32 \<Rightarrow> uint32 \<Rightarrow> nat \<Rightarrow> uint32 \<times> uint32" where
  "R12 a b c d e x r = rmd_Round a b c d e (rmd_f5 b c d) x 0x50A28BE6 r"

definition R22 :: "uint32 \<Rightarrow> uint32 \<Rightarrow> uint32 \<Rightarrow> uint32 \<Rightarrow> uint32 \<Rightarrow> uint32 \<Rightarrow> nat \<Rightarrow> uint32 \<times> uint32" where
  "R22 a b c d e x r = rmd_Round a b c d e (rmd_f4 b c d) x 0x5C4DD124 r"

definition R32 :: "uint32 \<Rightarrow> uint32 \<Rightarrow> uint32 \<Rightarrow> uint32 \<Rightarrow> uint32 \<Rightarrow> uint32 \<Rightarrow> nat \<Rightarrow> uint32 \<times> uint32" where
  "R32 a b c d e x r = rmd_Round a b c d e (rmd_f3 b c d) x 0x6D703EF3 r"

definition R42 :: "uint32 \<Rightarrow> uint32 \<Rightarrow> uint32 \<Rightarrow> uint32 \<Rightarrow> uint32 \<Rightarrow> uint32 \<Rightarrow> nat \<Rightarrow> uint32 \<times> uint32" where
  "R42 a b c d e x r = rmd_Round a b c d e (rmd_f2 b c d) x 0x7A6D76E9 r"

definition R52 :: "uint32 \<Rightarrow> uint32 \<Rightarrow> uint32 \<Rightarrow> uint32 \<Rightarrow> uint32 \<Rightarrow> uint32 \<Rightarrow> nat \<Rightarrow> uint32 \<times> uint32" where
  "R52 a b c d e x r = rmd_Round a b c d e (rmd_f1 b c d) x 0 r"

definition rmd_rounds11 :: "uint32 list \<Rightarrow> regs160 \<Rightarrow> regs160" where
  "rmd_rounds11 w r =
     (case r of (a, b, c, d, e) \<Rightarrow>
      let
          (a, c) = R11 a b c d e (w ! 0) 11;
          (e, b) = R11 e a b c d (w ! 1) 14;
          (d, a) = R11 d e a b c (w ! 2) 15;
          (c, e) = R11 c d e a b (w ! 3) 12;
          (b, d) = R11 b c d e a (w ! 4) 5;
          (a, c) = R11 a b c d e (w ! 5) 8;
          (e, b) = R11 e a b c d (w ! 6) 7;
          (d, a) = R11 d e a b c (w ! 7) 9;
          (c, e) = R11 c d e a b (w ! 8) 11;
          (b, d) = R11 b c d e a (w ! 9) 13;
          (a, c) = R11 a b c d e (w ! 10) 14;
          (e, b) = R11 e a b c d (w ! 11) 15;
          (d, a) = R11 d e a b c (w ! 12) 6;
          (c, e) = R11 c d e a b (w ! 13) 7;
          (b, d) = R11 b c d e a (w ! 14) 9;
          (a, c) = R11 a b c d e (w ! 15) 8
      in (a, b, c, d, e))"

definition rmd_rounds21 :: "uint32 list \<Rightarrow> regs160 \<Rightarrow> regs160" where
  "rmd_rounds21 w r =
     (case r of (a, b, c, d, e) \<Rightarrow>
      let
          (e, b) = R21 e a b c d (w ! 7) 7;
          (d, a) = R21 d e a b c (w ! 4) 6;
          (c, e) = R21 c d e a b (w ! 13) 8;
          (b, d) = R21 b c d e a (w ! 1) 13;
          (a, c) = R21 a b c d e (w ! 10) 11;
          (e, b) = R21 e a b c d (w ! 6) 9;
          (d, a) = R21 d e a b c (w ! 15) 7;
          (c, e) = R21 c d e a b (w ! 3) 15;
          (b, d) = R21 b c d e a (w ! 12) 7;
          (a, c) = R21 a b c d e (w ! 0) 12;
          (e, b) = R21 e a b c d (w ! 9) 15;
          (d, a) = R21 d e a b c (w ! 5) 9;
          (c, e) = R21 c d e a b (w ! 2) 11;
          (b, d) = R21 b c d e a (w ! 14) 7;
          (a, c) = R21 a b c d e (w ! 11) 13;
          (e, b) = R21 e a b c d (w ! 8) 12
      in (a, b, c, d, e))"

definition rmd_rounds31 :: "uint32 list \<Rightarrow> regs160 \<Rightarrow> regs160" where
  "rmd_rounds31 w r =
     (case r of (a, b, c, d, e) \<Rightarrow>
      let
          (d, a) = R31 d e a b c (w ! 3) 11;
          (c, e) = R31 c d e a b (w ! 10) 13;
          (b, d) = R31 b c d e a (w ! 14) 6;
          (a, c) = R31 a b c d e (w ! 4) 7;
          (e, b) = R31 e a b c d (w ! 9) 14;
          (d, a) = R31 d e a b c (w ! 15) 9;
          (c, e) = R31 c d e a b (w ! 8) 13;
          (b, d) = R31 b c d e a (w ! 1) 15;
          (a, c) = R31 a b c d e (w ! 2) 14;
          (e, b) = R31 e a b c d (w ! 7) 8;
          (d, a) = R31 d e a b c (w ! 0) 13;
          (c, e) = R31 c d e a b (w ! 6) 6;
          (b, d) = R31 b c d e a (w ! 13) 5;
          (a, c) = R31 a b c d e (w ! 11) 12;
          (e, b) = R31 e a b c d (w ! 5) 7;
          (d, a) = R31 d e a b c (w ! 12) 5
      in (a, b, c, d, e))"

definition rmd_rounds41 :: "uint32 list \<Rightarrow> regs160 \<Rightarrow> regs160" where
  "rmd_rounds41 w r =
     (case r of (a, b, c, d, e) \<Rightarrow>
      let
          (c, e) = R41 c d e a b (w ! 1) 11;
          (b, d) = R41 b c d e a (w ! 9) 12;
          (a, c) = R41 a b c d e (w ! 11) 14;
          (e, b) = R41 e a b c d (w ! 10) 15;
          (d, a) = R41 d e a b c (w ! 0) 14;
          (c, e) = R41 c d e a b (w ! 8) 15;
          (b, d) = R41 b c d e a (w ! 12) 9;
          (a, c) = R41 a b c d e (w ! 4) 8;
          (e, b) = R41 e a b c d (w ! 13) 9;
          (d, a) = R41 d e a b c (w ! 3) 14;
          (c, e) = R41 c d e a b (w ! 7) 5;
          (b, d) = R41 b c d e a (w ! 15) 6;
          (a, c) = R41 a b c d e (w ! 14) 8;
          (e, b) = R41 e a b c d (w ! 5) 6;
          (d, a) = R41 d e a b c (w ! 6) 5;
          (c, e) = R41 c d e a b (w ! 2) 12
      in (a, b, c, d, e))"

definition rmd_rounds51 :: "uint32 list \<Rightarrow> regs160 \<Rightarrow> regs160" where
  "rmd_rounds51 w r =
     (case r of (a, b, c, d, e) \<Rightarrow>
      let
          (b, d) = R51 b c d e a (w ! 4) 9;
          (a, c) = R51 a b c d e (w ! 0) 15;
          (e, b) = R51 e a b c d (w ! 5) 5;
          (d, a) = R51 d e a b c (w ! 9) 11;
          (c, e) = R51 c d e a b (w ! 7) 6;
          (b, d) = R51 b c d e a (w ! 12) 8;
          (a, c) = R51 a b c d e (w ! 2) 13;
          (e, b) = R51 e a b c d (w ! 10) 12;
          (d, a) = R51 d e a b c (w ! 14) 5;
          (c, e) = R51 c d e a b (w ! 1) 12;
          (b, d) = R51 b c d e a (w ! 3) 13;
          (a, c) = R51 a b c d e (w ! 8) 14;
          (e, b) = R51 e a b c d (w ! 11) 11;
          (d, a) = R51 d e a b c (w ! 6) 8;
          (c, e) = R51 c d e a b (w ! 15) 5;
          (b, d) = R51 b c d e a (w ! 13) 6
      in (a, b, c, d, e))"

definition rmd_rounds12 :: "uint32 list \<Rightarrow> regs160 \<Rightarrow> regs160" where
  "rmd_rounds12 w r =
     (case r of (a, b, c, d, e) \<Rightarrow>
      let
          (a, c) = R12 a b c d e (w ! 5) 8;
          (e, b) = R12 e a b c d (w ! 14) 9;
          (d, a) = R12 d e a b c (w ! 7) 9;
          (c, e) = R12 c d e a b (w ! 0) 11;
          (b, d) = R12 b c d e a (w ! 9) 13;
          (a, c) = R12 a b c d e (w ! 2) 15;
          (e, b) = R12 e a b c d (w ! 11) 15;
          (d, a) = R12 d e a b c (w ! 4) 5;
          (c, e) = R12 c d e a b (w ! 13) 7;
          (b, d) = R12 b c d e a (w ! 6) 7;
          (a, c) = R12 a b c d e (w ! 15) 8;
          (e, b) = R12 e a b c d (w ! 8) 11;
          (d, a) = R12 d e a b c (w ! 1) 14;
          (c, e) = R12 c d e a b (w ! 10) 14;
          (b, d) = R12 b c d e a (w ! 3) 12;
          (a, c) = R12 a b c d e (w ! 12) 6
      in (a, b, c, d, e))"

definition rmd_rounds22 :: "uint32 list \<Rightarrow> regs160 \<Rightarrow> regs160" where
  "rmd_rounds22 w r =
     (case r of (a, b, c, d, e) \<Rightarrow>
      let
          (e, b) = R22 e a b c d (w ! 6) 9;
          (d, a) = R22 d e a b c (w ! 11) 13;
          (c, e) = R22 c d e a b (w ! 3) 15;
          (b, d) = R22 b c d e a (w ! 7) 7;
          (a, c) = R22 a b c d e (w ! 0) 12;
          (e, b) = R22 e a b c d (w ! 13) 8;
          (d, a) = R22 d e a b c (w ! 5) 9;
          (c, e) = R22 c d e a b (w ! 10) 11;
          (b, d) = R22 b c d e a (w ! 14) 7;
          (a, c) = R22 a b c d e (w ! 15) 7;
          (e, b) = R22 e a b c d (w ! 8) 12;
          (d, a) = R22 d e a b c (w ! 12) 7;
          (c, e) = R22 c d e a b (w ! 4) 6;
          (b, d) = R22 b c d e a (w ! 9) 15;
          (a, c) = R22 a b c d e (w ! 1) 13;
          (e, b) = R22 e a b c d (w ! 2) 11
      in (a, b, c, d, e))"

definition rmd_rounds32 :: "uint32 list \<Rightarrow> regs160 \<Rightarrow> regs160" where
  "rmd_rounds32 w r =
     (case r of (a, b, c, d, e) \<Rightarrow>
      let
          (d, a) = R32 d e a b c (w ! 15) 9;
          (c, e) = R32 c d e a b (w ! 5) 7;
          (b, d) = R32 b c d e a (w ! 1) 15;
          (a, c) = R32 a b c d e (w ! 3) 11;
          (e, b) = R32 e a b c d (w ! 7) 8;
          (d, a) = R32 d e a b c (w ! 14) 6;
          (c, e) = R32 c d e a b (w ! 6) 6;
          (b, d) = R32 b c d e a (w ! 9) 14;
          (a, c) = R32 a b c d e (w ! 11) 12;
          (e, b) = R32 e a b c d (w ! 8) 13;
          (d, a) = R32 d e a b c (w ! 12) 5;
          (c, e) = R32 c d e a b (w ! 2) 14;
          (b, d) = R32 b c d e a (w ! 10) 13;
          (a, c) = R32 a b c d e (w ! 0) 13;
          (e, b) = R32 e a b c d (w ! 4) 7;
          (d, a) = R32 d e a b c (w ! 13) 5
      in (a, b, c, d, e))"

definition rmd_rounds42 :: "uint32 list \<Rightarrow> regs160 \<Rightarrow> regs160" where
  "rmd_rounds42 w r =
     (case r of (a, b, c, d, e) \<Rightarrow>
      let
          (c, e) = R42 c d e a b (w ! 8) 15;
          (b, d) = R42 b c d e a (w ! 6) 5;
          (a, c) = R42 a b c d e (w ! 4) 8;
          (e, b) = R42 e a b c d (w ! 1) 11;
          (d, a) = R42 d e a b c (w ! 3) 14;
          (c, e) = R42 c d e a b (w ! 11) 14;
          (b, d) = R42 b c d e a (w ! 15) 6;
          (a, c) = R42 a b c d e (w ! 0) 14;
          (e, b) = R42 e a b c d (w ! 5) 6;
          (d, a) = R42 d e a b c (w ! 12) 9;
          (c, e) = R42 c d e a b (w ! 2) 12;
          (b, d) = R42 b c d e a (w ! 13) 9;
          (a, c) = R42 a b c d e (w ! 9) 12;
          (e, b) = R42 e a b c d (w ! 7) 5;
          (d, a) = R42 d e a b c (w ! 10) 15;
          (c, e) = R42 c d e a b (w ! 14) 8
      in (a, b, c, d, e))"

definition rmd_rounds52 :: "uint32 list \<Rightarrow> regs160 \<Rightarrow> regs160" where
  "rmd_rounds52 w r =
     (case r of (a, b, c, d, e) \<Rightarrow>
      let
          (b, d) = R52 b c d e a (w ! 12) 8;
          (a, c) = R52 a b c d e (w ! 15) 5;
          (e, b) = R52 e a b c d (w ! 10) 12;
          (d, a) = R52 d e a b c (w ! 4) 9;
          (c, e) = R52 c d e a b (w ! 1) 12;
          (b, d) = R52 b c d e a (w ! 5) 5;
          (a, c) = R52 a b c d e (w ! 8) 14;
          (e, b) = R52 e a b c d (w ! 7) 6;
          (d, a) = R52 d e a b c (w ! 6) 8;
          (c, e) = R52 c d e a b (w ! 2) 13;
          (b, d) = R52 b c d e a (w ! 13) 6;
          (a, c) = R52 a b c d e (w ! 14) 5;
          (e, b) = R52 e a b c d (w ! 0) 15;
          (d, a) = R52 d e a b c (w ! 3) 13;
          (c, e) = R52 c d e a b (w ! 9) 11;
          (b, d) = R52 b c d e a (w ! 11) 11
      in (a, b, c, d, e))"

definition ripemd160_Transform :: "uint32 list \<Rightarrow> bytes \<Rightarrow> uint32 list" where
  "ripemd160_Transform s chunk =
     (let w = map (\<lambda>i. ReadLE32 (drop (4 * i) chunk)) [0..<16];
          r = (s ! 0, s ! 1, s ! 2, s ! 3, s ! 4);
          (a1, b1, c1, d1, e1) = rmd_rounds51 w (rmd_rounds41 w (rmd_rounds31 w (rmd_rounds21 w (rmd_rounds11 w r))));
          (a2, b2, c2, d2, e2) = rmd_rounds52 w (rmd_rounds42 w (rmd_rounds32 w (rmd_rounds22 w (rmd_rounds12 w r))))
      in [s ! 1 + c1 + d2, s ! 2 + d1 + e2, s ! 3 + e1 + a2, s ! 4 + a1 + b2, s ! 0 + b1 + c2])"

section \<open>The hasher\<close>

type_synonym CRIPEMD160 = "uint32 list md_hasher"

definition CRIPEMD160_new :: CRIPEMD160 where
  "CRIPEMD160_new = md_new 64 ripemd160_Initialize"

definition CRIPEMD160_Write :: "CRIPEMD160 \<Rightarrow> bytes \<Rightarrow> CRIPEMD160" where
  "CRIPEMD160_Write = md_Write 64 ripemd160_Transform (md_loop 64 ripemd160_Transform)"

definition CRIPEMD160_Finalize :: "CRIPEMD160 \<Rightarrow> bytes \<times> CRIPEMD160" where
  "CRIPEMD160_Finalize =
     md_Finalize 64 ripemd160_Transform (md_loop 64 ripemd160_Transform) 119 WriteLE64 (\<lambda>s. concat (map WriteLE32 s))"

definition CRIPEMD160_Reset :: "CRIPEMD160 \<Rightarrow> CRIPEMD160" where
  "CRIPEMD160_Reset h = h\<lparr>md_bytes := 0, md_s := ripemd160_Initialize\<rparr>"

section \<open>The reference\<close>

definition ref_f :: "nat \<Rightarrow> uint32 \<Rightarrow> uint32 \<Rightarrow> uint32 \<Rightarrow> uint32" where
  "ref_f j x y z =
     [x XOR y XOR z, (x AND y) OR (NOT x AND z), (x OR NOT y) XOR z, (x AND z) OR (y AND NOT z), x XOR (y OR NOT z)] ! j"

definition ref_K :: "uint32 list" where
  "ref_K = [0x00000000, 0x5A827999, 0x6ED9EBA1, 0x8F1BBCDC, 0xA953FD4E]"

definition ref_K' :: "uint32 list" where
  "ref_K' = [0x50A28BE6, 0x5C4DD124, 0x6D703EF3, 0x7A6D76E9, 0x00000000]"

definition ref_r :: "nat list list" where
  "ref_r =
     [[0, 1, 2, 3, 4, 5, 6, 7, 8, 9, 10, 11, 12, 13, 14, 15],
      [7, 4, 13, 1, 10, 6, 15, 3, 12, 0, 9, 5, 2, 14, 11, 8],
      [3, 10, 14, 4, 9, 15, 8, 1, 2, 7, 0, 6, 13, 11, 5, 12],
      [1, 9, 11, 10, 0, 8, 12, 4, 13, 3, 7, 15, 14, 5, 6, 2],
      [4, 0, 5, 9, 7, 12, 2, 10, 14, 1, 3, 8, 11, 6, 15, 13]]"

definition ref_r' :: "nat list list" where
  "ref_r' =
     [[5, 14, 7, 0, 9, 2, 11, 4, 13, 6, 15, 8, 1, 10, 3, 12],
      [6, 11, 3, 7, 0, 13, 5, 10, 14, 15, 8, 12, 4, 9, 1, 2],
      [15, 5, 1, 3, 7, 14, 6, 9, 11, 8, 12, 2, 10, 0, 4, 13],
      [8, 6, 4, 1, 3, 11, 15, 0, 5, 12, 2, 13, 9, 7, 10, 14],
      [12, 15, 10, 4, 1, 5, 8, 7, 6, 2, 13, 14, 0, 3, 9, 11]]"

definition ref_s :: "nat list list" where
  "ref_s =
     [[11, 14, 15, 12, 5, 8, 7, 9, 11, 13, 14, 15, 6, 7, 9, 8],
      [7, 6, 8, 13, 11, 9, 7, 15, 7, 12, 15, 9, 11, 7, 13, 12],
      [11, 13, 6, 7, 14, 9, 13, 15, 14, 8, 13, 6, 5, 12, 7, 5],
      [11, 12, 14, 15, 14, 15, 9, 8, 9, 14, 5, 6, 8, 6, 5, 12],
      [9, 15, 5, 11, 6, 8, 13, 12, 5, 12, 13, 14, 11, 8, 5, 6]]"

definition ref_s' :: "nat list list" where
  "ref_s' =
     [[8, 9, 9, 11, 13, 15, 15, 5, 7, 7, 8, 11, 14, 14, 12, 6],
      [9, 13, 15, 7, 12, 8, 9, 11, 7, 7, 12, 7, 6, 15, 13, 11],
      [9, 7, 15, 11, 8, 6, 6, 14, 12, 13, 5, 14, 13, 13, 7, 5],
      [15, 5, 8, 11, 14, 14, 6, 14, 6, 9, 12, 9, 12, 5, 15, 8],
      [8, 5, 12, 9, 12, 5, 14, 6, 8, 13, 6, 5, 15, 13, 11, 11]]"

text \<open>One step, one round of sixteen steps, and one line of five rounds.\<close>

definition ref_step :: "nat \<Rightarrow> uint32 \<Rightarrow> uint32 \<Rightarrow> nat \<Rightarrow> regs160 \<Rightarrow> regs160" where
  "ref_step j K X s r = (case r of (A, B, C, D, E) \<Rightarrow> (E, word_rotl s (A + ref_f j B C D + X + K) + E, B, word_rotl 10 C, D))"

definition ref_round :: "nat \<Rightarrow> uint32 \<Rightarrow> nat list \<Rightarrow> nat list \<Rightarrow> uint32 list \<Rightarrow> regs160 \<Rightarrow> regs160" where
  "ref_round j K rs ss X r = foldl (\<lambda>r i. ref_step j K (X ! (rs ! i)) (ss ! i) r) r [0..<16]"

definition ref_left :: "uint32 list \<Rightarrow> regs160 \<Rightarrow> regs160" where
  "ref_left X r = foldl (\<lambda>r j. ref_round j (ref_K ! j) (ref_r ! j) (ref_s ! j) X r) r [0..<5]"

definition ref_right :: "uint32 list \<Rightarrow> regs160 \<Rightarrow> regs160" where
  "ref_right X r = foldl (\<lambda>r j. ref_round (4 - j) (ref_K' ! j) (ref_r' ! j) (ref_s' ! j) X r) r [0..<5]"

definition ref_compress :: "uint32 list \<Rightarrow> bytes \<Rightarrow> uint32 list" where
  "ref_compress h chunk =
     (let X = map (\<lambda>i. ReadLE32 (drop (4 * i) chunk)) [0..<16];
          (A, B, C, D, E) = ref_left X (h ! 0, h ! 1, h ! 2, h ! 3, h ! 4);
          (A', B', C', D', E') = ref_right X (h ! 0, h ! 1, h ! 2, h ! 3, h ! 4)
      in [h ! 1 + C + D', h ! 2 + D + E', h ! 3 + E + A', h ! 4 + A + B', h ! 0 + B + C'])"

text \<open>One call of the source is one step; the roles of the registers move by one name each time.\<close>

lemma rmd_rol_rotl: "0 < i \<Longrightarrow> i < 32 \<Longrightarrow> rmd_rol x i = word_rotl i x"
  using rotl_shifts [of i x] by (simp add: rmd_rol_def)

lemma rmd_Round_step:
  assumes "rmd_Round a b c d e (ref_f j b c d) x k s = (a', c')" "0 < s" "s < 32"
  shows "ref_step j k x s (a, b, c, d, e) = (e, a', b, c', d)"
  using assms by (auto simp: rmd_Round_def ref_step_def rmd_rol_rotl)

lemma ref_f_simps: "rmd_f1 = ref_f 0" "rmd_f2 = ref_f 1" "rmd_f3 = ref_f 2" "rmd_f4 = ref_f 3" "rmd_f5 = ref_f 4"
  by (simp_all add: fun_eq_iff ref_f_def rmd_f1_def rmd_f2_def rmd_f3_def rmd_f4_def rmd_f5_def)

definition rmd_rot :: "regs160 \<Rightarrow> regs160" where
  "rmd_rot r = (case r of (a, b, c, d, e) \<Rightarrow> (e, a, b, c, d))"

lemma rmd_rot_simp [simp]: "rmd_rot (a, b, c, d, e) = (e, a, b, c, d)"
  by (simp add: rmd_rot_def)

lemma upt16': "[0..<16] = [0, 1, 2, 3, 4, 5, 6, 7, 8, 9, 10, 11, 12, 13, 14, 15 :: nat]"
  by (simp add: upt_rec)

lemmas rmd_calls = R11_def R21_def R31_def R41_def R51_def R12_def R22_def R32_def R42_def R52_def ref_f_simps

lemma rmd_rounds11_ref:
  "rmd_rot (rmd_rounds11 w (a, b, c, d, e)) =
   ref_round 0 (ref_K ! 0) (ref_r ! 0) (ref_s ! 0) w (a, b, c, d, e)"
  unfolding rmd_rounds11_def prod.case Let_def ref_round_def upt16' foldl_Cons foldl_Nil rmd_calls
  by (intro case_prod_eqI_fun [where h = rmd_rot]) (simp add: ref_K_def ref_r_def ref_s_def rmd_Round_step)

lemma rmd_rounds21_ref:
  "rmd_rot (rmd_rot (rmd_rounds21 w (a, b, c, d, e))) =
   ref_round 1 (ref_K ! 1) (ref_r ! 1) (ref_s ! 1) w (rmd_rot (a, b, c, d, e))"
  unfolding rmd_rounds21_def prod.case Let_def ref_round_def upt16' foldl_Cons foldl_Nil rmd_calls
  by (intro case_prod_eqI_fun [where h = "\<lambda>r. rmd_rot (rmd_rot r)"]) (simp add: ref_K_def ref_r_def ref_s_def rmd_Round_step)

lemma rmd_rounds31_ref:
  "rmd_rot (rmd_rot (rmd_rot (rmd_rounds31 w (a, b, c, d, e)))) =
   ref_round 2 (ref_K ! 2) (ref_r ! 2) (ref_s ! 2) w (rmd_rot (rmd_rot (a, b, c, d, e)))"
  unfolding rmd_rounds31_def prod.case Let_def ref_round_def upt16' foldl_Cons foldl_Nil rmd_calls
  by (intro case_prod_eqI_fun [where h = "\<lambda>r. rmd_rot (rmd_rot (rmd_rot r))"]) (simp add: ref_K_def ref_r_def ref_s_def rmd_Round_step)

lemma rmd_rounds41_ref:
  "rmd_rot (rmd_rot (rmd_rot (rmd_rot (rmd_rounds41 w (a, b, c, d, e))))) =
   ref_round 3 (ref_K ! 3) (ref_r ! 3) (ref_s ! 3) w (rmd_rot (rmd_rot (rmd_rot (a, b, c, d, e))))"
  unfolding rmd_rounds41_def prod.case Let_def ref_round_def upt16' foldl_Cons foldl_Nil rmd_calls
  by (intro case_prod_eqI_fun [where h = "\<lambda>r. rmd_rot (rmd_rot (rmd_rot (rmd_rot r)))"]) (simp add: ref_K_def ref_r_def ref_s_def rmd_Round_step)

lemma rmd_rounds51_ref:
  "rmd_rounds51 w (a, b, c, d, e) =
   ref_round 4 (ref_K ! 4) (ref_r ! 4) (ref_s ! 4) w (rmd_rot (rmd_rot (rmd_rot (rmd_rot (a, b, c, d, e)))))"
  unfolding rmd_rounds51_def prod.case Let_def ref_round_def upt16' foldl_Cons foldl_Nil rmd_calls
  by (intro case_prod_eqI) (simp add: ref_K_def ref_r_def ref_s_def rmd_Round_step)

lemma rmd_rounds12_ref:
  "rmd_rot (rmd_rounds12 w (a, b, c, d, e)) =
   ref_round 4 (ref_K' ! 0) (ref_r' ! 0) (ref_s' ! 0) w (a, b, c, d, e)"
  unfolding rmd_rounds12_def prod.case Let_def ref_round_def upt16' foldl_Cons foldl_Nil rmd_calls
  by (intro case_prod_eqI_fun [where h = rmd_rot]) (simp add: ref_K'_def ref_r'_def ref_s'_def rmd_Round_step)

lemma rmd_rounds22_ref:
  "rmd_rot (rmd_rot (rmd_rounds22 w (a, b, c, d, e))) =
   ref_round 3 (ref_K' ! 1) (ref_r' ! 1) (ref_s' ! 1) w (rmd_rot (a, b, c, d, e))"
  unfolding rmd_rounds22_def prod.case Let_def ref_round_def upt16' foldl_Cons foldl_Nil rmd_calls
  by (intro case_prod_eqI_fun [where h = "\<lambda>r. rmd_rot (rmd_rot r)"]) (simp add: ref_K'_def ref_r'_def ref_s'_def rmd_Round_step)

lemma rmd_rounds32_ref:
  "rmd_rot (rmd_rot (rmd_rot (rmd_rounds32 w (a, b, c, d, e)))) =
   ref_round 2 (ref_K' ! 2) (ref_r' ! 2) (ref_s' ! 2) w (rmd_rot (rmd_rot (a, b, c, d, e)))"
  unfolding rmd_rounds32_def prod.case Let_def ref_round_def upt16' foldl_Cons foldl_Nil rmd_calls
  by (intro case_prod_eqI_fun [where h = "\<lambda>r. rmd_rot (rmd_rot (rmd_rot r))"]) (simp add: ref_K'_def ref_r'_def ref_s'_def rmd_Round_step)

lemma rmd_rounds42_ref:
  "rmd_rot (rmd_rot (rmd_rot (rmd_rot (rmd_rounds42 w (a, b, c, d, e))))) =
   ref_round 1 (ref_K' ! 3) (ref_r' ! 3) (ref_s' ! 3) w (rmd_rot (rmd_rot (rmd_rot (a, b, c, d, e))))"
  unfolding rmd_rounds42_def prod.case Let_def ref_round_def upt16' foldl_Cons foldl_Nil rmd_calls
  by (intro case_prod_eqI_fun [where h = "\<lambda>r. rmd_rot (rmd_rot (rmd_rot (rmd_rot r)))"]) (simp add: ref_K'_def ref_r'_def ref_s'_def rmd_Round_step)

lemma rmd_rounds52_ref:
  "rmd_rounds52 w (a, b, c, d, e) =
   ref_round 0 (ref_K' ! 4) (ref_r' ! 4) (ref_s' ! 4) w (rmd_rot (rmd_rot (rmd_rot (rmd_rot (a, b, c, d, e)))))"
  unfolding rmd_rounds52_def prod.case Let_def ref_round_def upt16' foldl_Cons foldl_Nil rmd_calls
  by (intro case_prod_eqI) (simp add: ref_K'_def ref_r'_def ref_s'_def rmd_Round_step)

lemmas rmd_left_ref = rmd_rounds11_ref rmd_rounds21_ref rmd_rounds31_ref rmd_rounds41_ref rmd_rounds51_ref
lemmas rmd_right_ref = rmd_rounds12_ref rmd_rounds22_ref rmd_rounds32_ref rmd_rounds42_ref rmd_rounds52_ref

lemma rmd_left: "rmd_rounds51 w (rmd_rounds41 w (rmd_rounds31 w (rmd_rounds21 w (rmd_rounds11 w r)))) = ref_left w r"
proof -
  have g: "rmd_rot (rmd_rounds11 w r) = ref_round 0 (ref_K ! 0) (ref_r ! 0) (ref_s ! 0) w r"
    "rmd_rot (rmd_rot (rmd_rounds21 w r)) = ref_round 1 (ref_K ! 1) (ref_r ! 1) (ref_s ! 1) w (rmd_rot r)"
    "rmd_rot (rmd_rot (rmd_rot (rmd_rounds31 w r))) = ref_round 2 (ref_K ! 2) (ref_r ! 2) (ref_s ! 2) w (rmd_rot (rmd_rot r))"
    "rmd_rot (rmd_rot (rmd_rot (rmd_rot (rmd_rounds41 w r)))) =
      ref_round 3 (ref_K ! 3) (ref_r ! 3) (ref_s ! 3) w (rmd_rot (rmd_rot (rmd_rot r)))"
    "rmd_rounds51 w r = ref_round 4 (ref_K ! 4) (ref_r ! 4) (ref_s ! 4) w (rmd_rot (rmd_rot (rmd_rot (rmd_rot r))))" for r
    by (cases r; simp only: rmd_left_ref)+
  have "[0..<5] = [0, 1, 2, 3, 4 :: nat]" by (simp add: upt_rec)
  then show ?thesis unfolding ref_left_def g(5) g(4) g(3) g(2) g(1) by simp
qed

lemma rmd_right: "rmd_rounds52 w (rmd_rounds42 w (rmd_rounds32 w (rmd_rounds22 w (rmd_rounds12 w r)))) = ref_right w r"
proof -
  have g: "rmd_rot (rmd_rounds12 w r) = ref_round 4 (ref_K' ! 0) (ref_r' ! 0) (ref_s' ! 0) w r"
    "rmd_rot (rmd_rot (rmd_rounds22 w r)) = ref_round 3 (ref_K' ! 1) (ref_r' ! 1) (ref_s' ! 1) w (rmd_rot r)"
    "rmd_rot (rmd_rot (rmd_rot (rmd_rounds32 w r))) = ref_round 2 (ref_K' ! 2) (ref_r' ! 2) (ref_s' ! 2) w (rmd_rot (rmd_rot r))"
    "rmd_rot (rmd_rot (rmd_rot (rmd_rot (rmd_rounds42 w r)))) =
      ref_round 1 (ref_K' ! 3) (ref_r' ! 3) (ref_s' ! 3) w (rmd_rot (rmd_rot (rmd_rot r)))"
    "rmd_rounds52 w r = ref_round 0 (ref_K' ! 4) (ref_r' ! 4) (ref_s' ! 4) w (rmd_rot (rmd_rot (rmd_rot (rmd_rot r))))" for r
    by (cases r; simp only: rmd_right_ref)+
  have "[0..<5] = [0, 1, 2, 3, 4 :: nat]" by (simp add: upt_rec)
  then show ?thesis unfolding ref_right_def g(5) g(4) g(3) g(2) g(1) by simp
qed

lemma ripemd160_Transform_ref: "ripemd160_Transform = ref_compress"
  by (intro ext) (simp only: ripemd160_Transform_def ref_compress_def rmd_left rmd_right Let_def)

section \<open>The contract\<close>

interpretation ripemd160: block_hasher 64 ripemd160_Transform "md_loop 64 ripemd160_Transform" ripemd160_Initialize 119 8
  WriteLE64 "\<lambda>s. concat (map WriteLE32 s)"
  by unfold_locales simp_all

definition ref_ripemd160 :: "bytes \<Rightarrow> bytes" where
  "ref_ripemd160 = md_digest 64 ref_compress ripemd160_Initialize 119 WriteLE64 (\<lambda>s. concat (map WriteLE32 s))"

lemmas CRIPEMD160_defs = CRIPEMD160_new_def CRIPEMD160_Write_def CRIPEMD160_Finalize_def

lemma CRIPEMD160_pieces: "fst (CRIPEMD160_Finalize (foldl CRIPEMD160_Write CRIPEMD160_new ds)) = ref_ripemd160 (concat ds)"
  using ripemd160.hash_of_pieces [of ds] unfolding CRIPEMD160_defs ref_ripemd160_def ripemd160_Transform_ref .

lemma CRIPEMD160_Reset_pieces:
  assumes "length (md_buf h) = 64"
  shows "fst (CRIPEMD160_Finalize (foldl CRIPEMD160_Write (CRIPEMD160_Reset h) ds)) = ref_ripemd160 (concat ds)"
proof -
  have "md_abs 64 ref_compress ripemd160_Initialize (CRIPEMD160_Reset h) []"
    using assms by (simp add: md_abs_def CRIPEMD160_Reset_def md_loop_short)
  then show ?thesis
    using ripemd160.Finalize_digest [OF ripemd160.Write_fold_abs, of "CRIPEMD160_Reset h" "[]" ds]
    unfolding CRIPEMD160_defs ref_ripemd160_def ripemd160_Transform_ref by simp
qed

end
