(* ===== verification/HashLib.thy ===== *)
theory HashLib
  imports Sha1 Sha256 Sha512 Ripemd160 Uint256
begin

text \<open>
  The hash functions the rest of the program calls, src/src/hash.h, hash.cpp and crypto/hmac_sha256.cpp and
  hmac_sha512.cpp: the double SHA-256 and the SHA-256/RIPEMD-160 hashers, HMAC, BIP 32 child hashes,
  MurmurHash3 and SipHash.  \<open>Hash\<close> takes the list of the objects that the overloads of the template
  take one by one.  The X16R chain and PHIHASH are not modelled.
\<close>

section \<open>Double hashes\<close>

type_synonym CHash256 = CSHA256

definition CHash256_Write :: "CHash256 \<Rightarrow> bytes \<Rightarrow> CHash256" where
  "CHash256_Write = CSHA256_Write"

definition CHash256_Finalize :: "CHash256 \<Rightarrow> bytes \<times> CHash256" where
  "CHash256_Finalize sha =
     (let (buf, sha) = CSHA256_Finalize sha
      in CSHA256_Finalize (CSHA256_Write (CSHA256_Reset sha) buf))"

definition CHash256_Reset :: "CHash256 \<Rightarrow> CHash256" where
  "CHash256_Reset = CSHA256_Reset"

definition CHash160_Finalize :: "CSHA256 \<Rightarrow> bytes \<times> CSHA256" where
  "CHash160_Finalize sha =
     (let (buf, sha) = CSHA256_Finalize sha
      in (fst (CRIPEMD160_Finalize (CRIPEMD160_Write CRIPEMD160_new buf)), sha))"

definition Hash :: "bytes list \<Rightarrow> bytes" where
  "Hash objects = fst (CHash256_Finalize (foldl CHash256_Write CSHA256_new objects))"

definition Hash160 :: "bytes \<Rightarrow> bytes" where
  "Hash160 vch = fst (CHash160_Finalize (CSHA256_Write CSHA256_new vch))"

text \<open>A stream that hashes what is written to it.\<close>

record CHashWriter =
  hw_ctx :: CHash256
  hw_nType :: int
  hw_nVersion :: int

definition CHashWriter_new :: "int \<Rightarrow> int \<Rightarrow> CHashWriter" where
  "CHashWriter_new nType nVersion = \<lparr>hw_ctx = CSHA256_new, hw_nType = nType, hw_nVersion = nVersion\<rparr>"

definition CHashWriter_write :: "CHashWriter \<Rightarrow> bytes \<Rightarrow> CHashWriter" where
  "CHashWriter_write w pch = w\<lparr>hw_ctx := CHash256_Write (hw_ctx w) pch\<rparr>"

definition CHashWriter_GetHash :: "CHashWriter \<Rightarrow> bytes" where
  "CHashWriter_GetHash w = fst (CHash256_Finalize (hw_ctx w))"

section \<open>HMAC\<close>

record 'h CHMAC =
  hmac_outer :: 'h
  hmac_inner :: 'h

text \<open>
  The two classes differ in the block size, the output size and the hasher; \<open>rkey\<close> is the key padded to
  a block, or its hash if it is longer.
\<close>

definition hmac_rkey :: "nat \<Rightarrow> nat \<Rightarrow> (bytes \<Rightarrow> bytes) \<Rightarrow> bytes \<Rightarrow> bytes" where
  "hmac_rkey blk outsize hash key =
     (if length key \<le> blk then key @ replicate (blk - length key) 0
      else hash key @ replicate (blk - outsize) 0)"

definition CHMAC_SHA256_new :: "bytes \<Rightarrow> CSHA256 CHMAC" where
  "CHMAC_SHA256_new key =
     (let rkey = hmac_rkey 64 32 (\<lambda>k. fst (CSHA256_Finalize (CSHA256_Write CSHA256_new k))) key;
          rkey = map (\<lambda>x. x XOR 0x5c) rkey;
          out = CSHA256_Write CSHA256_new rkey;
          rkey = map (\<lambda>x. x XOR (0x5c XOR 0x36)) rkey
      in \<lparr>hmac_outer = out, hmac_inner = CSHA256_Write CSHA256_new rkey\<rparr>)"

definition CHMAC_SHA256_Write :: "CSHA256 CHMAC \<Rightarrow> bytes \<Rightarrow> CSHA256 CHMAC" where
  "CHMAC_SHA256_Write h data = h\<lparr>hmac_inner := CSHA256_Write (hmac_inner h) data\<rparr>"

definition CHMAC_SHA256_Finalize :: "CSHA256 CHMAC \<Rightarrow> bytes" where
  "CHMAC_SHA256_Finalize h =
     (let temp = fst (CSHA256_Finalize (hmac_inner h))
      in fst (CSHA256_Finalize (CSHA256_Write (hmac_outer h) temp)))"

definition CHMAC_SHA512_new :: "bytes \<Rightarrow> CSHA512 CHMAC" where
  "CHMAC_SHA512_new key =
     (let rkey = hmac_rkey 128 64 (\<lambda>k. fst (CSHA512_Finalize (CSHA512_Write CSHA512_new k))) key;
          rkey = map (\<lambda>x. x XOR 0x5c) rkey;
          out = CSHA512_Write CSHA512_new rkey;
          rkey = map (\<lambda>x. x XOR (0x5c XOR 0x36)) rkey
      in \<lparr>hmac_outer = out, hmac_inner = CSHA512_Write CSHA512_new rkey\<rparr>)"

definition CHMAC_SHA512_Write :: "CSHA512 CHMAC \<Rightarrow> bytes \<Rightarrow> CSHA512 CHMAC" where
  "CHMAC_SHA512_Write h data = h\<lparr>hmac_inner := CSHA512_Write (hmac_inner h) data\<rparr>"

definition CHMAC_SHA512_Finalize :: "CSHA512 CHMAC \<Rightarrow> bytes" where
  "CHMAC_SHA512_Finalize h =
     (let temp = fst (CSHA512_Finalize (hmac_inner h))
      in fst (CSHA512_Finalize (CSHA512_Write (hmac_outer h) temp)))"

definition BIP32Hash :: "bytes \<Rightarrow> uint32 \<Rightarrow> uint8 \<Rightarrow> bytes \<Rightarrow> bytes" where
  "BIP32Hash chainCode nChild header data =
     (let num = [ucast (drop_bit 24 nChild AND 0xFF), ucast (drop_bit 16 nChild AND 0xFF),
                 ucast (drop_bit 8 nChild AND 0xFF), ucast (drop_bit 0 nChild AND 0xFF)]
      in CHMAC_SHA512_Finalize (CHMAC_SHA512_Write (CHMAC_SHA512_Write (CHMAC_SHA512_Write
           (CHMAC_SHA512_new chainCode) [header]) data) num))"

section \<open>MurmurHash3\<close>

definition ROTL32 :: "uint32 \<Rightarrow> nat \<Rightarrow> uint32" where
  "ROTL32 x r = push_bit r x OR drop_bit (32 - r) x"

definition murmur_mix :: "uint32 \<Rightarrow> uint32" where
  "murmur_mix k1 = ROTL32 (k1 * 0xcc9e2d51) 15 * 0x1b873593"

fun murmur_body :: "uint32 \<Rightarrow> bytes \<Rightarrow> uint32 \<times> bytes" where
  "murmur_body h1 (a # b # c # d # rest) =
     murmur_body (ROTL32 (h1 XOR murmur_mix (ReadLE32 [a, b, c, d])) 13 * 5 + 0xe6546b64) rest"
| "murmur_body h1 tail = (h1, tail)"

definition MurmurHash3 :: "uint32 \<Rightarrow> bytes \<Rightarrow> uint32" where
  "MurmurHash3 nHashSeed vDataToHash =
     (let (h1, tail) = murmur_body nHashSeed vDataToHash;
          k1 = (if length vDataToHash mod 4 = 3 then push_bit 16 (ucast (tail ! 2)) else 0);
          k1 = (if length vDataToHash mod 4 \<ge> 2 then k1 XOR push_bit 8 (ucast (tail ! 1)) else k1);
          h1 = (if length vDataToHash mod 4 \<ge> 1 then h1 XOR murmur_mix (k1 XOR ucast (tail ! 0)) else h1);
          h1 = h1 XOR of_nat (length vDataToHash);
          h1 = h1 XOR drop_bit 16 h1;
          h1 = h1 * 0x85ebca6b;
          h1 = h1 XOR drop_bit 13 h1;
          h1 = h1 * 0xc2b2ae35
      in h1 XOR drop_bit 16 h1)"

section \<open>SipHash\<close>

type_synonym sip_state = "uint64 \<times> uint64 \<times> uint64 \<times> uint64"

definition ROTL64 :: "uint64 \<Rightarrow> nat \<Rightarrow> uint64" where
  "ROTL64 x b = push_bit b x OR drop_bit (64 - b) x"

definition SIPROUND :: "sip_state \<Rightarrow> sip_state" where
  "SIPROUND v =
     (case v of (v0, v1, v2, v3) \<Rightarrow>
      let v0 = v0 + v1; v1 = ROTL64 v1 13; v1 = v1 XOR v0;
          v0 = ROTL64 v0 32;
          v2 = v2 + v3; v3 = ROTL64 v3 16; v3 = v3 XOR v2;
          v0 = v0 + v3; v3 = ROTL64 v3 21; v3 = v3 XOR v0;
          v2 = v2 + v1; v1 = ROTL64 v1 17; v1 = v1 XOR v2;
          v2 = ROTL64 v2 32
      in (v0, v1, v2, v3))"

record CSipHasher =
  sip_v :: sip_state
  sip_tmp :: uint64
  sip_count :: nat

definition CSipHasher_new :: "uint64 \<Rightarrow> uint64 \<Rightarrow> CSipHasher" where
  "CSipHasher_new k0 k1 =
     \<lparr>sip_v = (0x736f6d6570736575 XOR k0, 0x646f72616e646f6d XOR k1, 0x6c7967656e657261 XOR k0, 0x7465646279746573 XOR k1),
      sip_tmp = 0, sip_count = 0\<rparr>"

text \<open>Two rounds on one word: \<open>v3 ^= t; SIPROUND; SIPROUND; v0 ^= t\<close>.\<close>

definition sip_compress :: "sip_state \<Rightarrow> uint64 \<Rightarrow> sip_state" where
  "sip_compress v t =
     (case v of (v0, v1, v2, v3) \<Rightarrow>
      case SIPROUND (SIPROUND (v0, v1, v2, v3 XOR t)) of (v0, v1, v2, v3) \<Rightarrow> (v0 XOR t, v1, v2, v3))"

definition CSipHasher_Write64 :: "CSipHasher \<Rightarrow> uint64 \<Rightarrow> CSipHasher option" where
  "CSipHasher_Write64 h data =
     do { assert_opt (sip_count h mod 8 = 0);
          Some (h\<lparr>sip_v := sip_compress (sip_v h) data, sip_count := sip_count h + 8\<rparr>) }"

fun sip_loop :: "sip_state \<Rightarrow> uint64 \<Rightarrow> nat \<Rightarrow> bytes \<Rightarrow> sip_state \<times> uint64 \<times> nat" where
  "sip_loop v t c [] = (v, t, c)"
| "sip_loop v t c (b # data) =
     (let t = t OR push_bit (8 * (c mod 8)) (ucast b);
          c = c + 1
      in if c mod 8 = 0 then sip_loop (sip_compress v t) 0 c data else sip_loop v t c data)"

definition CSipHasher_Write :: "CSipHasher \<Rightarrow> bytes \<Rightarrow> CSipHasher" where
  "CSipHasher_Write h data =
     (let (v, t, c) = sip_loop (sip_v h) (sip_tmp h) (sip_count h) data
      in h\<lparr>sip_v := v, sip_count := c, sip_tmp := t\<rparr>)"

definition sip_final :: "sip_state \<Rightarrow> uint64" where
  "sip_final v =
     (case v of (v0, v1, v2, v3) \<Rightarrow>
      case SIPROUND (SIPROUND (SIPROUND (SIPROUND (v0, v1, v2 XOR 0xFF, v3)))) of (v0, v1, v2, v3) \<Rightarrow>
        v0 XOR v1 XOR v2 XOR v3)"

definition CSipHasher_Finalize :: "CSipHasher \<Rightarrow> uint64" where
  "CSipHasher_Finalize h =
     sip_final (sip_compress (sip_v h) (sip_tmp h OR push_bit 56 (of_nat (sip_count h))))"

text \<open>The specialised versions for one uint256, with the steps in the order of the source.\<close>

definition SipHashUint256 :: "uint64 \<Rightarrow> uint64 \<Rightarrow> bytes \<Rightarrow> uint64" where
  "SipHashUint256 k0 k1 val =
     (let d = GetUint64 val 0;
          v0 = 0x736f6d6570736575 XOR k0; v1 = 0x646f72616e646f6d XOR k1;
          v2 = 0x6c7967656e657261 XOR k0; v3 = (0x7465646279746573 XOR k1) XOR d;
          (v0, v1, v2, v3) = SIPROUND (SIPROUND (v0, v1, v2, v3));
          v0 = v0 XOR d; d = GetUint64 val 1; v3 = v3 XOR d;
          (v0, v1, v2, v3) = SIPROUND (SIPROUND (v0, v1, v2, v3));
          v0 = v0 XOR d; d = GetUint64 val 2; v3 = v3 XOR d;
          (v0, v1, v2, v3) = SIPROUND (SIPROUND (v0, v1, v2, v3));
          v0 = v0 XOR d; d = GetUint64 val 3; v3 = v3 XOR d;
          (v0, v1, v2, v3) = SIPROUND (SIPROUND (v0, v1, v2, v3));
          v0 = v0 XOR d; v3 = v3 XOR push_bit 59 4;
          (v0, v1, v2, v3) = SIPROUND (SIPROUND (v0, v1, v2, v3));
          v0 = v0 XOR push_bit 59 4; v2 = v2 XOR 0xFF;
          (v0, v1, v2, v3) = SIPROUND (SIPROUND (SIPROUND (SIPROUND (v0, v1, v2, v3))))
      in v0 XOR v1 XOR v2 XOR v3)"

definition SipHashUint256Extra :: "uint64 \<Rightarrow> uint64 \<Rightarrow> bytes \<Rightarrow> uint32 \<Rightarrow> uint64" where
  "SipHashUint256Extra k0 k1 val extra =
     (let d = GetUint64 val 0;
          v0 = 0x736f6d6570736575 XOR k0; v1 = 0x646f72616e646f6d XOR k1;
          v2 = 0x6c7967656e657261 XOR k0; v3 = (0x7465646279746573 XOR k1) XOR d;
          (v0, v1, v2, v3) = SIPROUND (SIPROUND (v0, v1, v2, v3));
          v0 = v0 XOR d; d = GetUint64 val 1; v3 = v3 XOR d;
          (v0, v1, v2, v3) = SIPROUND (SIPROUND (v0, v1, v2, v3));
          v0 = v0 XOR d; d = GetUint64 val 2; v3 = v3 XOR d;
          (v0, v1, v2, v3) = SIPROUND (SIPROUND (v0, v1, v2, v3));
          v0 = v0 XOR d; d = GetUint64 val 3; v3 = v3 XOR d;
          (v0, v1, v2, v3) = SIPROUND (SIPROUND (v0, v1, v2, v3));
          v0 = v0 XOR d; d = push_bit 56 36 OR ucast extra; v3 = v3 XOR d;
          (v0, v1, v2, v3) = SIPROUND (SIPROUND (v0, v1, v2, v3));
          v0 = v0 XOR d; v2 = v2 XOR 0xFF;
          (v0, v1, v2, v3) = SIPROUND (SIPROUND (SIPROUND (SIPROUND (v0, v1, v2, v3))))
      in v0 XOR v1 XOR v2 XOR v3)"

section \<open>Double hashes of a byte string\<close>

definition sha256d :: "bytes \<Rightarrow> bytes" where
  "sha256d m = fips_sha256 (fips_sha256 m)"

lemma length_sha256d [simp]: "length (sha256d m) = 32"
  by (simp add: sha256d_def)

lemma CSHA256_one_piece:
  "fst (CSHA256_Finalize (CSHA256_Write CSHA256_new m)) = fips_sha256 m"
  "length (md_buf h) = 64 \<Longrightarrow> fst (CSHA256_Finalize (CSHA256_Write (CSHA256_Reset h) m)) = fips_sha256 m"
  using CSHA256_pieces [of "[m]"] CSHA256_Reset_pieces [of h "[m]"] by simp_all

lemma CHash256_pieces: "fst (CHash256_Finalize (foldl CHash256_Write CSHA256_new ds)) = sha256d (concat ds)"
  using CSHA256_Finalize_buf [of ds] CSHA256_pieces [of ds]
  by (simp add: CHash256_Finalize_def CHash256_Write_def sha256d_def CSHA256_one_piece case_prod_beta)

lemma Hash_eq: "Hash objects = sha256d (concat objects)"
  by (simp add: Hash_def CHash256_pieces)

lemma CHash160_pieces:
  "fst (CHash160_Finalize (foldl CSHA256_Write CSHA256_new ds)) = ref_ripemd160 (fips_sha256 (concat ds))"
  using CSHA256_pieces [of ds] CRIPEMD160_pieces [of "[fips_sha256 (concat ds)]"]
  by (simp add: CHash160_Finalize_def case_prod_beta)

lemma Hash160_eq: "Hash160 vch = ref_ripemd160 (fips_sha256 vch)"
  using CHash160_pieces [of "[vch]"] by (simp add: Hash160_def)

lemma CHashWriter_pieces:
  "CHashWriter_GetHash (foldl CHashWriter_write (CHashWriter_new ty ver) ds) = sha256d (concat ds)"
proof -
  have "hw_ctx (foldl CHashWriter_write w ds) = foldl CHash256_Write (hw_ctx w) ds" for w
    by (induction ds arbitrary: w) (simp_all add: CHashWriter_write_def)
  then show ?thesis
    by (simp add: CHashWriter_GetHash_def CHashWriter_new_def CHash256_pieces)
qed

section \<open>HMAC of a byte string\<close>

text \<open>RFC 2104 over a hash \<open>H\<close> with blocks of \<open>blk\<close> bytes.\<close>

definition rfc2104 :: "nat \<Rightarrow> (bytes \<Rightarrow> bytes) \<Rightarrow> bytes \<Rightarrow> bytes \<Rightarrow> bytes" where
  "rfc2104 blk H key msg =
     (let K = (if length key \<le> blk then key else H key);
          K = K @ replicate (blk - length K) 0
      in H (map (\<lambda>x. x XOR 0x5c) K @ H (map (\<lambda>x. x XOR 0x36) K @ msg)))"

locale piecewise_hash =
  fixes ini :: 'h
    and wr :: "'h \<Rightarrow> bytes \<Rightarrow> 'h"
    and fin :: "'h \<Rightarrow> bytes \<times> 'h"
    and H :: "bytes \<Rightarrow> bytes"
    and blk outsize :: nat
  assumes pieces: "fst (fin (foldl wr ini ds)) = H (concat ds)"
    and length_H: "length (H m) = outsize"
begin

lemma one_piece: "fst (fin (wr ini m)) = H m"
  using pieces [of "[m]"] by simp

lemma rkey_eq:
  "hmac_rkey blk outsize (\<lambda>k. fst (fin (wr ini k))) key =
   (let K = (if length key \<le> blk then key else H key) in K @ replicate (blk - length K) 0)"
  by (simp add: hmac_rkey_def one_piece length_H)

lemma opad_ipad: "map (\<lambda>x. x XOR (0x5c XOR 0x36)) (map (\<lambda>x. x XOR 0x5c) k) = map (\<lambda>x :: uint8. x XOR 0x36) k"
proof -
  have "(x XOR 0x5c) XOR (0x5c XOR 0x36) = x XOR (0x36 :: uint8)" for x
    by (simp only: xor.assoc [symmetric] xor_self_eq xor.right_neutral) (simp only: xor.assoc xor_self_eq xor.right_neutral)
  then show ?thesis by simp
qed

lemma hmac_pieces:
  assumes "rkey = hmac_rkey blk outsize (\<lambda>k. fst (fin (wr ini k))) key"
  shows "fst (fin (wr (wr ini (map (\<lambda>x. x XOR 0x5c) rkey))
     (fst (fin (foldl wr (wr ini (map (\<lambda>x. x XOR (0x5c XOR 0x36)) (map (\<lambda>x. x XOR 0x5c) rkey))) ds))))) =
     rfc2104 blk H key (concat ds)"
proof -
  have "fst (fin (foldl wr (wr ini a) ds)) = H (a @ concat ds)" for a
    using pieces [of "a # ds"] by simp
  moreover have "fst (fin (wr (wr ini a) b)) = H (a @ b)" for a b
    using pieces [of "[a, b]"] by simp
  ultimately show ?thesis
    unfolding assms opad_ipad rfc2104_def rkey_eq Let_def by simp
qed

end

interpretation hmac256: piecewise_hash CSHA256_new CSHA256_Write CSHA256_Finalize fips_sha256 64 32
  by unfold_locales (simp_all add: CSHA256_pieces)

interpretation hmac512: piecewise_hash CSHA512_new CSHA512_Write CSHA512_Finalize fips_sha512 128 64
  by unfold_locales (simp_all add: CSHA512_pieces)

lemma hmac_Write256:
  "hmac_inner (foldl CHMAC_SHA256_Write h ds) = foldl CSHA256_Write (hmac_inner h) ds"
  "hmac_outer (foldl CHMAC_SHA256_Write h ds) = hmac_outer h"
  by (induction ds arbitrary: h) (simp_all add: CHMAC_SHA256_Write_def)

lemma hmac_Write512:
  "hmac_inner (foldl CHMAC_SHA512_Write h ds) = foldl CSHA512_Write (hmac_inner h) ds"
  "hmac_outer (foldl CHMAC_SHA512_Write h ds) = hmac_outer h"
  by (induction ds arbitrary: h) (simp_all add: CHMAC_SHA512_Write_def)

lemma CHMAC_SHA256_pieces:
  "CHMAC_SHA256_Finalize (foldl CHMAC_SHA256_Write (CHMAC_SHA256_new key) ds) = rfc2104 64 fips_sha256 key (concat ds)"
  unfolding CHMAC_SHA256_Finalize_def CHMAC_SHA256_new_def Let_def hmac_Write256 CHMAC.simps
  by (rule hmac256.hmac_pieces) (rule refl)

lemma CHMAC_SHA512_pieces:
  "CHMAC_SHA512_Finalize (foldl CHMAC_SHA512_Write (CHMAC_SHA512_new key) ds) = rfc2104 128 fips_sha512 key (concat ds)"
  unfolding CHMAC_SHA512_Finalize_def CHMAC_SHA512_new_def Let_def hmac_Write512 CHMAC.simps
  by (rule hmac512.hmac_pieces) (rule refl)

lemma BIP32Hash_eq:
  "BIP32Hash chainCode nChild header data =
   rfc2104 128 fips_sha512 chainCode (header # data @ WriteBE32 nChild)"
proof -
  have ff: "0xFF = (mask 8 :: uint32)"
    by (simp add: mask_eq_exp_minus_1)
  have low: "ucast (w AND 0xFF) = (ucast w :: uint8)" for w :: uint32
    unfolding ff by (rule bit_word_eqI) (auto simp: bit_simps)
  show ?thesis
    using CHMAC_SHA512_pieces [of chainCode "[[header], data, WriteBE32 nChild]"]
    by (simp add: BIP32Hash_def WriteBE32_def low)
qed

section \<open>SipHash of a byte string\<close>

text \<open>A little-endian number of at most eight bytes, and SipHash-2-4 of a byte string.\<close>

fun le_word :: "bytes \<Rightarrow> uint64" where
  "le_word [] = 0"
| "le_word (b # bs) = ucast b OR push_bit 8 (le_word bs)"

definition siphash_absorb :: "sip_state \<Rightarrow> bytes \<Rightarrow> sip_state" where
  "siphash_absorb v m = foldl (\<lambda>v i. sip_compress v (le_word (take 8 (drop (8 * i) m)))) v [0..<length m div 8]"

definition siphash24 :: "uint64 \<Rightarrow> uint64 \<Rightarrow> bytes \<Rightarrow> uint64" where
  "siphash24 k0 k1 m =
     sip_final (sip_compress (siphash_absorb (sip_v (CSipHasher_new k0 k1)) m)
       (le_word (drop (8 * (length m div 8)) m) OR push_bit 56 (of_nat (length m))))"

definition sip_abs :: "uint64 \<Rightarrow> uint64 \<Rightarrow> CSipHasher \<Rightarrow> bytes \<Rightarrow> bool" where
  "sip_abs k0 k1 h m \<longleftrightarrow>
     sip_v h = siphash_absorb (sip_v (CSipHasher_new k0 k1)) m \<and>
     sip_tmp h = le_word (drop (8 * (length m div 8)) m) \<and> sip_count h = length m"

lemma le_word_append: "le_word (xs @ ys) = le_word xs OR push_bit (8 * length xs) (le_word ys)"
  by (induction xs) (simp_all add: push_bit_or or.assoc)

lemma le_word_snoc: "le_word (xs @ [b]) = le_word xs OR push_bit (8 * length xs) (ucast b)"
  by (simp add: le_word_append)

lemma le_word_8: "length p = 8 \<Longrightarrow> le_word p = ReadLE64 p"
  by (subst length8_conv) (simp_all add: ReadLE64_def push_bit_or or.assoc)

lemma absorb_append:
  assumes "k \<le> length m div 8"
  shows "foldl (\<lambda>v i. sip_compress v (le_word (take 8 (drop (8 * i) (m @ d))))) v [0..<k] =
    foldl (\<lambda>v i. sip_compress v (le_word (take 8 (drop (8 * i) m)))) v [0..<k]"
proof (rule foldl_cong [OF refl refl])
  fix w i
  assume "i \<in> set [0..<k]"
  then have "8 * i + 8 \<le> length m" using assms by auto
  then show "sip_compress w (le_word (take 8 (drop (8 * i) (m @ d)))) = sip_compress w (le_word (take 8 (drop (8 * i) m)))"
    by simp
qed

lemma absorb_snoc:
  "siphash_absorb v (m @ [b]) =
   (if Suc (length m) mod 8 = 0
    then sip_compress (siphash_absorb v m) (le_word (drop (8 * (length m div 8)) m @ [b]))
    else siphash_absorb v m)"
proof (cases "Suc (length m) mod 8 = 0")
  case True
  then have "Suc (length m) div 8 = Suc (length m div 8)" "length m - 8 * (length m div 8) = 7"
    by (simp_all add: div_Suc) presburger
  with True show ?thesis
    using absorb_append [OF order_refl, of m "[b]" v] by (simp add: siphash_absorb_def del: drop_append take_append) simp
next
  case False
  then have "Suc (length m) div 8 = length m div 8" by (simp add: div_Suc)
  with False show ?thesis
    using absorb_append [OF order_refl, of m "[b]" v] by (simp add: siphash_absorb_def del: drop_append take_append)
qed

lemma remainder_snoc:
  "drop (8 * (length (m @ [b]) div 8)) (m @ [b]) =
   (if Suc (length m) mod 8 = 0 then [] else drop (8 * (length m div 8)) m @ [b])"
proof (cases "Suc (length m) mod 8 = 0")
  case True
  then have "8 * (Suc (length m) div 8) = Suc (length m)" by presburger
  with True show ?thesis by simp
next
  case False
  then have "Suc (length m) div 8 = length m div 8" by (simp add: div_Suc)
  with False show ?thesis by simp
qed

lemma sip_loop_abs:
  assumes "v = siphash_absorb v0 m" "t = le_word (drop (8 * (length m div 8)) m)" "c = length m"
  shows "sip_loop v t c data =
    (siphash_absorb v0 (m @ data), le_word (drop (8 * (length (m @ data) div 8)) (m @ data)), length (m @ data))"
  using assms
proof (induction data arbitrary: v t c m)
  case Nil
  then show ?case by simp
next
  case (Cons b data)
  have "length (drop (8 * (length m div 8)) m) = c mod 8"
    using Cons.prems(3) by (simp add: minus_mult_div_eq_mod)
  then have t: "t OR push_bit (8 * (c mod 8)) (ucast b) = le_word (drop (8 * (length m div 8)) m @ [b])"
    using Cons.prems(2) by (simp add: le_word_snoc)
  show ?case
    using Cons.IH [OF refl refl refl, of "m @ [b]"] Cons.prems t
    unfolding sip_loop.simps Let_def absorb_snoc remainder_snoc by (cases "Suc (length m) mod 8 = 0") simp_all
qed

lemma CSipHasher_new_abs: "sip_abs k0 k1 (CSipHasher_new k0 k1) []"
  by (simp add: sip_abs_def siphash_absorb_def CSipHasher_new_def)

lemma CSipHasher_Write_abs: "sip_abs k0 k1 h m \<Longrightarrow> sip_abs k0 k1 (CSipHasher_Write h d) (m @ d)"
  unfolding sip_abs_def CSipHasher_Write_def by (simp add: sip_loop_abs [OF _ _ refl, of _ _ m])

lemma CSipHasher_Write_fold_abs: "sip_abs k0 k1 h m \<Longrightarrow> sip_abs k0 k1 (foldl CSipHasher_Write h ds) (m @ concat ds)"
  by (induction ds arbitrary: h m) (simp, metis CSipHasher_Write_abs append_assoc concat.simps(2) foldl_Cons)

lemma CSipHasher_Finalize_abs: "sip_abs k0 k1 h m \<Longrightarrow> CSipHasher_Finalize h = siphash24 k0 k1 m"
  by (simp add: sip_abs_def CSipHasher_Finalize_def siphash24_def)

lemma CSipHasher_pieces: "CSipHasher_Finalize (foldl CSipHasher_Write (CSipHasher_new k0 k1) ds) = siphash24 k0 k1 (concat ds)"
  using CSipHasher_Finalize_abs [OF CSipHasher_Write_fold_abs [OF CSipHasher_new_abs]] by simp

text \<open>Writing a 64-bit word at a word boundary is writing its eight little-endian bytes.\<close>

lemma absorb_block:
  assumes "length m mod 8 = 0" "length d = 8"
  shows "siphash_absorb v (m @ d) = sip_compress (siphash_absorb v m) (ReadLE64 d)"
proof -
  have "8 * (length m div 8) = length m" "(length m + 8) div 8 = Suc (length m div 8)"
    using assms(1) by presburger+
  then show ?thesis
    using assms le_word_8 [of d] absorb_append [OF order_refl, of m d v] by (simp add: siphash_absorb_def del: drop_append) simp
qed

lemma sip_abs_inject: "sip_abs k0 k1 h m \<Longrightarrow> sip_abs k0 k1 h' m \<Longrightarrow> h = h'"
  by (rule CSipHasher.equality) (simp_all add: sip_abs_def)

lemma CSipHasher_Write64_abs:
  assumes "sip_abs k0 k1 h m" "length m mod 8 = 0"
  shows "CSipHasher_Write64 h x = Some (CSipHasher_Write h (WriteLE64 x))"
proof -
  let ?h = "h\<lparr>sip_v := sip_compress (sip_v h) x, sip_count := sip_count h + 8\<rparr>"
  have "8 * ((length m + 8) div 8) = length m + 8" "8 * (length m div 8) = length m"
    using assms(2) by presburger+
  then have "sip_abs k0 k1 ?h (m @ WriteLE64 x)"
    using assms absorb_block [OF assms(2), of "WriteLE64 x"] by (simp add: sip_abs_def LE64.dec_enc)
  then have "?h = CSipHasher_Write h (WriteLE64 x)"
    using CSipHasher_Write_abs [OF assms(1)] by (rule sip_abs_inject)
  then show ?thesis
    using assms by (simp add: CSipHasher_Write64_def sip_abs_def)
qed

lemma GetUint64_eq: "GetUint64 p i = ReadLE64 (drop (8 * i) p)"
  by (simp add: GetUint64_def ReadLE64_def mult.commute Let_def)

lemma ReadLE64_take: "ReadLE64 (take 8 p) = ReadLE64 p"
  by (simp add: ReadLE64_def)

lemma absorb_uint256:
  assumes "length val = 32"
  shows "siphash_absorb v val = sip_compress (sip_compress (sip_compress (sip_compress v
    (GetUint64 val 0)) (GetUint64 val 1)) (GetUint64 val 2)) (GetUint64 val 3)"
proof -
  have "[0..<length val div 8] = [0, 1, 2, 3]" using assms by (simp add: upt_rec)
  moreover have w: "le_word (take 8 (drop (8 * i) val)) = GetUint64 val i" if "i < 4" for i
    using that assms le_word_8 [of "take 8 (drop (8 * i) val)"] by (simp add: GetUint64_eq ReadLE64_take)
  ultimately show ?thesis
    using w [of 0] w [of 1] w [of 2] w [of 3] by (simp add: siphash_absorb_def)
qed

lemma SipHashUint256_eq:
  assumes "length val = 32"
  shows "SipHashUint256 k0 k1 val = siphash24 k0 k1 val"
proof -
  have n: "push_bit 59 4 = (0 OR push_bit 56 (of_nat (length val)) :: uint64)" using assms by simp
  have eq: "siphash24 k0 k1 val = sip_final (sip_compress (sip_compress (sip_compress (sip_compress (sip_compress
    (sip_v (CSipHasher_new k0 k1)) (GetUint64 val 0)) (GetUint64 val 1)) (GetUint64 val 2)) (GetUint64 val 3))
    (push_bit 59 4))"
    using assms n by (simp only: siphash24_def absorb_uint256) simp
  show ?thesis
    unfolding SipHashUint256_def Let_def eq CSipHasher_new_def CSipHasher.simps
    by (intro case_prod_eqI) (simp add: sip_compress_def sip_final_def)
qed

lemma le_word_WriteLE32: "le_word (WriteLE32 x) = ucast x"
proof -
  have "le_word (WriteLE32 x) = ucast (ReadLE32 (WriteLE32 x))"
    by (rule bit_word_eqI) (auto simp: WriteLE32_def ReadLE32_def bit_simps push_bit_or)
  then show ?thesis by (simp add: LE32.dec_enc)
qed

lemma SipHashUint256Extra_eq:
  assumes "length val = 32"
  shows "SipHashUint256Extra k0 k1 val extra = siphash24 k0 k1 (val @ WriteLE32 extra)"
proof -
  have "siphash_absorb v (val @ WriteLE32 extra) = siphash_absorb v val" for v
    using assms absorb_append [OF order_refl, of val "WriteLE32 extra" v]
    by (simp add: siphash_absorb_def del: drop_append take_append)
  moreover have "le_word (drop (8 * (length (val @ WriteLE32 extra) div 8)) (val @ WriteLE32 extra)) OR
      push_bit 56 (of_nat (length (val @ WriteLE32 extra))) = push_bit 56 36 OR ucast extra"
    using assms le_word_WriteLE32 [of extra] by (simp add: or.commute)
  ultimately have eq: "siphash24 k0 k1 (val @ WriteLE32 extra) = sip_final (sip_compress (sip_compress (sip_compress (sip_compress
    (sip_compress (sip_v (CSipHasher_new k0 k1)) (GetUint64 val 0)) (GetUint64 val 1)) (GetUint64 val 2)) (GetUint64 val 3))
    (push_bit 56 36 OR ucast extra))"
    unfolding siphash24_def using absorb_uint256 [OF assms] by (simp only:)
  show ?thesis
    unfolding SipHashUint256Extra_def Let_def eq CSipHasher_new_def CSipHasher.simps
    by (intro case_prod_eqI) (simp add: sip_compress_def sip_final_def)
qed

section \<open>Properties\<close>

text \<open>
  C23. SHA-1, SHA-512 and RIPEMD-160.  Each hasher, new or reset, that is fed a message in pieces of any sizes
  and finalized returns the digest of the whole message as its standard defines it round by round.
\<close>

theorem other_digests_are_standard:
  assumes "length (md_buf h1) = 64" "length (md_buf h512) = 128" "length (md_buf h160) = 64"
  shows "fst (CSHA1_Finalize (foldl CSHA1_Write CSHA1_new ds)) = fips_sha1 (concat ds) \<and>
    fst (CSHA1_Finalize (foldl CSHA1_Write (CSHA1_Reset h1) ds)) = fips_sha1 (concat ds) \<and>
    fst (CSHA512_Finalize (foldl CSHA512_Write CSHA512_new ds)) = fips_sha512 (concat ds) \<and>
    fst (CSHA512_Finalize (foldl CSHA512_Write (CSHA512_Reset h512) ds)) = fips_sha512 (concat ds) \<and>
    fst (CRIPEMD160_Finalize (foldl CRIPEMD160_Write CRIPEMD160_new ds)) = ref_ripemd160 (concat ds) \<and>
    fst (CRIPEMD160_Finalize (foldl CRIPEMD160_Write (CRIPEMD160_Reset h160) ds)) = ref_ripemd160 (concat ds)"
  using assms
  by (simp add: CSHA1_pieces CSHA1_Reset_pieces CSHA512_pieces CSHA512_Reset_pieces CRIPEMD160_pieces CRIPEMD160_Reset_pieces)

theorem other_digests_are_standard_witness:
  "fst (CRIPEMD160_Finalize (foldl CRIPEMD160_Write (CRIPEMD160_Reset CRIPEMD160_new) [[0x61], [0x62, 0x63]])) =
   ref_ripemd160 [0x61, 0x62, 0x63]"
  using other_digests_are_standard [of CSHA1_new CSHA512_new CRIPEMD160_new "[[0x61], [0x62, 0x63]]"]
  by (simp add: CSHA1_new_def CSHA512_new_def CRIPEMD160_new_def md_new_def)

text \<open>
  The double hashes.  \<open>Hash\<close> of any number of objects and a hash writer are SHA-256 applied twice to the
  concatenation of what they were given; \<open>Hash160\<close> is RIPEMD-160 of SHA-256.
\<close>

theorem double_hashes:
  "Hash objects = fips_sha256 (fips_sha256 (concat objects)) \<and>
   CHashWriter_GetHash (foldl CHashWriter_write (CHashWriter_new ty ver) objects) = Hash objects \<and>
   Hash160 vch = ref_ripemd160 (fips_sha256 vch) \<and> length (Hash objects) = 32"
  by (simp add: Hash_eq sha256d_def [symmetric] CHashWriter_pieces Hash160_eq)

text \<open>
  C24. HMAC.  For every key, shorter or longer than a block, and a message written in any pieces, the two
  classes compute HMAC as RFC 2104 defines it over SHA-256 and SHA-512, and \<open>BIP32Hash\<close> is HMAC-SHA-512 under
  the chain code of the header byte, the data and the big-endian child number.
\<close>

theorem hmac_is_rfc2104:
  "CHMAC_SHA256_Finalize (foldl CHMAC_SHA256_Write (CHMAC_SHA256_new key) ds) = rfc2104 64 fips_sha256 key (concat ds) \<and>
   CHMAC_SHA512_Finalize (foldl CHMAC_SHA512_Write (CHMAC_SHA512_new key) ds) = rfc2104 128 fips_sha512 key (concat ds) \<and>
   BIP32Hash chainCode nChild header data = rfc2104 128 fips_sha512 chainCode (header # data @ WriteBE32 nChild)"
  by (simp add: CHMAC_SHA256_pieces CHMAC_SHA512_pieces BIP32Hash_eq)



end
