(* ===== verification/Merkle.thy ===== *)
theory Merkle
  imports HashLib
begin

text \<open>
  Merkle trees, src/src/consensus/merkle.cpp.  \<open>MerkleComputation\<close> processes the leaves one by one and keeps in
  \<open>inner\<close> one subtree hash per set bit of the number of leaves read; a second pass sweeps up the right
  border of the tree.  The reference is the definition of the tree by levels: every level pairs up the one
  below and a last node without partner is paired with itself.

  \<open>count\<close> is a \<open>uint32_t\<close>: from 2^32 leaves on the first loop does not end, and a shift by 32 is undefined.
  Both are \<open>None\<close> here, and the lemmas show that neither occurs up to 2^31 leaves.
\<close>

section \<open>Operations\<close>

definition merkle_combine :: "bytes \<Rightarrow> bytes \<Rightarrow> bytes" where
  "merkle_combine a b = fst (CHash256_Finalize (CHash256_Write (CHash256_Write CSHA256_new a) b))"

text \<open>
  The inner loop of the first pass: while bit \<open>level\<close> of \<open>count\<close> is 0, combine with \<open>inner[level]\<close>.
  The state is the hash, \<open>matchh\<close>, \<open>mutated\<close> and the branch.
\<close>

function leaf_up ::
    "bytes list \<Rightarrow> bool \<Rightarrow> int \<Rightarrow> nat \<Rightarrow> nat \<Rightarrow> bytes \<Rightarrow> bool \<Rightarrow> bool \<Rightarrow> bytes list \<Rightarrow>
     (nat \<times> bytes \<times> bool \<times> bool \<times> bytes list) option" where
  "leaf_up inner pbranch matchlevel count level h matchh mutated branch =
     (if level \<ge> 32 then None
      else if bit count level then Some (level, h, matchh, mutated, branch)
      else let (matchh', branch') =
                 (if pbranch
                  then if matchh then (matchh, branch @ [inner ! level])
                       else if matchlevel = int level then (True, branch @ [h])
                       else (matchh, branch)
                  else (matchh, branch))
           in leaf_up inner pbranch matchlevel count (level + 1) (merkle_combine (inner ! level) h) matchh'
                (mutated \<or> inner ! level = h) branch')"
  by pat_completeness auto
termination by (relation "measure (\<lambda>(_, _, _, _, level, _). 32 - level)") auto

declare leaf_up.simps [simp del]

text \<open>The first pass over the leaves that are left.\<close>

fun leaves_loop ::
    "bytes list \<Rightarrow> bool \<Rightarrow> nat \<Rightarrow> bytes list \<Rightarrow> int \<Rightarrow> nat \<Rightarrow> bool \<Rightarrow> bytes list \<Rightarrow>
     (bytes list \<times> int \<times> bool \<times> bytes list) option" where
  "leaves_loop [] pbranch branchpos inner matchlevel count mutated branch = Some (inner, matchlevel, mutated, branch)"
| "leaves_loop (h # leaves) pbranch branchpos inner matchlevel count mutated branch =
     do { (level, h, matchh, mutated, branch) \<leftarrow>
            leaf_up inner pbranch matchlevel (count + 1) 0 h (count = branchpos) mutated branch;
          leaves_loop leaves pbranch branchpos (inner[level := h]) (if matchh then int level else matchlevel)
            (count + 1) mutated branch }"

text \<open>Skip the levels at which nothing is left.\<close>

function skip_zero :: "nat \<Rightarrow> nat \<Rightarrow> nat option" where
  "skip_zero count level =
     (if level \<ge> 32 then None
      else if bit count level then Some level else skip_zero count (level + 1))"
  by pat_completeness auto
termination by (relation "measure (\<lambda>(_, level). 32 - level)") auto

declare skip_zero.simps [simp del]

function sweep_up ::
    "bytes list \<Rightarrow> bool \<Rightarrow> int \<Rightarrow> nat \<Rightarrow> nat \<Rightarrow> bytes \<Rightarrow> bool \<Rightarrow> bytes list \<Rightarrow>
     (nat \<times> bytes \<times> bool \<times> bytes list) option" where
  "sweep_up inner pbranch matchlevel count level h matchh branch =
     (if level \<ge> 32 then None
      else if bit count level then Some (level, h, matchh, branch)
      else let (matchh', branch') =
                 (if pbranch
                  then if matchh then (matchh, branch @ [inner ! level])
                       else if matchlevel = int level then (True, branch @ [h])
                       else (matchh, branch)
                  else (matchh, branch))
           in sweep_up inner pbranch matchlevel count (level + 1) (merkle_combine (inner ! level) h) matchh' branch')"
  by pat_completeness auto
termination by (relation "measure (\<lambda>(_, _, _, _, level, _). 32 - level)") auto

declare sweep_up.simps [simp del]

text \<open>The final sweep; the addition to \<open>count\<close> wraps at 32 bits.\<close>

partial_function (option) sweep ::
    "bytes list \<Rightarrow> bool \<Rightarrow> int \<Rightarrow> nat \<Rightarrow> nat \<Rightarrow> bytes \<Rightarrow> bool \<Rightarrow> bytes list \<Rightarrow> (bytes \<times> bytes list) option" where
  "sweep inner pbranch matchlevel count level h matchh branch =
     (if count = 2 ^ level then Some (h, branch)
      else let branch = (if pbranch \<and> matchh then branch @ [h] else branch);
               h = merkle_combine h h;
               count = (count + 2 ^ level) mod 2 ^ 32;
               level = level + 1
           in do { (level, h, matchh, branch) \<leftarrow> sweep_up inner pbranch matchlevel count level h matchh branch;
                   sweep inner pbranch matchlevel count level h matchh branch })"

declare sweep.simps [code]

text \<open>Root, mutation flag and branch; \<open>pbranch\<close> tells whether a branch is asked for.\<close>

definition MerkleComputation :: "bytes list \<Rightarrow> nat \<Rightarrow> bool \<Rightarrow> (bytes \<times> bool \<times> bytes list) option" where
  "MerkleComputation leaves branchpos pbranch =
     (if leaves = [] then Some (blob_null, False, [])
      else if length leaves \<ge> 2 ^ 32 then None
      else do { (inner, matchlevel, mutated, branch) \<leftarrow>
                  leaves_loop leaves pbranch branchpos (replicate 32 blob_null) (- 1) 0 False [];
                level \<leftarrow> skip_zero (length leaves) 0;
                (h, branch) \<leftarrow> sweep inner pbranch matchlevel (length leaves) level (inner ! level)
                  (matchlevel = int level) branch;
                Some (h, mutated, branch) })"

definition ComputeMerkleRoot :: "bytes list \<Rightarrow> (bytes \<times> bool) option" where
  "ComputeMerkleRoot leaves =
     do { (root, mutated, _) \<leftarrow> MerkleComputation leaves (2 ^ 32 - 1) False; Some (root, mutated) }"

definition ComputeMerkleBranch :: "bytes list \<Rightarrow> nat \<Rightarrow> bytes list option" where
  "ComputeMerkleBranch leaves position = do { (_, _, branch) \<leftarrow> MerkleComputation leaves position True; Some branch }"

primrec branch_loop :: "bytes list \<Rightarrow> bytes \<Rightarrow> uint32 \<Rightarrow> bytes" where
  "branch_loop [] hash nIndex = hash"
| "branch_loop (it # its) hash nIndex =
     branch_loop its (if nIndex AND 1 \<noteq> 0 then Hash [it, hash] else Hash [hash, it]) (drop_bit 1 nIndex)"

definition ComputeMerkleRootFromBranch :: "bytes \<Rightarrow> bytes list \<Rightarrow> uint32 \<Rightarrow> bytes" where
  "ComputeMerkleRootFromBranch leaf vMerkleBranch nIndex = branch_loop vMerkleBranch leaf nIndex"

section \<open>The tree by levels\<close>

definition H2 :: "bytes \<Rightarrow> bytes \<Rightarrow> bytes" where
  "H2 a b = sha256d (a @ b)"

fun pair_up :: "bytes list \<Rightarrow> bytes list" where
  "pair_up [] = []"
| "pair_up [x] = [H2 x x]"
| "pair_up (x # y # r) = H2 x y # pair_up r"

definition tree_level :: "bytes list \<Rightarrow> nat \<Rightarrow> bytes list" where
  "tree_level leaves k = (pair_up ^^ k) leaves"

definition node :: "bytes list \<Rightarrow> nat \<Rightarrow> nat \<Rightarrow> bytes" where
  "node leaves k i = tree_level leaves k ! i"

definition width :: "nat \<Rightarrow> nat \<Rightarrow> nat" where
  "width n k = (n + 2 ^ k - 1) div 2 ^ k"

text \<open>The only node of the first level that has just one.\<close>

function merkle_root :: "bytes list \<Rightarrow> bytes" where
  "merkle_root leaves = (if length leaves \<le> 1 then hd (leaves @ [blob_null]) else merkle_root (pair_up leaves))"
  by pat_completeness auto
termination
proof (relation "measure length")
  have "length (pair_up xs) = (length xs + 1) div 2" for xs
    by (induction xs rule: pair_up.induct) auto
  then show "\<not> length leaves \<le> 1 \<Longrightarrow> (pair_up leaves, leaves) \<in> measure length" for leaves
    by simp
qed simp

declare merkle_root.simps [simp del]

lemma merkle_combine_eq: "merkle_combine a b = H2 a b"
  using CHash256_pieces [of "[a, b]"] by (simp add: merkle_combine_def H2_def)

lemma Hash_pair: "Hash [a, b] = H2 a b"
  by (simp add: Hash_eq H2_def)

lemma length_pair_up: "length (pair_up xs) = (length xs + 1) div 2"
  by (induction xs rule: pair_up.induct) auto

lemma nth_pair_up:
  "i < (length xs + 1) div 2 \<Longrightarrow>
   pair_up xs ! i = H2 (xs ! (2 * i)) (if 2 * i + 1 < length xs then xs ! (2 * i + 1) else xs ! (2 * i))"
proof (induction xs arbitrary: i rule: pair_up.induct)
  case (3 x y r)
  then show ?case by (cases i) simp_all
qed simp_all

lemma tree_level_0 [simp]: "tree_level leaves 0 = leaves"
  by (simp add: tree_level_def)

lemma tree_level_Suc: "tree_level leaves (Suc k) = pair_up (tree_level leaves k)"
  by (simp add: tree_level_def)

lemma width_0 [simp]: "width n 0 = n"
  by (simp add: width_def)

lemma div_ceil: "0 < (d :: nat) \<Longrightarrow> (n + d - 1) div d = (if n = 0 then 0 else (n - 1) div d + 1)"
  by (cases n) (simp_all add: div_add_self2)

lemma width_eq: "width n k = (if n = 0 then 0 else (n - 1) div 2 ^ k + 1)"
  unfolding width_def by (rule div_ceil) simp

lemma width_Suc: "width n (Suc k) = (width n k + 1) div 2"
  by (simp add: width_eq div_mult2_eq power_Suc2 del: power_Suc)

lemma length_tree_level: "length (tree_level leaves k) = width (length leaves) k"
  by (induction k) (simp_all add: tree_level_Suc length_pair_up width_Suc)

lemma node_0: "node leaves 0 i = leaves ! i"
  by (simp add: node_def)

lemma node_Suc:
  "i < width (length leaves) (Suc k) \<Longrightarrow>
   node leaves (Suc k) i =
     H2 (node leaves k (2 * i)) (if 2 * i + 1 < width (length leaves) k then node leaves k (2 * i + 1) else node leaves k (2 * i))"
  unfolding node_def tree_level_Suc by (subst nth_pair_up) (simp_all add: length_tree_level width_Suc)

lemma pair_up_level: "tree_level (pair_up leaves) k = tree_level leaves (Suc k)"
  by (simp add: tree_level_def funpow_swap1)

text \<open>The top level is the first with one node.\<close>

definition top_level :: "nat \<Rightarrow> nat \<Rightarrow> bool" where
  "top_level n k \<longleftrightarrow> width n k = 1 \<and> (k = 0 \<or> 1 < width n (k - 1))"

lemma merkle_root_node: "top_level (length leaves) k \<Longrightarrow> merkle_root leaves = node leaves k 0"
proof (induction k arbitrary: leaves)
  case 0
  then obtain x where "leaves = [x]" by (cases leaves) (auto simp: top_level_def)
  then show ?case by (simp add: node_def merkle_root.simps)
next
  case (Suc k)
  have w: "width (length (pair_up leaves)) j = width (length leaves) (Suc j)" for j
    using length_tree_level [of "pair_up leaves" j] by (simp add: pair_up_level length_tree_level)
  have "length leaves > 1"
  proof (rule ccontr)
    assume "\<not> 1 < length leaves"
    then have "width (length leaves) k \<le> 1" by (simp add: width_eq)
    then show False using Suc.prems by (simp add: top_level_def)
  qed
  moreover have "top_level (length (pair_up leaves)) k"
    using Suc.prems \<open>length leaves > 1\<close> w [of 0] w [of k] w [of "k - 1"] by (cases k) (simp_all add: top_level_def)
  ultimately show ?case
    using Suc.IH [of "pair_up leaves"] by (subst merkle_root.simps) (simp add: node_def pair_up_level)
qed

section \<open>The first pass\<close>

text \<open>The sibling that the branch holds for node \<open>i\<close> of level \<open>k\<close>, and the branch of a leaf up to a level.\<close>

definition sib :: "bytes list \<Rightarrow> nat \<Rightarrow> nat \<Rightarrow> bytes" where
  "sib leaves k i = node leaves k (if odd i then i - 1 else if i + 1 < width (length leaves) k then i + 1 else i)"

definition path :: "bytes list \<Rightarrow> nat \<Rightarrow> nat \<Rightarrow> bytes list" where
  "path leaves pos k = map (\<lambda>j. sib leaves j (pos div 2 ^ j)) [0..<k]"

text \<open>\<open>inner[k]\<close> is the subtree of the 2^k leaves that bit \<open>k\<close> of the number \<open>c\<close> of leaves read stands for.\<close>

definition inner_ok :: "bytes list \<Rightarrow> nat \<Rightarrow> bytes list \<Rightarrow> bool" where
  "inner_ok leaves c inner \<longleftrightarrow>
     length inner = 32 \<and> (\<forall>k<32. bit c k \<longrightarrow> inner ! k = node leaves k (c div 2 ^ k - 1))"

definition match_ok :: "bytes list \<Rightarrow> nat \<Rightarrow> nat \<Rightarrow> int \<Rightarrow> bytes list \<Rightarrow> bool" where
  "match_ok leaves pos c matchlevel branch \<longleftrightarrow>
     (if pos < c
      then \<exists>m. matchlevel = int m \<and> bit c m \<and> pos div 2 ^ m = c div 2 ^ m - 1 \<and> branch = path leaves pos m
      else matchlevel = - 1 \<and> branch = [])"

text \<open>
  The hash that is carried up from leaf \<open>c\<close> is at level \<open>k\<close>, and the branch holds the siblings of the
  matched leaf up to that level, or up to the level where its subtree waits.
\<close>

definition carry_state ::
    "bytes list \<Rightarrow> bool \<Rightarrow> nat \<Rightarrow> nat \<Rightarrow> int \<Rightarrow> nat \<Rightarrow> bytes \<Rightarrow> bool \<Rightarrow> bytes list \<Rightarrow> bool" where
  "carry_state leaves pbranch pos c matchlevel k h matchh branch \<longleftrightarrow>
     h = node leaves k (c div 2 ^ k) \<and>
     (if pbranch
      then (matchh \<longleftrightarrow> pos div 2 ^ k = c div 2 ^ k) \<and>
           (if matchh then branch = path leaves pos k else match_ok leaves pos c matchlevel branch)
      else branch = [])"

lemma path_Suc: "path leaves pos (Suc k) = path leaves pos k @ [sib leaves k (pos div 2 ^ k)]"
  by (simp add: path_def)

lemma path_0 [simp]: "path leaves pos 0 = []"
  by (simp add: path_def)

lemma div_Suc_dvd: "2 ^ k dvd c + 1 \<Longrightarrow> (c + 1) div 2 ^ k = c div 2 ^ k + (1 :: nat)"
  by (metis Suc_eq_plus1 div_Suc dvd_imp_mod_0)

lemma div_pow_Suc: "(a :: nat) div 2 ^ Suc k = a div 2 ^ k div 2"
  by (simp add: div_mult2_eq power_Suc2 del: power_Suc)

lemma bit_nat_odd: "bit (a :: nat) k \<longleftrightarrow> odd (a div 2 ^ k)"
  by (simp add: bit_iff_odd)

lemma dvd_pow_Suc: "2 ^ k dvd a \<Longrightarrow> \<not> bit (a :: nat) k \<Longrightarrow> 2 ^ Suc k dvd a"
  by (auto simp: bit_nat_odd elim!: dvdE)

lemma node_index_less: "c < n \<Longrightarrow> c div 2 ^ k < width n k"
  using div_le_mono [of c "n - 1" "2 ^ k"] by (auto simp: width_eq less_Suc_eq_le)

lemma odd_pair: "odd (q :: nat) \<Longrightarrow> 2 * (q div 2) = q - 1 \<and> 2 * (q div 2) + 1 = q"
  by presburger

lemma odd_pred_div: "odd (q :: nat) \<Longrightarrow> (q - 1) div 2 = q div 2"
  by presburger

lemma same_half: "odd (q :: nat) \<Longrightarrow> p div 2 = q div 2 \<Longrightarrow> p \<noteq> q \<Longrightarrow> p = q - 1"
  by presburger

text \<open>A leaf that was matched below level \<open>k\<close> lies under the node that is carried up.\<close>

lemma match_level_ge:
  assumes "bit c m" "pos div 2 ^ m = c div 2 ^ m - (1 :: nat)" "pos div 2 ^ k \<noteq> c div 2 ^ k"
  shows "k \<le> m"
proof (rule ccontr)
  assume "\<not> k \<le> m"
  then obtain d where k: "k = Suc m + d" using less_eq_Suc_le nat_le_iff_add by (metis not_le)
  have "pos div 2 ^ Suc m = c div 2 ^ Suc m"
    unfolding div_pow_Suc assms(2) by (rule odd_pred_div) (use assms(1) in \<open>simp add: bit_nat_odd\<close>)
  then have "pos div 2 ^ k = c div 2 ^ k"
    unfolding k power_add div_mult2_eq by simp
  then show False using assms(3) by simp
qed

lemma match_level_gt:
  assumes "bit c m" "pos div 2 ^ m = c div 2 ^ m - (1 :: nat)" "k \<le> m" "pos div 2 ^ k = c div 2 ^ k"
  shows False
proof -
  obtain d where d: "m = k + d" using assms(3) by (metis le_Suc_ex)
  have "pos div 2 ^ m = c div 2 ^ m" unfolding d power_add div_mult2_eq assms(4) ..
  then show False using assms(1,2) odd_pos [of "c div 2 ^ m"] by (simp add: bit_nat_odd)
qed

lemma node_of_pair:
  assumes "odd q" "q < width (length leaves) k"
  shows "H2 (node leaves k (q - 1)) (node leaves k q) = node leaves (Suc k) (q div 2)"
  using assms odd_pair [OF assms(1)] by (subst node_Suc) (auto simp: width_Suc)

lemma sib_pair:
  assumes "odd q" "q < width (length leaves) k"
  shows "sib leaves k q = node leaves k (q - 1)" "sib leaves k (q - 1) = node leaves k q"
  using assms by (auto simp: sib_def)

text \<open>The node above, when the carried node has a left sibling in \<open>inner\<close>.\<close>

lemma carry_state_step:
  assumes st: "carry_state leaves pbranch pos c matchlevel k h matchh branch"
    and ik: "inner ! k = node leaves k (c div 2 ^ k - 1)" and c: "c < length leaves" and odd: "odd (c div 2 ^ k)"
    and step: "(matchh', branch') =
      (if pbranch
       then if matchh then (matchh, branch @ [inner ! k])
            else if matchlevel = int k then (True, branch @ [h]) else (matchh, branch)
       else (matchh, branch))"
  shows "carry_state leaves pbranch pos c matchlevel (Suc k) (merkle_combine (inner ! k) h) matchh' branch'"
proof -
  let ?q = "c div 2 ^ k"
  have h: "h = node leaves k ?q" using st by (simp add: carry_state_def)
  have q: "?q < width (length leaves) k" using c by (rule node_index_less)
  have new: "merkle_combine (inner ! k) h = node leaves (Suc k) (c div 2 ^ Suc k)"
    unfolding merkle_combine_eq ik h div_pow_Suc by (rule node_of_pair [OF odd q])
  have branch: "(matchh' \<longleftrightarrow> pos div 2 ^ Suc k = c div 2 ^ Suc k) \<and>
      (if matchh' then branch' = path leaves pos (Suc k) else match_ok leaves pos c matchlevel branch')" if pb: pbranch
  proof (cases matchh)
    case True
    then have "pos div 2 ^ k = ?q" "branch = path leaves pos k" using st pb by (simp_all add: carry_state_def)
    then show ?thesis
      using step pb True by (simp add: path_Suc ik sib_pair [OF odd q] div_pow_Suc del: power_Suc)
  next
    case False
    then have ne: "pos div 2 ^ k \<noteq> ?q" and mt: "match_ok leaves pos c matchlevel branch"
      using st pb by (simp_all add: carry_state_def)
    show ?thesis
    proof (cases "matchlevel = int k")
      case True
      then have "pos div 2 ^ k = ?q - 1" "branch = path leaves pos k"
        using mt by (auto simp: match_ok_def split: if_splits)
      moreover have "(?q - 1) div 2 = ?q div 2" using odd by (rule odd_pred_div)
      ultimately show ?thesis
        using step pb True \<open>\<not> matchh\<close> sib_pair(2) [OF odd q] by (simp add: path_Suc h div_pow_Suc del: power_Suc)
    next
      case False
      have "pos div 2 ^ Suc k \<noteq> c div 2 ^ Suc k"
      proof
        assume eq: "pos div 2 ^ Suc k = c div 2 ^ Suc k"
        then have "pos div 2 ^ k = ?q - 1" using ne odd unfolding div_pow_Suc by (intro same_half)
        then have "pos < c" by (metis div_le_mono leD ne less_le_not_le linorder_le_less_linear odd odd_pos diff_less zero_less_one)
        then obtain m where m: "matchlevel = int m" "bit c m" "pos div 2 ^ m = c div 2 ^ m - 1"
          using mt by (auto simp: match_ok_def)
        have "k \<le> m" using match_level_ge [OF m(2,3) ne] .
        moreover have "m \<noteq> k" using False m(1) by simp
        ultimately have "Suc k \<le> m" by simp
        then show False using match_level_gt [OF m(2,3) _ eq] by simp
      qed
      then show ?thesis using step pb False \<open>\<not> matchh\<close> mt by simp
    qed
  qed
  have "\<not> pbranch \<Longrightarrow> branch' = []" using st step by (simp add: carry_state_def)
  then show ?thesis
    using new branch unfolding carry_state_def by auto
qed

text \<open>Two complete sibling subtrees within the first \<open>c\<close> leaves have the same hash.\<close>

definition equal_siblings :: "bytes list \<Rightarrow> nat \<Rightarrow> bool" where
  "equal_siblings leaves c \<longleftrightarrow>
     (\<exists>k i. (2 * i + 2) * 2 ^ k \<le> c \<and> node leaves k (2 * i) = node leaves k (2 * i + 1))"

definition carried_equal :: "bytes list \<Rightarrow> nat \<Rightarrow> nat \<Rightarrow> nat \<Rightarrow> bool" where
  "carried_equal leaves c k l \<longleftrightarrow> (\<exists>j\<in>{k..<l}. node leaves j (c div 2 ^ j - 1) = node leaves j (c div 2 ^ j))"

lemma carried_equal_refl [simp]: "\<not> carried_equal leaves c k k"
  by (simp add: carried_equal_def)

lemma carried_equal_step:
  "k < l \<Longrightarrow> carried_equal leaves c k l \<longleftrightarrow>
    node leaves k (c div 2 ^ k - 1) = node leaves k (c div 2 ^ k) \<or> carried_equal leaves c (Suc k) l"
  by (simp add: carried_equal_def atLeastLessThan_def) (metis Suc_le_eq atLeast_iff lessThan_iff order_le_less Int_iff)

lemma leaf_up_spec:
  assumes "carry_state leaves pbranch pos c matchlevel k h matchh branch" "2 ^ k dvd c + 1"
    and "inner_ok leaves c inner" "c < length leaves" "c + 1 < 2 ^ 32" "k \<le> 32"
  shows "\<exists>l h' matchh' branch'.
    leaf_up inner pbranch matchlevel (c + 1) k h matchh mutated branch =
      Some (l, h', matchh', mutated \<or> carried_equal leaves c k l, branch') \<and>
    carry_state leaves pbranch pos c matchlevel l h' matchh' branch' \<and> 2 ^ l dvd c + 1 \<and> k \<le> l \<and> l < 32 \<and> bit (c + 1) l"
  using assms
proof (induction "32 - k" arbitrary: k h matchh mutated branch)
  case 0
  then have "2 ^ 32 dvd c + 1" by simp
  then show ?case using 0 by (meson add_gr_0 less_one nat_dvd_not_less)
next
  case (Suc d)
  have k: "k < 32" using Suc.hyps(2) by simp
  show ?case
  proof (cases "bit (c + 1) k")
    case True
    with k Suc.prems(1,2) show ?thesis by (subst leaf_up.simps) auto
  next
    case False
    obtain matchh' branch' where step: "(matchh', branch') =
      (if pbranch
       then if matchh then (matchh, branch @ [inner ! k])
            else if matchlevel = int k then (True, branch @ [h]) else (matchh, branch)
       else (matchh, branch))" by (metis surj_pair)
    have odd: "odd (c div 2 ^ k)" using False by (simp add: bit_nat_odd div_Suc_dvd [OF Suc.prems(2), simplified])
    have ik: "inner ! k = node leaves k (c div 2 ^ k - 1)"
      using Suc.prems(3) odd k by (simp add: inner_ok_def bit_nat_odd)
    note st = carry_state_step [OF Suc.prems(1) ik Suc.prems(4) odd step]
    have h: "h = node leaves k (c div 2 ^ k)" using Suc.prems(1) by (simp add: carry_state_def)
    have "d = 32 - Suc k" "Suc k \<le> 32" using Suc.hyps(2) k by simp_all
    from Suc.hyps(1) [OF this(1) st dvd_pow_Suc [OF Suc.prems(2) False] Suc.prems(3-5) this(2), of "mutated \<or> inner ! k = h"]
    obtain l h' m' b' where
      "leaf_up inner pbranch matchlevel (c + 1) (Suc k) (merkle_combine (inner ! k) h) matchh' (mutated \<or> inner ! k = h) branch' =
        Some (l, h', m', (mutated \<or> inner ! k = h) \<or> carried_equal leaves c (Suc k) l, b')"
      and l: "carry_state leaves pbranch pos c matchlevel l h' m' b'" "Suc k \<le> l" "2 ^ l dvd c + 1" "l < 32" "bit (c + 1) l"
      by blast
    moreover have "leaf_up inner pbranch matchlevel (c + 1) k h matchh mutated branch =
      leaf_up inner pbranch matchlevel (c + 1) (Suc k) (merkle_combine (inner ! k) h) matchh' (mutated \<or> inner ! k = h) branch'"
      using k False step by (subst leaf_up.simps) (simp add: Let_def case_prod_beta del: prod.inject flip: step)
    moreover have "(mutated \<or> inner ! k = h) \<or> carried_equal leaves c (Suc k) l \<longleftrightarrow> mutated \<or> carried_equal leaves c k l"
      using l(2) carried_equal_step [of k l leaves c] unfolding ik h by auto
    ultimately have "leaf_up inner pbranch matchlevel (c + 1) k h matchh mutated branch =
        Some (l, h', m', mutated \<or> carried_equal leaves c k l, b')" by simp
    then show ?thesis
      using l Suc_leD by blast
  qed
qed

lemma no_carry: "2 ^ l dvd c + 1 \<Longrightarrow> bit (c + 1) l \<Longrightarrow> l < k \<Longrightarrow> (c + 1) div 2 ^ k = c div (2 :: nat) ^ k"
proof -
  assume a: "2 ^ l dvd c + 1" "bit (c + 1) l" "l < k"
  obtain d where k: "k = Suc l + d" using a(3) less_iff_Suc_add by auto
  have "even (c div 2 ^ l)" using a(2) by (simp add: bit_nat_odd div_Suc_dvd [OF a(1), simplified])
  then have "(c + 1) div 2 ^ Suc l = c div 2 ^ Suc l"
    unfolding div_pow_Suc div_Suc_dvd [OF a(1)] by simp
  then show ?thesis unfolding k power_add div_mult2_eq by simp
qed

lemma low_bits_0:
  assumes "2 ^ l dvd (a :: nat)" "bit a k"
  shows "l \<le> k"
proof (rule ccontr)
  assume "\<not> l \<le> k"
  then obtain d where "l = Suc k + d" by (metis Suc_leI le_Suc_ex not_le)
  then have "2 ^ Suc k dvd a" using assms(1) by (metis dvd_trans le_imp_power_dvd le_add1)
  then have "even (a div 2 ^ k)" by (auto elim!: dvdE simp: mult.assoc)
  then show False using assms(2) by (simp add: bit_nat_odd)
qed

lemma inner_ok_step:
  assumes "inner_ok leaves c inner" "2 ^ l dvd c + 1" "bit (c + 1) l" "l < 32" "h = node leaves l (c div 2 ^ l)"
  shows "inner_ok leaves (c + 1) (inner[l := h])"
  unfolding inner_ok_def
proof (intro conjI allI impI)
  fix k :: nat
  assume k: "k < 32" "bit (c + 1) k"
  show "inner[l := h] ! k = node leaves k ((c + 1) div 2 ^ k - 1)"
  proof (cases "k = l")
    case True
    then show ?thesis using assms by (simp add: inner_ok_def div_Suc_dvd [OF assms(2), simplified])
  next
    case False
    then have "l < k" using low_bits_0 [OF assms(2) k(2)] by simp
    note e = no_carry [OF assms(2,3) this]
    then show ?thesis using False k assms(1) unfolding inner_ok_def bit_nat_odd by (metis nth_list_update_neq)
  qed
qed (use assms(1) in \<open>simp add: inner_ok_def\<close>)

lemma match_ok_step:
  assumes st: "carry_state leaves True pos c matchlevel l h matchh branch" and d: "2 ^ l dvd c + 1" and b: "bit (c + 1) l"
  shows "match_ok leaves pos (c + 1) (if matchh then int l else matchlevel) branch"
proof -
  have ev: "even (c div 2 ^ l)" using b by (simp add: bit_nat_odd div_Suc_dvd [OF d, simplified])
  show ?thesis
  proof (cases matchh)
    case True
    then have p: "pos div 2 ^ l = c div 2 ^ l" and "branch = path leaves pos l"
      using st by (simp_all add: carry_state_def)
    moreover have "pos < c + 1"
    proof -
      have "pos < (c div 2 ^ l + 1) * 2 ^ l" unfolding p [symmetric] by (simp add: dividend_less_div_times add.commute)
      also have "\<dots> = c + 1" using d div_Suc_dvd [OF d] by (metis dvd_div_mult_self)
      finally show ?thesis .
    qed
    ultimately show ?thesis
      using True b div_Suc_dvd [OF d] by (simp add: match_ok_def)
  next
    case False
    then have ne: "pos div 2 ^ l \<noteq> c div 2 ^ l" and mt: "match_ok leaves pos c matchlevel branch"
      using st by (simp_all add: carry_state_def)
    have "pos \<noteq> c" using ne by auto
    moreover have "\<exists>m. matchlevel = int m \<and> bit (c + 1) m \<and> pos div 2 ^ m = (c + 1) div 2 ^ m - 1 \<and> branch = path leaves pos m"
      if "pos < c"
    proof -
      obtain m where m: "matchlevel = int m" "bit c m" "pos div 2 ^ m = c div 2 ^ m - 1" "branch = path leaves pos m"
        using mt \<open>pos < c\<close> by (auto simp: match_ok_def)
      have "m \<noteq> l" using m(2) ev by (auto simp: bit_nat_odd)
      then have "l < m" using match_level_ge [OF m(2,3) ne] by simp
      then show ?thesis using m no_carry [OF d b, of m] by (auto simp: bit_nat_odd)
    qed
    ultimately show ?thesis
      using mt False by (auto simp: match_ok_def)
  qed
qed

lemma equal_siblings_step:
  assumes d: "2 ^ l dvd c + 1" and b: "bit (c + 1) l"
  shows "equal_siblings leaves (c + 1) \<longleftrightarrow> equal_siblings leaves c \<or> carried_equal leaves c 0 l"
proof
  assume "equal_siblings leaves (c + 1)"
  then obtain k i where ki: "(2 * i + 2) * 2 ^ k \<le> c + 1" "node leaves k (2 * i) = node leaves k (2 * i + 1)"
    unfolding equal_siblings_def by blast
  show "equal_siblings leaves c \<or> carried_equal leaves c 0 l"
  proof (cases "(2 * i + 2) * 2 ^ k = c + 1")
    case True
    then have q: "(c + 1) div 2 ^ k = 2 * i + 2" and dk: "2 ^ k dvd c + 1"
      by (metis nonzero_mult_div_cancel_right power_not_zero zero_neq_numeral, metis dvd_triv_right)
    have "k < l"
    proof (rule ccontr)
      assume "\<not> k < l"
      moreover have "k \<noteq> l" using q b by (auto simp: bit_nat_odd)
      ultimately have "l < k" by simp
      then have "2 ^ Suc l dvd c + 1" using dk by (metis Suc_leI dvd_trans le_imp_power_dvd)
      then show False using b low_bits_0 [of "Suc l" "c + 1" l] by simp
    qed
    moreover have "c div 2 ^ k = 2 * i + 1" using q div_Suc_dvd [OF dk] by simp
    ultimately have "carried_equal leaves c 0 l"
      using ki(2) unfolding carried_equal_def by (intro bexI [of _ k]) simp_all
    then show ?thesis ..
  next
    case False
    with ki show ?thesis unfolding equal_siblings_def by (metis Suc_eq_plus1 le_SucE)
  qed
next
  assume "equal_siblings leaves c \<or> carried_equal leaves c 0 l"
  then show "equal_siblings leaves (c + 1)"
  proof
    assume "equal_siblings leaves c"
    then show ?thesis unfolding equal_siblings_def by (metis le_Suc_eq Suc_eq_plus1)
  next
    assume "carried_equal leaves c 0 l"
    then obtain k where k: "k < l" "node leaves k (c div 2 ^ k - 1) = node leaves k (c div 2 ^ k)"
      by (auto simp: carried_equal_def)
    have dk: "2 ^ k dvd c + 1" using d k(1) by (metis dvd_trans le_imp_power_dvd less_imp_le)
    have "\<not> bit (c + 1) k" using low_bits_0 [OF d, of k] k(1) by auto
    then have odd: "odd (c div 2 ^ k)" by (simp add: bit_nat_odd div_Suc_dvd [OF dk, simplified])
    have "(2 * (c div 2 ^ k div 2) + 2) * 2 ^ k = (c div 2 ^ k + 1) * 2 ^ k"
      using odd_pair [OF odd] by simp
    also have "\<dots> = c + 1" using div_Suc_dvd [OF dk] dk by (metis dvd_div_mult_self)
    finally show ?thesis
      using k(2) odd_pair [OF odd] unfolding equal_siblings_def
      by (intro exI [of _ k] exI [of _ "c div 2 ^ k div 2"]) simp
  qed
qed

definition branch_ok :: "bytes list \<Rightarrow> bool \<Rightarrow> nat \<Rightarrow> nat \<Rightarrow> int \<Rightarrow> bytes list \<Rightarrow> bool" where
  "branch_ok leaves pbranch pos c matchlevel branch \<longleftrightarrow>
     (if pbranch then match_ok leaves pos c matchlevel branch else branch = [])"

lemma leaves_loop_spec:
  assumes "inner_ok leaves c inner" "branch_ok leaves pbranch pos c matchlevel branch"
    and "c \<le> length leaves" "length leaves < 2 ^ 32"
  shows "\<exists>inner' matchlevel' branch'.
    leaves_loop (drop c leaves) pbranch pos inner matchlevel c (equal_siblings leaves c) branch =
      Some (inner', matchlevel', equal_siblings leaves (length leaves), branch') \<and>
    inner_ok leaves (length leaves) inner' \<and> branch_ok leaves pbranch pos (length leaves) matchlevel' branch'"
  using assms
proof (induction "length leaves - c" arbitrary: c inner matchlevel branch)
  case 0
  then show ?case by simp
next
  case (Suc d)
  have c: "c < length leaves" "c + 1 < 2 ^ 32" using Suc.hyps(2) Suc.prems(4) by simp_all
  have "carry_state leaves pbranch pos c matchlevel 0 (leaves ! c) (c = pos) branch"
    using Suc.prems(2) by (auto simp: carry_state_def node_0 branch_ok_def match_ok_def)
  from leaf_up_spec [OF this _ Suc.prems(1) c, of "equal_siblings leaves c"] obtain l h m b where
    up: "leaf_up inner pbranch matchlevel (c + 1) 0 (leaves ! c) (c = pos) (equal_siblings leaves c) branch =
      Some (l, h, m, equal_siblings leaves c \<or> carried_equal leaves c 0 l, b)"
    and st: "carry_state leaves pbranch pos c matchlevel l h m b" and l: "l < 32" "bit (c + 1) l" and d1: "2 ^ l dvd c + 1"
    by auto
  have dl: "2 ^ l dvd c + 1" "h = node leaves l (c div 2 ^ l)" using st d1 by (simp_all add: carry_state_def)
  have i: "inner_ok leaves (c + 1) (inner[l := h])" by (rule inner_ok_step [OF Suc.prems(1) dl(1) l(2,1) dl(2)])
  have bo: "branch_ok leaves pbranch pos (c + 1) (if m then int l else matchlevel) b"
    using st match_ok_step [OF _ d1 l(2)] by (cases pbranch) (simp_all add: branch_ok_def carry_state_def)
  have "d = length leaves - (c + 1)" "c + 1 \<le> length leaves" using Suc.hyps(2) c(1) by simp_all
  from Suc.hyps(1) [OF this(1) i bo this(2) Suc.prems(4)] obtain inner' ml' br' where
    "leaves_loop (drop (c + 1) leaves) pbranch pos (inner[l := h]) (if m then int l else matchlevel) (c + 1)
       (equal_siblings leaves (c + 1)) b = Some (inner', ml', equal_siblings leaves (length leaves), br')"
    "inner_ok leaves (length leaves) inner'" "branch_ok leaves pbranch pos (length leaves) ml' br'"
    by blast
  then show ?case
    unfolding Cons_nth_drop_Suc [OF c(1), symmetric] leaves_loop.simps up equal_siblings_step [OF dl(1) l(2)]
    by simp
qed

section \<open>The final sweep\<close>

text \<open>
  The last leaf is \<open>N = n - 1\<close> and the last node of level \<open>k\<close> is \<open>N div 2^k\<close>, so the sweep carries up a hash
  in the same sense as the first pass.
\<close>

lemma width_last: "0 < n \<Longrightarrow> width n k = (n - 1) div 2 ^ k + 1"
  by (simp add: width_eq)

lemma node_of_self:
  assumes "even q" "width (length leaves) k = q + 1"
  shows "H2 (node leaves k q) (node leaves k q) = node leaves (Suc k) (q div 2)"
  using assms by (subst node_Suc) (auto simp: width_Suc)

lemma carry_state_self:
  assumes st: "carry_state leaves pbranch pos (length leaves - 1) matchlevel k h matchh branch"
    and ev: "even ((length leaves - 1) div 2 ^ k)" and n: "0 < length leaves" and pos: "pbranch \<Longrightarrow> pos < length leaves"
  shows "carry_state leaves pbranch pos (length leaves - 1) matchlevel (Suc k) (merkle_combine h h) matchh
    (if pbranch \<and> matchh then branch @ [h] else branch)"
proof -
  let ?N = "length leaves - 1"
  let ?q = "?N div 2 ^ k"
  have h: "h = node leaves k ?q" using st by (simp add: carry_state_def)
  have w: "width (length leaves) k = ?q + 1" using n by (rule width_last)
  have s: "2 * (?q div 2) = ?q" using ev by simp
  have new: "merkle_combine h h = node leaves (Suc k) (?N div 2 ^ Suc k)"
    unfolding merkle_combine_eq h div_pow_Suc by (rule node_of_self [OF ev w])
  have sib: "sib leaves k ?q = h" using ev by (simp add: sib_def w h)
  have branch: "(matchh \<longleftrightarrow> pos div 2 ^ Suc k = ?N div 2 ^ Suc k) \<and>
      (if matchh then branch @ [h] = path leaves pos (Suc k) else match_ok leaves pos ?N matchlevel branch)" if pb: pbranch
  proof (cases matchh)
    case True
    then have "pos div 2 ^ k = ?q" "branch = path leaves pos k" using st pb by (simp_all add: carry_state_def)
    then show ?thesis using True sib by (simp add: path_Suc div_pow_Suc del: power_Suc)
  next
    case False
    then have ne: "pos div 2 ^ k \<noteq> ?q" and mt: "match_ok leaves pos ?N matchlevel branch"
      using st pb by (simp_all add: carry_state_def)
    have "pos div 2 ^ k \<le> ?q" using pos [OF pb] by (intro div_le_mono) simp
    then have "pos div 2 ^ k < 2 * (?q div 2)" using ne s by simp
    then have "pos div 2 ^ Suc k \<noteq> ?N div 2 ^ Suc k" unfolding div_pow_Suc by linarith
    then show ?thesis using False mt by simp
  qed
  have "\<not> pbranch \<Longrightarrow> branch = []" using st by (simp add: carry_state_def)
  then show ?thesis using new branch unfolding carry_state_def by auto
qed

text \<open>What the first pass leaves behind, seen from the last leaf; \<open>t\<close> is the lowest bit of the number of leaves.\<close>

lemma inner_above:
  assumes "inner_ok leaves n inner" "2 ^ t dvd n" "bit n t" "t < k" "k < 32" "odd ((n - 1) div 2 ^ k)" "0 < n"
  shows "inner ! k = node leaves k ((n - 1) div 2 ^ k - 1)"
proof -
  have "n div 2 ^ k = (n - 1) div 2 ^ k"
    using no_carry [of t "n - 1" k] assms by simp
  then show ?thesis using assms(1,5,6) by (simp add: inner_ok_def bit_nat_odd)
qed

lemma carry_state_last:
  assumes inner: "inner_ok leaves n inner" and n: "n = length leaves" "0 < n"
    and t: "2 ^ t dvd n" "bit n t" "t < 32" and br: "branch_ok leaves pbranch pos n matchlevel branch"
    and pos: "pbranch \<Longrightarrow> pos < n"
  shows "carry_state leaves pbranch pos (n - 1) matchlevel t (inner ! t) (matchlevel = int t) branch"
proof -
  have d: "n div 2 ^ t = (n - 1) div 2 ^ t + 1" using div_Suc_dvd [of t "n - 1"] t(1) n(2) by simp
  have h: "inner ! t = node leaves t ((n - 1) div 2 ^ t)"
    using inner t d by (simp add: inner_ok_def)
  have "(matchlevel = int t \<longleftrightarrow> pos div 2 ^ t = (n - 1) div 2 ^ t) \<and>
    (if matchlevel = int t then branch = path leaves pos t else match_ok leaves pos (n - 1) matchlevel branch)" if pb: pbranch
  proof -
    obtain m where m: "matchlevel = int m" "bit n m" "pos div 2 ^ m = n div 2 ^ m - 1" "branch = path leaves pos m"
      using br pos [OF pb] pb by (auto simp: branch_ok_def match_ok_def)
    show ?thesis
    proof (cases "m = t")
      case True
      then show ?thesis using m d by simp
    next
      case False
      then have "t < m" using low_bits_0 [OF t(1) m(2)] by simp
      then have e: "n div 2 ^ m = (n - 1) div 2 ^ m" using no_carry [of t "n - 1" m] t n(2) by simp
      then have m2: "bit (n - 1) m" "pos div 2 ^ m = (n - 1) div 2 ^ m - 1" using m(2,3) by (simp_all add: bit_nat_odd)
      then have "pos div 2 ^ t \<noteq> (n - 1) div 2 ^ t" using match_level_gt [OF m2, of t] \<open>t < m\<close> by auto
      moreover have "pos < n - 1"
        using m2 pos [OF pb] odd_pos [of "(n - 1) div 2 ^ m"] by (cases "pos = n - 1") (auto simp: bit_nat_odd)
      ultimately show ?thesis using m m2 False by (auto simp: match_ok_def)
    qed
  qed
  then show ?thesis
    using br h by (auto simp: carry_state_def branch_ok_def)
qed

text \<open>\<open>count\<close> during the sweep: the number of nodes of the level, shifted to the level.\<close>

definition sweep_count :: "nat \<Rightarrow> nat \<Rightarrow> nat \<Rightarrow> bool" where
  "sweep_count n k C \<longleftrightarrow>
     C = width n k * 2 ^ k \<and> C \<le> 2 ^ 31 \<and> (k = 0 \<or> 1 < width n (k - 1))"

lemma sweep_count_bit:
  assumes "sweep_count n k C" "0 < n"
  shows "bit C k \<longleftrightarrow> even ((n - 1) div 2 ^ k)"
  using assms by (simp add: sweep_count_def bit_nat_odd width_last)

lemma sweep_count_pair:
  assumes C: "sweep_count n k C" and n: "0 < n" and nb: "\<not> bit C k"
  shows "sweep_count n (Suc k) C"
proof -
  have "even (width n k)" using nb C by (simp add: sweep_count_def bit_nat_odd)
  moreover have "0 < width n k" using n by (simp add: width_last)
  ultimately have "width n (Suc k) * 2 = width n k" "1 < width n k" unfolding width_Suc by presburger+
  then show ?thesis using C by (auto simp: sweep_count_def mult.assoc [symmetric] mult.commute)
qed

lemma sweep_count_self:
  assumes C: "sweep_count n k C" and n: "0 < n" and b: "bit C k" and k: "k < 32" and ne: "C \<noteq> 2 ^ k"
  shows "sweep_count n (Suc k) (C + 2 ^ k)" "(C + 2 ^ k) mod 2 ^ 32 = C + 2 ^ k" "Suc k < 32"
proof -
  have C1: "C = width n k * 2 ^ k" "C \<le> 2 ^ 31" using C by (simp_all add: sweep_count_def)
  have odd: "odd (width n k)" using b C1(1) by (simp add: bit_nat_odd)
  have w1: "width n k \<noteq> 1" using ne C1(1) by auto
  then have w: "width n (Suc k) * 2 = width n k + 1" "1 < width n k" using odd unfolding width_Suc by presburger+
  have "k \<le> 31" using k by simp
  then obtain d where d: "31 = k + d" using le_Suc_ex by blast
  have "width n k \<le> 2 ^ d" using C1 unfolding d power_add by (simp add: mult.commute)
  moreover have "width n k \<noteq> 2 ^ d" using odd w1 by (cases d) auto
  ultimately have "(width n k + 1) * 2 ^ k \<le> 2 ^ d * 2 ^ k" by (intro mult_right_mono) auto
  then have le: "C + 2 ^ k \<le> 2 ^ 31" unfolding d power_add C1(1) by (simp add: mult.commute add.commute)
  have eq: "C + 2 ^ k = width n (Suc k) * 2 ^ Suc k" using w(1) unfolding C1(1) by (metis add_mult_distrib mult.assoc mult_1 power_Suc)
  show "sweep_count n (Suc k) (C + 2 ^ k)"
    using le w(2) unfolding sweep_count_def eq by simp
  show "(C + 2 ^ k) mod 2 ^ 32 = C + 2 ^ k" using le by simp
  have "1 < (2 :: nat) ^ d" using w(2) \<open>width n k \<le> 2 ^ d\<close> by linarith
  then have "d \<noteq> 0" by (metis less_irrefl power_0)
  then show "Suc k < 32" using d by simp
qed

lemma sweep_up_spec:
  assumes "carry_state leaves pbranch pos (length leaves - 1) matchlevel k h matchh branch"
    and "sweep_count (length leaves) k C" "k \<le> 32" "t < k"
    and n: "0 < length leaves" and inner: "inner_ok leaves (length leaves) inner"
    and t: "2 ^ t dvd length leaves" "bit (length leaves) t"
  shows "\<exists>l h' matchh' branch'.
    sweep_up inner pbranch matchlevel C k h matchh branch = Some (l, h', matchh', branch') \<and>
    carry_state leaves pbranch pos (length leaves - 1) matchlevel l h' matchh' branch' \<and>
    sweep_count (length leaves) l C \<and> k \<le> l \<and> l < 32 \<and> bit C l"
  using assms(1-4)
proof (induction "32 - k" arbitrary: k h matchh branch)
  case 0
  then have "2 ^ 32 dvd C" "C \<le> 2 ^ 31" by (auto simp: sweep_count_def)
  moreover have "0 < C" using 0 n by (simp add: sweep_count_def width_last)
  ultimately show ?case by (auto dest!: dvd_imp_le)
next
  case (Suc d)
  have k: "k < 32" using Suc.hyps(2) by simp
  show ?case
  proof (cases "bit C k")
    case True
    with k Suc.prems show ?thesis by (subst sweep_up.simps) auto
  next
    case False
    obtain matchh' branch' where step: "(matchh', branch') =
      (if pbranch
       then if matchh then (matchh, branch @ [inner ! k])
            else if matchlevel = int k then (True, branch @ [h]) else (matchh, branch)
       else (matchh, branch))" by (metis surj_pair)
    have odd: "odd ((length leaves - 1) div 2 ^ k)" using False sweep_count_bit [OF Suc.prems(2) n] by simp
    have ik: "inner ! k = node leaves k ((length leaves - 1) div 2 ^ k - 1)"
      by (rule inner_above [OF inner t Suc.prems(4) k odd n])
    have "length leaves - 1 < length leaves" using n by simp
    note st = carry_state_step [OF Suc.prems(1) ik this odd step]
    have "d = 32 - Suc k" "Suc k \<le> 32" "t < Suc k" using Suc.hyps(2) k Suc.prems(4) by simp_all
    from Suc.hyps(1) [OF this(1) st sweep_count_pair [OF Suc.prems(2) n False] this(2,3)]
    obtain l h' m' b' where
      "sweep_up inner pbranch matchlevel C (Suc k) (merkle_combine (inner ! k) h) matchh' branch' = Some (l, h', m', b')"
      and l: "carry_state leaves pbranch pos (length leaves - 1) matchlevel l h' m' b'" "sweep_count (length leaves) l C"
        "Suc k \<le> l" "l < 32" "bit C l"
      by blast
    moreover have "sweep_up inner pbranch matchlevel C k h matchh branch =
      sweep_up inner pbranch matchlevel C (Suc k) (merkle_combine (inner ! k) h) matchh' branch'"
      using k False step by (subst sweep_up.simps) (simp add: Let_def case_prod_beta del: prod.inject flip: step)
    ultimately show ?thesis using Suc_leD by auto
  qed
qed

lemma sweep_spec:
  assumes "carry_state leaves pbranch pos (length leaves - 1) matchlevel k h matchh branch"
    and "sweep_count (length leaves) k C" "bit C k" "k < 32" "t \<le> k"
    and n: "0 < length leaves" and inner: "inner_ok leaves (length leaves) inner"
    and t: "2 ^ t dvd length leaves" "bit (length leaves) t" and pos: "pbranch \<Longrightarrow> pos < length leaves"
  shows "\<exists>L. top_level (length leaves) L \<and> L < 32 \<and>
    sweep inner pbranch matchlevel C k h matchh branch = Some (node leaves L 0, if pbranch then path leaves pos L else [])"
  using assms(1-5)
proof (induction "32 - k" arbitrary: k h matchh branch C rule: less_induct)
  case less
  show ?case
  proof (cases "C = 2 ^ k")
    case True
    then have w: "width (length leaves) k = 1" and top: "top_level (length leaves) k"
      using less.prems(2) by (auto simp: sweep_count_def top_level_def)
    have last: "(length leaves - 1) div 2 ^ k = 0" using w n by (simp add: width_last)
    have "pos div 2 ^ k = 0" if pbranch
      using last pos [OF that] by (metis Suc_diff_1 div_le_mono le_zero_eq less_Suc_eq_le n)
    then have "h = node leaves k 0" "branch = (if pbranch then path leaves pos k else [])"
      using less.prems(1) last by (auto simp: carry_state_def)
    then show ?thesis using True top less.prems(4) by (subst sweep.simps) auto
  next
    case False
    have ev: "even ((length leaves - 1) div 2 ^ k)" using less.prems(3) sweep_count_bit [OF less.prems(2) n] by simp
    note sc = sweep_count_self [OF less.prems(2) n less.prems(3,4) False]
    have "t < Suc k" "Suc k \<le> 32" using less.prems(4,5) by simp_all
    from sweep_up_spec [OF carry_state_self [OF less.prems(1) ev n pos] sc(1) this(2,1) n inner t]
    obtain l h' m' b' where up: "sweep_up inner pbranch matchlevel (C + 2 ^ k) (Suc k) (merkle_combine h h) matchh
        (if pbranch \<and> matchh then branch @ [h] else branch) = Some (l, h', m', b')"
      and l: "carry_state leaves pbranch pos (length leaves - 1) matchlevel l h' m' b'"
        "sweep_count (length leaves) l (C + 2 ^ k)" "Suc k \<le> l" "l < 32" "bit (C + 2 ^ k) l"
      by blast
    have "32 - l < 32 - k" "t \<le> l" using l(3,4) less.prems(5) by simp_all
    from less.hyps [OF this(1) l(1,2,5,4) this(2)] show ?thesis
      using False sc(2) up by (subst sweep.simps) (simp add: Let_def)
  qed
qed

section \<open>Root, flag and branch\<close>

lemma skip_zero_spec:
  assumes "2 ^ k dvd n" "0 < n" "n < 2 ^ 32" "k \<le> 32"
  shows "\<exists>t. skip_zero n k = Some t \<and> t < 32 \<and> 2 ^ t dvd n \<and> bit n t"
  using assms
proof (induction "32 - k" arbitrary: k)
  case 0
  then have "2 ^ 32 dvd n" by simp
  then show ?case using 0 by (meson nat_dvd_not_less)
next
  case (Suc d)
  show ?case
  proof (cases "bit n k")
    case True
    then show ?thesis using Suc by (subst skip_zero.simps) auto
  next
    case False
    then show ?thesis
      using Suc.hyps(1) [of "Suc k"] Suc.hyps(2) Suc.prems dvd_pow_Suc [OF Suc.prems(1) False]
      by (subst skip_zero.simps) auto
  qed
qed

lemma width_dvd: "2 ^ k dvd n \<Longrightarrow> width n k = n div 2 ^ k"
  by (cases n) (simp_all add: width_eq div_Suc dvd_eq_mod_eq_0)

lemma sweep_count_start:
  assumes "2 ^ t dvd n" "bit n t" "0 < n" "n \<le> 2 ^ 31"
  shows "sweep_count n t n"
proof (cases t)
  case 0
  then show ?thesis using assms by (simp add: sweep_count_def)
next
  case (Suc s)
  have w: "width n t * 2 ^ t = n" using assms(1) by (simp add: width_dvd)
  have "2 ^ s dvd n" using assms(1) Suc by (metis dvd_trans le_imp_power_dvd le_SucI order_refl)
  then have "width n s = n div 2 ^ s" by (rule width_dvd)
  also have "\<dots> = width n t * 2" unfolding w [symmetric, THEN arg_cong [where f = "\<lambda>x. x div 2 ^ s"]] Suc by simp
  finally have "1 < width n s" using assms(3) by (simp add: width_last)
  then show ?thesis using w assms(4) Suc by (simp add: sweep_count_def)
qed

lemma MerkleComputation_spec:
  assumes n: "leaves \<noteq> []" "length leaves \<le> 2 ^ 31" and pos: "pbranch \<Longrightarrow> pos < length leaves"
  shows "\<exists>L. top_level (length leaves) L \<and> L < 32 \<and>
    MerkleComputation leaves pos pbranch =
      Some (merkle_root leaves, equal_siblings leaves (length leaves), if pbranch then path leaves pos L else [])"
proof -
  let ?n = "length leaves"
  have n0: "0 < ?n" and n32: "?n < 2 ^ 32" using n by simp_all
  have none: "\<not> equal_siblings leaves 0" by (simp add: equal_siblings_def)
  have "inner_ok leaves 0 (replicate 32 blob_null)" "branch_ok leaves pbranch pos 0 (- 1) []"
    by (simp_all add: inner_ok_def branch_ok_def match_ok_def)
  from leaves_loop_spec [OF this _ n32] none obtain inner ml br where
    loop: "leaves_loop leaves pbranch pos (replicate 32 blob_null) (- 1) 0 False [] = Some (inner, ml, equal_siblings leaves ?n, br)"
    and ok: "inner_ok leaves ?n inner" "branch_ok leaves pbranch pos ?n ml br"
    by auto
  from skip_zero_spec [of 0, OF _ n0 n32] obtain t where
    t: "skip_zero ?n 0 = Some t" "t < 32" "2 ^ t dvd ?n" "bit ?n t" by auto
  from sweep_spec [OF carry_state_last [OF ok(1) refl n0 t(3,4,2) ok(2) pos] sweep_count_start [OF t(3,4) n0 n(2)]
      t(4,2) order_refl n0 ok(1) t(3,4) pos]
  obtain L where L: "top_level ?n L" "L < 32"
    "sweep inner pbranch ml ?n t (inner ! t) (ml = int t) br = Some (node leaves L 0, if pbranch then path leaves pos L else [])"
    by blast
  have "MerkleComputation leaves pos pbranch =
      Some (merkle_root leaves, equal_siblings leaves ?n, if pbranch then path leaves pos L else [])"
    unfolding MerkleComputation_def merkle_root_node [OF L(1)] using n n32 by (simp add: loop t(1) L(3))
  with L show ?thesis by blast
qed

lemma ComputeMerkleRoot_eq:
  assumes "length leaves \<le> 2 ^ 31"
  shows "ComputeMerkleRoot leaves = Some (merkle_root leaves, equal_siblings leaves (length leaves))"
proof (cases "leaves = []")
  case True
  then show ?thesis
    by (simp add: ComputeMerkleRoot_def MerkleComputation_def merkle_root.simps equal_siblings_def)
next
  case False
  from MerkleComputation_spec [OF False assms, of False "2 ^ 32 - 1"] show ?thesis
    by (auto simp: ComputeMerkleRoot_def)
qed

lemma branch_loop_path:
  assumes "k \<le> L" "pos < length leaves" "length leaves < 2 ^ 32"
  shows "branch_loop (map (\<lambda>j. sib leaves j (pos div 2 ^ j)) [k..<L]) (node leaves k (pos div 2 ^ k)) (of_nat (pos div 2 ^ k)) =
    node leaves L (pos div 2 ^ L)"
  using assms(1)
proof (induction "L - k" arbitrary: k)
  case 0
  then show ?case by simp
next
  case (Suc d)
  let ?q = "pos div 2 ^ k"
  have q: "?q < width (length leaves) k" and q': "?q div 2 < width (length leaves) (Suc k)"
    using node_index_less [OF assms(2), of k] node_index_less [OF assms(2), of "Suc k"] by (simp_all only: div_pow_Suc)
  have "?q < 2 ^ 32" using assms(2,3) by (meson div_le_dividend le_less_trans less_trans)
  then have u: "unat (of_nat ?q :: uint32) = ?q" by (simp add: unat_of_nat take_bit_nat_eq_self)
  have odd: "(of_nat ?q :: uint32) AND 1 \<noteq> 0 \<longleftrightarrow> odd ?q"
  proof -
    have "odd (of_nat ?q :: uint32) \<longleftrightarrow> odd ?q" using u by (metis even_of_nat_iff)
    then show ?thesis by (metis and_one_eq even_iff_mod_2_eq_zero)
  qed
  have half: "drop_bit 1 (of_nat ?q :: uint32) = of_nat (pos div 2 ^ Suc k)"
    using u by (intro word_unat_eq_iff [THEN iffD2]) (simp add: unat_drop_bit_div div_pow_Suc unat_of_nat take_bit_nat_eq_self del: power_Suc)
  have up: "(if odd ?q then H2 (sib leaves k ?q) (node leaves k ?q) else H2 (node leaves k ?q) (sib leaves k ?q)) =
    node leaves (Suc k) (pos div 2 ^ Suc k)"
    using q q' odd_pair [of ?q] unfolding div_pow_Suc by (subst node_Suc) (auto simp: sib_def)
  have e: "[k..<L] = k # [Suc k..<L]" using Suc.hyps(2) by (simp add: upt_conv_Cons)
  show ?case
    unfolding e list.map branch_loop.simps Hash_pair odd half up
    using Suc.hyps(1) [of "Suc k"] Suc.hyps(2) by simp
qed

lemma ComputeMerkleBranch_verifies:
  assumes "length leaves \<le> 2 ^ 31" "pos < length leaves"
  shows "\<exists>branch. ComputeMerkleBranch leaves pos = Some branch \<and>
    ComputeMerkleRootFromBranch (leaves ! pos) branch (of_nat pos) = merkle_root leaves \<and> length branch < 32"
proof -
  have ne: "leaves \<noteq> []" using assms(2) by auto
  from MerkleComputation_spec [OF this assms(1), of True pos] assms(2) obtain L where
    L: "top_level (length leaves) L" "L < 32" and
    c: "MerkleComputation leaves pos True = Some (merkle_root leaves, equal_siblings leaves (length leaves), path leaves pos L)"
    by auto
  have "pos div 2 ^ L = 0"
    using node_index_less [OF assms(2), of L] L(1) by (simp add: top_level_def)
  then have "branch_loop (path leaves pos L) (leaves ! pos) (of_nat pos) = merkle_root leaves"
    using branch_loop_path [of 0 L pos leaves] assms by (simp add: path_def node_0 merkle_root_node [OF L(1)])
  then show ?thesis
    using c L(2) by (simp add: ComputeMerkleBranch_def ComputeMerkleRootFromBranch_def path_def)
qed

section \<open>What the root binds\<close>

text \<open>
  The pairs that are hashed in the tree of a list.  A list of leaves is determined by the root and the
  height of its tree as long as no two of the pairs hashed in the trees collide and neither list has equal
  sibling subtrees, which is what \<open>mutated\<close> reports.
\<close>

definition hashed_pairs :: "bytes list \<Rightarrow> (bytes \<times> bytes) set" where
  "hashed_pairs leaves =
     {(node leaves k (2 * i), node leaves k (if 2 * i + 1 < width (length leaves) k then 2 * i + 1 else 2 * i)) |k i.
        1 < width (length leaves) k \<and> i < width (length leaves) (Suc k)}"

definition under :: "bytes list \<Rightarrow> nat \<Rightarrow> nat \<Rightarrow> bytes list" where
  "under leaves k i = take (2 ^ k) (drop (i * 2 ^ k) leaves)"

lemma under_Suc: "under leaves (Suc k) i = under leaves k (2 * i) @ under leaves k (2 * i + 1)"
proof -
  have "drop ((2 * i + 1) * 2 ^ k) leaves = drop (2 ^ k) (drop (2 * i * 2 ^ k) leaves)"
    by (simp add: algebra_simps)
  moreover have "(2 :: nat) ^ Suc k = 2 ^ k + 2 ^ k" by simp
  ultimately show ?thesis
    unfolding under_def by (simp only: take_add) (simp add: mult.assoc mult.left_commute flip: mult_2)
qed

lemma under_beyond: "\<not> i < width (length leaves) k \<Longrightarrow> under leaves k i = []"
proof -
  assume "\<not> i < width (length leaves) k"
  then have "length leaves = 0 \<or> (length leaves - 1) div 2 ^ k < i" by (auto simp: width_eq split: if_splits)
  then have "length leaves \<le> i * 2 ^ k"
    by (auto simp: div_less_iff_less_mult)
  then show ?thesis by (simp add: under_def)
qed

lemma width_le_iff: "i < width n k \<longleftrightarrow> i * 2 ^ k < n"
proof (cases "n = 0")
  case False
  then have "i < width n k \<longleftrightarrow> i \<le> (n - 1) div 2 ^ k" by (simp add: width_eq less_Suc_eq_le)
  also have "\<dots> \<longleftrightarrow> i * 2 ^ k \<le> n - 1" by (simp add: less_eq_div_iff_mult_less_eq)
  finally show ?thesis using False by auto
qed (simp add: width_eq)

lemma under_length:
  "length (under leaves k i) = min (2 ^ k) (length leaves - i * 2 ^ k)"
  by (simp add: under_def min.commute)

lemma same_hash_same_leaves:
  assumes inj: "inj_on (\<lambda>(a, b). H2 a b) S"
  shows "hashed_pairs xs \<subseteq> S \<Longrightarrow> hashed_pairs ys \<subseteq> S \<Longrightarrow>
    \<not> equal_siblings xs (length xs) \<Longrightarrow> \<not> equal_siblings ys (length ys) \<Longrightarrow>
    \<forall>j<k. 1 < width (length xs) j \<and> 1 < width (length ys) j \<Longrightarrow>
    i < width (length xs) k \<Longrightarrow> j < width (length ys) k \<Longrightarrow> node xs k i = node ys k j \<Longrightarrow>
    under xs k i = under ys k j"
proof (induction k arbitrary: xs ys i j)
  case 0
  then show ?case by (simp add: under_def node_0 take_Suc_conv_app_nth [of 0, simplified] hd_drop_conv_nth take_Suc)
next
  case (Suc k)
  let ?r = "\<lambda>zs i. if 2 * i + 1 < width (length zs) k then 2 * i + 1 else 2 * i"
  have w: "1 < width (length xs) k" "1 < width (length ys) k" using Suc.prems(5) by auto
  have pairs: "(node xs k (2 * i), node xs k (?r xs i)) \<in> S" "(node ys k (2 * j), node ys k (?r ys j)) \<in> S"
    using Suc.prems(1,2,6,7) w unfolding hashed_pairs_def by blast+
  have "H2 (node xs k (2 * i)) (node xs k (?r xs i)) = H2 (node ys k (2 * j)) (node ys k (?r ys j))"
    using Suc.prems(8) unfolding node_Suc [OF Suc.prems(6)] node_Suc [OF Suc.prems(7)] by (simp add: if_distrib)
  then have eq: "node xs k (2 * i) = node ys k (2 * j)" "node xs k (?r xs i) = node ys k (?r ys j)"
    using inj_onD [OF inj _ pairs] by auto
  have lt: "2 * i < width (length xs) k" "2 * j < width (length ys) k"
    using Suc.prems(6,7) unfolding width_Suc by linarith+
  have below: "\<forall>m<k. 1 < width (length xs) m \<and> 1 < width (length ys) m" using Suc.prems(5) by simp
  have one: "2 * a + 1 < width (length zs) k \<Longrightarrow> node zs k (2 * a) \<noteq> node zs k (2 * a + 1)"
    if zs: "zs = xs \<or> zs = ys" for zs a
  proof
    assume a: "2 * a + 1 < width (length zs) k" "node zs k (2 * a) = node zs k (2 * a + 1)"
    have ps: "hashed_pairs zs \<subseteq> S" "\<not> equal_siblings zs (length zs)" "\<forall>m<k. 1 < width (length zs) m \<and> 1 < width (length zs) m"
      using zs Suc.prems(1-4) below by auto
    have "under zs k (2 * a) = under zs k (2 * a + 1)"
      using a by (intro Suc.IH [OF ps(1,1,2,2,3)]) auto
    then have "length (under zs k (2 * a + 1)) = length (under zs k (2 * a))" by simp
    moreover have "length (under zs k (2 * a)) = 2 ^ k"
      using a(1) unfolding width_le_iff under_length by (simp add: algebra_simps)
    ultimately have "2 ^ k \<le> length zs - (2 * a + 1) * 2 ^ k" unfolding under_length by linarith
    moreover have "0 < (2 :: nat) ^ k" by simp
    ultimately have "(2 * a + 1) * 2 ^ k + 2 ^ k \<le> length zs" by linarith
    then have "(2 * a + 2) * 2 ^ k \<le> length zs" by (simp add: algebra_simps)
    then show False using ps(2) a(2) unfolding equal_siblings_def by blast
  qed
  note IH = Suc.IH [OF Suc.prems(1-4) below]
  have left: "under xs k (2 * i) = under ys k (2 * j)" by (rule IH [OF lt eq(1)])
  have iff: "2 * i + 1 < width (length xs) k \<longleftrightarrow> 2 * j + 1 < width (length ys) k"
    using eq one [of xs i] one [of ys j] by (auto split: if_splits)
  have right: "under xs k (2 * i + 1) = under ys k (2 * j + 1)"
  proof (cases "2 * i + 1 < width (length xs) k")
    case True
    then show ?thesis using iff eq(2) by (intro IH) auto
  next
    case False
    then show ?thesis using iff by (simp add: under_beyond)
  qed
  show ?case unfolding under_Suc left right ..
qed

lemma merkle_root_binds:
  assumes inj: "inj_on (\<lambda>(a, b). H2 a b) (hashed_pairs xs \<union> hashed_pairs ys)"
    and top: "top_level (length xs) L" "top_level (length ys) L"
    and eq: "merkle_root xs = merkle_root ys"
    and unm: "\<not> equal_siblings xs (length xs)" "\<not> equal_siblings ys (length ys)"
  shows "xs = ys"
proof -
  have all: "under zs L 0 = zs" if "top_level (length zs) L" for zs
    using that width_le_iff [of 1 "length zs" L] by (simp add: under_def top_level_def)
  have "1 < width (length zs) j" if "top_level (length zs) L" "j < L" for zs j
  proof -
    have "width (length zs) (L - 1) \<le> width (length zs) j"
      using that(2) by (simp add: width_eq div_le_mono2)
    then show ?thesis using that by (auto simp: top_level_def)
  qed
  then have "under xs L 0 = under ys L 0"
    using top eq unm merkle_root_node [OF top(1)] merkle_root_node [OF top(2)]
    by (intro same_hash_same_leaves [OF inj]) (auto simp: top_level_def)
  then show ?thesis using all top by simp
qed

section \<open>Properties\<close>

text \<open>
  C26. Merkle root.  Up to 2^31 leaves the constant-space computation returns, its root is that of the tree
  built level by level with an unpaired last node doubled, and its mutation flag is set exactly if two
  complete sibling subtrees of some level have the same hash.
\<close>

theorem merkle_root_is_tree_root:
  assumes "length leaves \<le> 2 ^ 31"
  shows "ComputeMerkleRoot leaves = Some (merkle_root leaves, equal_siblings leaves (length leaves))"
  by (rule ComputeMerkleRoot_eq [OF assms])

theorem merkle_root_is_tree_root_witness:
  "ComputeMerkleRoot [[1], [2], [2]] = Some (H2 (H2 [1] [2]) (H2 [2] [2]), equal_siblings [[1], [2], [2]] 3)"
  using merkle_root_is_tree_root [of "[[1], [2], [2]]"] by (simp add: merkle_root.simps numeral_3_eq_3)

text \<open>
  C27. Merkle branches.  For every position of a list of at most 2^31 leaves the branch is computed, has fewer
  than 32 hashes, and \<open>ComputeMerkleRootFromBranch\<close> leads from the leaf along it to the root that
  \<open>ComputeMerkleRoot\<close> returns.
\<close>

theorem merkle_branch_verifies:
  assumes "length leaves \<le> 2 ^ 31" "pos < length leaves"
  shows "\<exists>branch root mutated. ComputeMerkleBranch leaves pos = Some branch \<and> length branch < 32 \<and>
    ComputeMerkleRoot leaves = Some (root, mutated) \<and>
    ComputeMerkleRootFromBranch (leaves ! pos) branch (of_nat pos) = root"
  using ComputeMerkleBranch_verifies [OF assms] ComputeMerkleRoot_eq [OF assms(1)] by auto

theorem merkle_branch_verifies_witness:
  "\<exists>branch root mutated. ComputeMerkleBranch [[1], [2], [3]] 2 = Some branch \<and> length branch < 32 \<and>
    ComputeMerkleRoot [[1], [2], [3]] = Some (root, mutated) \<and>
    ComputeMerkleRootFromBranch [3] branch 2 = root"
  using merkle_branch_verifies [of "[[1], [2], [3]]" 2] by simp

text \<open>
  C28. The duplication weakness of the tree (CVE-2012-2459) is covered by the mutation flag.  If no two of the
  pairs that are hashed in the trees of two lists collide, two lists whose trees have the same height and
  root, and for neither of which \<open>mutated\<close> is set, are equal.
\<close>

theorem unmutated_root_binds_leaves:
  assumes "inj_on (\<lambda>(a, b). H2 a b) (hashed_pairs xs \<union> hashed_pairs ys)"
    and "top_level (length xs) L" "top_level (length ys) L" "length xs \<le> 2 ^ 31" "length ys \<le> 2 ^ 31"
    and "ComputeMerkleRoot xs = Some (root, False)" "ComputeMerkleRoot ys = Some (root, False)"
  shows "xs = ys"
  using assms by (intro merkle_root_binds [OF assms(1-3)]) (simp_all add: ComputeMerkleRoot_eq)

lemma equal_siblings_2: "equal_siblings [a, b] 2 \<longleftrightarrow> a = b"
proof
  assume "equal_siblings [a, b] 2"
  then obtain k i where "(2 * i + 2) * 2 ^ k \<le> (2 :: nat)" and e: "node [a, b] k (2 * i) = node [a, b] k (2 * i + 1)"
    unfolding equal_siblings_def by blast
  then have "(i + 1) * 2 ^ k \<le> (1 :: nat)" by (simp add: algebra_simps)
  moreover have "2 ^ k \<le> (i + 1) * (2 :: nat) ^ k" "i + 1 \<le> (i + 1) * (2 :: nat) ^ k"
    using mult_le_mono2 [of 1 "2 ^ k" "i + 1"] by simp_all
  ultimately have "(2 :: nat) ^ k \<le> 1" "i = 0" by linarith+
  then have "k = 0" "i = 0" using power_increasing_iff [of "2 :: nat" k 0] by simp_all
  then show "a = b" using e by (simp add: node_0)
qed (auto simp: equal_siblings_def node_0 intro!: exI [of _ 0])

theorem unmutated_root_binds_leaves_witness:
  "inj_on (\<lambda>(a, b). H2 a b) (hashed_pairs [[1], [2]] \<union> hashed_pairs [[1], [2]]) \<and>
   top_level (length [[1], [2]]) 1 \<and> ComputeMerkleRoot [[1], [2]] = Some (H2 [1] [2], False) \<and> [[1], [2]] = [[1], [2 :: uint8]]"
proof -
  have w: "width (Suc (Suc 0)) k = (if k = 0 then 2 else 1)" for k
    by (induction k) (simp_all add: width_Suc)
  have "hashed_pairs [[1], [2]] = {([1], [2])}"
    unfolding hashed_pairs_def by (auto simp: w node_0 split: if_splits intro!: exI [of _ 0])
  then have inj: "inj_on (\<lambda>(a, b). H2 a b) (hashed_pairs [[1], [2]] \<union> hashed_pairs [[1], [2]])" by simp
  have top: "top_level (length [[1], [2 :: uint8]]) 1" by (simp add: top_level_def w)
  have "\<not> equal_siblings [[1], [2]] (length [[1], [2 :: uint8]])"
    using equal_siblings_2 [of "[1]" "[2]"] by (simp add: numeral_2_eq_2)
  then have root: "ComputeMerkleRoot [[1], [2]] = Some (H2 [1] [2], False)"
    using ComputeMerkleRoot_eq [of "[[1], [2]]"] by (simp add: merkle_root.simps)
  show ?thesis
    using unmutated_root_binds_leaves [OF inj top top _ _ root root] inj top root by simp
qed

end
