(* ===== verification/PartialMerkle.thy ===== *)
theory PartialMerkle
  imports Merkle
begin

text \<open>
  Partial Merkle trees, src/src/merkleblock.h and merkleblock.cpp: \<open>CPartialMerkleTree\<close> selects some transactions
  of a block, stores the bits and hashes of a depth-first traversal, and recovers the selected transactions
  and the root from them.  Reading a transaction id or a match flag out of range is undefined, and \<open>None\<close> here;
  \<open>unsigned int\<close> arithmetic is written modulo 2^32.
\<close>

section \<open>Operations\<close>

definition MAX_BLOCK_WEIGHT_RIP2 :: nat where "MAX_BLOCK_WEIGHT_RIP2 = 4000000"

definition GetMaxBlockWeight :: nat where "GetMaxBlockWeight = MAX_BLOCK_WEIGHT_RIP2"

definition WITNESS_SCALE_FACTOR :: nat where "WITNESS_SCALE_FACTOR = 4"

definition MIN_TRANSACTION_WEIGHT :: nat where "MIN_TRANSACTION_WEIGHT = WITNESS_SCALE_FACTOR * 60"

record CPartialMerkleTree =
  nTransactions :: nat
  vBits :: "bool list"
  vHash :: "bytes list"
  fBad :: bool

definition CalcTreeWidth :: "nat \<Rightarrow> nat \<Rightarrow> nat" where
  "CalcTreeWidth n height = (n + 2 ^ height - 1) mod 2 ^ 32 div 2 ^ height"

fun CalcHash :: "nat \<Rightarrow> nat \<Rightarrow> nat \<Rightarrow> bytes list \<Rightarrow> bytes option" where
  "CalcHash n 0 pos vTxid =
     do { assert_opt (length vTxid \<noteq> 0); assert_opt (pos < length vTxid); Some (vTxid ! pos) }"
| "CalcHash n (Suc h) pos vTxid =
     do { assert_opt (length vTxid \<noteq> 0);
          left \<leftarrow> CalcHash n h (pos * 2) vTxid;
          right \<leftarrow> (if pos * 2 + 1 < CalcTreeWidth n h then CalcHash n h (pos * 2 + 1) vTxid else Some left);
          Some (Hash [left, right]) }"

text \<open>The loop that looks for a matched transaction under a node.\<close>

definition parent_of_match :: "nat \<Rightarrow> nat \<Rightarrow> nat \<Rightarrow> bool list \<Rightarrow> bool" where
  "parent_of_match n height pos vMatch =
     (\<exists>p\<in>set [pos * 2 ^ height..<(pos + 1) * 2 ^ height]. p < n \<and> vMatch ! p)"

fun TraverseAndBuild ::
    "nat \<Rightarrow> nat \<Rightarrow> nat \<Rightarrow> bytes list \<Rightarrow> bool list \<Rightarrow> bool list \<times> bytes list \<Rightarrow> (bool list \<times> bytes list) option" where
  "TraverseAndBuild n height pos vTxid vMatch (bits, hashes) =
     (let fParentOfMatch = parent_of_match n height pos vMatch;
          bits = bits @ [fParentOfMatch]
      in if height = 0 \<or> \<not> fParentOfMatch
         then do { hash \<leftarrow> CalcHash n height pos vTxid; Some (bits, hashes @ [hash]) }
         else do { st \<leftarrow> TraverseAndBuild n (height - 1) (pos * 2) vTxid vMatch (bits, hashes);
                   if pos * 2 + 1 < CalcTreeWidth n (height - 1)
                   then TraverseAndBuild n (height - 1) (pos * 2 + 1) vTxid vMatch st
                   else Some st })"

declare TraverseAndBuild.simps [simp del]

text \<open>The height of the tree; a height of 32 would shift by the width of the type.\<close>

function tree_height :: "nat \<Rightarrow> nat \<Rightarrow> nat option" where
  "tree_height n nHeight =
     (if nHeight \<ge> 32 then None
      else if CalcTreeWidth n nHeight > 1 then tree_height n (nHeight + 1) else Some nHeight)"
  by pat_completeness auto
termination by (relation "measure (\<lambda>(_, h). 32 - h)") auto

declare tree_height.simps [simp del]

definition CPartialMerkleTree_new :: "bytes list \<Rightarrow> bool list \<Rightarrow> CPartialMerkleTree option" where
  "CPartialMerkleTree_new vTxid vMatch =
     (let n = length vTxid in
      do { nHeight \<leftarrow> tree_height n 0;
           (bits, hashes) \<leftarrow> TraverseAndBuild n nHeight 0 vTxid vMatch ([], []);
           Some \<lparr>nTransactions = n, vBits = bits, vHash = hashes, fBad = False\<rparr> })"

text \<open>What \<open>TraverseAndExtract\<close> changes: the flag, the two positions and the two results.\<close>

record extract_state =
  ex_bad :: bool
  nBitsUsed :: nat
  nHashUsed :: nat
  ex_match :: "bytes list"
  vnIndex :: "nat list"

fun TraverseAndExtract :: "CPartialMerkleTree \<Rightarrow> nat \<Rightarrow> nat \<Rightarrow> extract_state \<Rightarrow> bytes \<times> extract_state" where
  "TraverseAndExtract t height pos st =
     (if nBitsUsed st \<ge> length (vBits t) then (blob_null, st\<lparr>ex_bad := True\<rparr>)
      else let fParentOfMatch = vBits t ! nBitsUsed st;
               st = st\<lparr>nBitsUsed := nBitsUsed st + 1\<rparr>
           in if height = 0 \<or> \<not> fParentOfMatch
              then if nHashUsed st \<ge> length (vHash t) then (blob_null, st\<lparr>ex_bad := True\<rparr>)
                   else let hash = vHash t ! nHashUsed st;
                            st = st\<lparr>nHashUsed := nHashUsed st + 1\<rparr>
                        in (hash,
                            if height = 0 \<and> fParentOfMatch
                            then st\<lparr>ex_match := ex_match st @ [hash], vnIndex := vnIndex st @ [pos]\<rparr>
                            else st)
              else let (left, st) = TraverseAndExtract t (height - 1) (pos * 2) st
                   in if pos * 2 + 1 < CalcTreeWidth (nTransactions t) (height - 1)
                      then let (right, st) = TraverseAndExtract t (height - 1) (pos * 2 + 1) st;
                               st = (if right = left then st\<lparr>ex_bad := True\<rparr> else st)
                           in (Hash [left, right], st)
                      else (Hash [left, left], st))"

declare TraverseAndExtract.simps [simp del]

text \<open>The root (null on failure), the matched ids and the indices, which are appended to the caller's vector.\<close>

definition ExtractMatches :: "CPartialMerkleTree \<Rightarrow> nat list \<Rightarrow> (bytes \<times> bytes list \<times> nat list) option" where
  "ExtractMatches t vnIndex0 =
     (if nTransactions t = 0 then Some (blob_null, [], vnIndex0)
      else if nTransactions t > GetMaxBlockWeight div MIN_TRANSACTION_WEIGHT then Some (blob_null, [], vnIndex0)
      else if length (vHash t) > nTransactions t then Some (blob_null, [], vnIndex0)
      else if length (vBits t) < length (vHash t) then Some (blob_null, [], vnIndex0)
      else do { nHeight \<leftarrow> tree_height (nTransactions t) 0;
                let (hashMerkleRoot, st) = TraverseAndExtract t nHeight 0
                  \<lparr>ex_bad = fBad t, nBitsUsed = 0, nHashUsed = 0, ex_match = [], vnIndex = vnIndex0\<rparr>;
                Some (if ex_bad st then blob_null
                      else if (nBitsUsed st + 7) div 8 \<noteq> (length (vBits t) + 7) div 8 then blob_null
                      else if nHashUsed st \<noteq> length (vHash t) then blob_null
                      else hashMerkleRoot,
                      ex_match st, vnIndex st) })"

text \<open>The flag bits on the wire: eight to a byte, the first in the lowest bit.\<close>

definition bits_to_bytes :: "bool list \<Rightarrow> bytes" where
  "bits_to_bytes bits =
     foldl (\<lambda>vBytes p. vBytes[p div 8 := vBytes ! (p div 8) OR push_bit (p mod 8) (of_bool (bits ! p))])
       (replicate ((length bits + 7) div 8) 0) [0..<length bits]"

definition bytes_to_bits :: "bytes \<Rightarrow> bool list" where
  "bytes_to_bits vBytes = map (\<lambda>p. vBytes ! (p div 8) AND push_bit (p mod 8) 1 \<noteq> 0) [0..<length vBytes * 8]"

section \<open>The tree of the traversal\<close>

lemma CalcTreeWidth_eq: "n \<le> 2 ^ 31 \<Longrightarrow> h < 32 \<Longrightarrow> CalcTreeWidth n h = width n h"
proof -
  assume "n \<le> 2 ^ 31" "h < 32"
  moreover have "(2 :: nat) ^ h \<le> 2 ^ 31" using \<open>h < 32\<close> by (intro power_increasing) simp_all
  ultimately have "n + 2 ^ h - 1 < 2 ^ 32" by simp
  then show ?thesis by (simp add: CalcTreeWidth_def width_def)
qed

lemma tree_height_top:
  assumes "0 < n" "n \<le> 2 ^ 31" "h \<le> 31" "h = 0 \<or> 1 < width n (h - 1)"
  shows "\<exists>L. tree_height n h = Some L \<and> top_level n L \<and> L < 32"
  using assms(3,4)
proof (induction "31 - h" arbitrary: h rule: less_induct)
  case less
  show ?case
  proof (cases "1 < width n h")
    case True
    have "width n 31 \<le> 1" using assms(1,2) by (simp add: width_eq)
    then have "h \<noteq> 31" using True by auto
    then show ?thesis
      using less.hyps [of "Suc h"] less.prems True assms(2) by (subst tree_height.simps) (simp add: CalcTreeWidth_eq)
  next
    case False
    then have "width n h = 1" using assms(1) by (simp add: width_last)
    then show ?thesis
      using False less.prems assms(2) by (subst tree_height.simps) (simp add: CalcTreeWidth_eq top_level_def)
  qed
qed

lemma top_level_unique: "top_level n k \<Longrightarrow> top_level n l \<Longrightarrow> k = l"
proof -
  have mono: "width n b \<le> width n a" if "a \<le> b" for a b
    using that by (simp add: width_eq div_le_mono2)
  have "\<not> k < l" if "top_level n k" "top_level n l" for k l
    using mono [of k "l - 1"] that by (cases l) (auto simp: top_level_def)
  then show "top_level n k \<Longrightarrow> top_level n l \<Longrightarrow> k = l" by (meson linorder_neqE_nat)
qed

lemma CalcHash_node:
  "length vTxid \<le> 2 ^ 31 \<Longrightarrow> h < 32 \<Longrightarrow> pos < width (length vTxid) h \<Longrightarrow>
   CalcHash (length vTxid) h pos vTxid = Some (node vTxid h pos)"
proof (induction h arbitrary: pos)
  case 0
  then show ?case by (auto simp: node_0)
next
  case (Suc h)
  have "pos * 2 < width (length vTxid) h" "vTxid \<noteq> []" using Suc.prems(3) unfolding width_Suc by (auto simp: width_eq)
  then show ?case
    using Suc.IH Suc.prems by (simp add: node_Suc CalcTreeWidth_eq Hash_pair mult.commute)
qed

text \<open>What the traversal stores below a node, and the matched leaves there.\<close>

fun stored :: "bytes list \<Rightarrow> bool list \<Rightarrow> nat \<Rightarrow> nat \<Rightarrow> bool list \<times> bytes list" where
  "stored vTxid vMatch h pos =
     (let m = parent_of_match (length vTxid) h pos vMatch
      in if h = 0 \<or> \<not> m then ([m], [node vTxid h pos])
         else let (b1, h1) = stored vTxid vMatch (h - 1) (pos * 2);
                  (b2, h2) = (if pos * 2 + 1 < width (length vTxid) (h - 1) then stored vTxid vMatch (h - 1) (pos * 2 + 1) else ([], []))
              in (m # b1 @ b2, h1 @ h2))"

declare stored.simps [simp del]

definition matched :: "bytes list \<Rightarrow> bool list \<Rightarrow> nat \<Rightarrow> nat \<Rightarrow> nat list" where
  "matched vTxid vMatch h pos = filter (\<lambda>p. p < length vTxid \<and> vMatch ! p) [pos * 2 ^ h..<(pos + 1) * 2 ^ h]"

lemma TraverseAndBuild_stored:
  "length vTxid \<le> 2 ^ 31 \<Longrightarrow> h < 32 \<Longrightarrow> pos < width (length vTxid) h \<Longrightarrow>
   TraverseAndBuild (length vTxid) h pos vTxid vMatch (bits, hashes) =
     Some (bits @ fst (stored vTxid vMatch h pos), hashes @ snd (stored vTxid vMatch h pos))"
proof (induction h arbitrary: pos bits hashes)
  case 0
  then have "stored vTxid vMatch 0 pos = ([parent_of_match (length vTxid) 0 pos vMatch], [vTxid ! pos])" "vTxid \<noteq> []"
    by (auto simp: stored.simps [of _ _ 0] node_0)
  then show ?case using 0 by (subst TraverseAndBuild.simps) (simp add: Let_def)
next
  case (Suc h)
  have "pos * 2 < width (length vTxid) h" using Suc.prems(3) by (simp add: width_Suc)
  then show ?case
    using Suc by (subst TraverseAndBuild.simps, subst (1 2) stored.simps)
      (simp add: CalcHash_node Let_def CalcTreeWidth_eq case_prod_beta del: CalcHash.simps)
qed

lemma matched_empty_iff: "matched vTxid vMatch h pos = [] \<longleftrightarrow> \<not> parent_of_match (length vTxid) h pos vMatch"
  by (auto simp: matched_def parent_of_match_def filter_empty_conv)

lemma matched_Suc: "matched vTxid vMatch (Suc h) pos = matched vTxid vMatch h (pos * 2) @ matched vTxid vMatch h (pos * 2 + 1)"
proof -
  have "[pos * 2 ^ Suc h..<(pos + 1) * 2 ^ Suc h] = [pos * 2 * 2 ^ h..<(pos * 2 + 1) * 2 ^ h] @ [(pos * 2 + 1) * 2 ^ h..<(pos * 2 + 1 + 1) * 2 ^ h]"
    using upt_add_eq_append [of "pos * 2 * 2 ^ h" "(pos * 2 + 1) * 2 ^ h" "2 ^ h"] by (simp add: algebra_simps)
  then show ?thesis by (simp only: matched_def filter_append)
qed

lemma matched_beyond: "\<not> pos < width (length vTxid) h \<Longrightarrow> matched vTxid vMatch h pos = []"
  unfolding width_le_iff by (auto simp: matched_def filter_empty_conv)

lemma stored_lengths:
  "pos < width (length vTxid) h \<Longrightarrow>
   length (snd (stored vTxid vMatch h pos)) \<le> length (fst (stored vTxid vMatch h pos)) \<and>
   length (snd (stored vTxid vMatch h pos)) \<le> length (under vTxid h pos)"
proof (induction h arbitrary: pos)
  case 0
  then show ?case by (simp add: stored.simps [of _ _ 0] under_length)
next
  case (Suc h)
  have "pos * 2 < width (length vTxid) h" using Suc.prems unfolding width_Suc by linarith
  moreover have "0 < length (under vTxid (Suc h) pos)"
    using Suc.prems unfolding width_le_iff under_length by (simp del: power_Suc)
  ultimately show ?case
    using Suc.IH [of "pos * 2"] Suc.IH [of "pos * 2 + 1"]
    by (subst (1 2 3) stored.simps) (auto simp: Let_def case_prod_beta under_Suc mult.commute Suc_le_eq)
qed

text \<open>No two siblings of any level have the same hash; otherwise a traversal that meets them fails.\<close>

definition distinct_siblings :: "bytes list \<Rightarrow> bool" where
  "distinct_siblings leaves \<longleftrightarrow>
     (\<forall>k i. 2 * i + 1 < width (length leaves) k \<longrightarrow> node leaves k (2 * i) \<noteq> node leaves k (2 * i + 1))"

lemma extract_stored:
  assumes "nTransactions t = length vTxid" "length vTxid \<le> 2 ^ 31" "distinct_siblings vTxid"
  shows "h < 32 \<Longrightarrow> pos < width (length vTxid) h \<Longrightarrow>
    vBits t = b1 @ fst (stored vTxid vMatch h pos) @ b2 \<Longrightarrow> vHash t = h1 @ snd (stored vTxid vMatch h pos) @ h2 \<Longrightarrow>
    nBitsUsed st = length b1 \<Longrightarrow> nHashUsed st = length h1 \<Longrightarrow>
    TraverseAndExtract t h pos st =
      (node vTxid h pos,
       st\<lparr>nBitsUsed := length b1 + length (fst (stored vTxid vMatch h pos)),
          nHashUsed := length h1 + length (snd (stored vTxid vMatch h pos)),
          ex_match := ex_match st @ map ((!) vTxid) (matched vTxid vMatch h pos),
          vnIndex := vnIndex st @ matched vTxid vMatch h pos\<rparr>)"
proof (induction h arbitrary: pos b1 b2 h1 h2 st)
  case 0
  let ?m = "parent_of_match (length vTxid) 0 pos vMatch"
  have s: "stored vTxid vMatch 0 pos = ([?m], [vTxid ! pos])" by (simp add: stored.simps [of _ _ 0] node_0)
  have m: "matched vTxid vMatch 0 pos = (if ?m then [pos] else [])"
    by (auto simp: matched_def parent_of_match_def)
  show ?case
    using 0 unfolding s m by (subst TraverseAndExtract.simps) (auto simp: Let_def node_0 nth_append)
next
  case (Suc h)
  let ?m = "parent_of_match (length vTxid) (Suc h) pos vMatch"
  have lt: "pos * 2 < width (length vTxid) h" using Suc.prems(2) unfolding width_Suc by linarith
  show ?case
  proof (cases ?m)
    case False
    then have s: "stored vTxid vMatch (Suc h) pos = ([False], [node vTxid (Suc h) pos])" "matched vTxid vMatch (Suc h) pos = []"
      by (simp_all add: stored.simps [of _ _ "Suc h"] matched_empty_iff)
    show ?thesis
      using Suc.prems unfolding s by (subst TraverseAndExtract.simps) (simp add: Let_def nth_append)
  next
    case True
    let ?l = "stored vTxid vMatch h (pos * 2)" and ?r = "stored vTxid vMatch h (pos * 2 + 1)"
    let ?two = "pos * 2 + 1 < width (length vTxid) h"
    let ?st = "st\<lparr>nBitsUsed := nBitsUsed st + 1\<rparr>"
    have s: "stored vTxid vMatch (Suc h) pos =
        (True # fst ?l @ (if ?two then fst ?r else []), snd ?l @ (if ?two then snd ?r else []))"
      using True by (subst stored.simps) (simp add: Let_def case_prod_beta)
    have b: "vBits t = (b1 @ [True]) @ fst ?l @ ((if ?two then fst ?r else []) @ b2)"
      and hh: "vHash t = h1 @ snd ?l @ ((if ?two then snd ?r else []) @ h2)"
      using Suc.prems(3,4) unfolding s by simp_all
    have bit: "nBitsUsed st < length (vBits t)" "vBits t ! nBitsUsed st" using b Suc.prems(5) by (simp_all add: nth_append)
    note left = Suc.IH [OF _ lt b hh, of ?st]
    define st1 where "st1 = st\<lparr>nBitsUsed := Suc (length b1 + length (fst ?l)), nHashUsed := length h1 + length (snd ?l),
        ex_match := ex_match st @ map ((!) vTxid) (matched vTxid vMatch h (pos * 2)),
        vnIndex := vnIndex st @ matched vTxid vMatch h (pos * 2)\<rparr>"
    have nodes: "node vTxid (Suc h) pos = H2 (node vTxid h (pos * 2)) (node vTxid h (if ?two then pos * 2 + 1 else pos * 2))"
      using node_Suc [OF Suc.prems(2)] by (simp add: mult.commute)
    have l1: "TraverseAndExtract t h (pos * 2) ?st = (node vTxid h (pos * 2), st1)"
      "nBitsUsed st1 = length ((b1 @ [True]) @ fst ?l)" "nHashUsed st1 = length (h1 @ snd ?l)"
      using left Suc.prems(1,5,6) by (simp_all add: st1_def)
    have w: "CalcTreeWidth (nTransactions t) h = width (length vTxid) h"
      using assms(1,2) Suc.prems(1) by (simp add: CalcTreeWidth_eq)
    show ?thesis
    proof (cases ?two)
      case two: True
      have b': "vBits t = ((b1 @ [True]) @ fst ?l) @ fst ?r @ b2" and hh': "vHash t = (h1 @ snd ?l) @ snd ?r @ h2"
        using b hh two by simp_all
      have r1: "TraverseAndExtract t h (pos * 2 + 1) st1 = (node vTxid h (pos * 2 + 1),
        st1\<lparr>nBitsUsed := length ((b1 @ [True]) @ fst ?l) + length (fst ?r), nHashUsed := length (h1 @ snd ?l) + length (snd ?r),
          ex_match := ex_match st1 @ map ((!) vTxid) (matched vTxid vMatch h (pos * 2 + 1)),
          vnIndex := vnIndex st1 @ matched vTxid vMatch h (pos * 2 + 1)\<rparr>)"
        using Suc.prems(1) by (intro Suc.IH [OF _ two b' hh' l1(2,3)]) simp
      have ne: "node vTxid h (pos * 2 + 1) \<noteq> node vTxid h (pos * 2)"
        using assms(3) two unfolding distinct_siblings_def by (metis mult.commute)
      show ?thesis
        using bit l1(1) r1 ne two
        by (subst TraverseAndExtract.simps) (simp add: Let_def w nodes Hash_pair s matched_Suc st1_def)
    next
      case False
      then show ?thesis
        using bit l1(1)
        by (subst TraverseAndExtract.simps) (simp add: Let_def w nodes Hash_pair s matched_Suc matched_beyond st1_def)
    qed
  qed
qed

section \<open>Flag bits on the wire\<close>

lemma bits_fold_nth:
  assumes "k \<le> length bits" "(length bits + 7) div 8 = len"
  shows "let v = foldl (\<lambda>v p. v[p div 8 := v ! (p div 8) OR push_bit (p mod 8) (of_bool (bits ! p))]) (replicate len (0 :: uint8)) [0..<k]
    in length v = len \<and> (\<forall>i j. i < len \<longrightarrow> j < 8 \<longrightarrow> bit (v ! i) j = (8 * i + j < k \<and> bits ! (8 * i + j)))"
  using assms(1)
proof (induction k)
  case 0
  then show ?case by simp
next
  case (Suc k)
  let ?v = "foldl (\<lambda>v p. v[p div 8 := v ! (p div 8) OR push_bit (p mod 8) (of_bool (bits ! p))]) (replicate len (0 :: uint8)) [0..<k]"
  have IH: "length ?v = len" "\<And>i j. i < len \<Longrightarrow> j < 8 \<Longrightarrow> bit (?v ! i) j = (8 * i + j < k \<and> bits ! (8 * i + j))"
    using Suc by (simp_all add: Let_def)
  have k: "k div 8 < len" using Suc.prems assms(2) by linarith
  have "bit (?v[k div 8 := ?v ! (k div 8) OR push_bit (k mod 8) (of_bool (bits ! k))] ! i) j =
      (8 * i + j < Suc k \<and> bits ! (8 * i + j))" if ij: "i < len" "j < 8" for i j
  proof (cases "k div 8 = i")
    case True
    have one: "bit (push_bit (k mod 8) (of_bool (bits ! k)) :: uint8) j \<longleftrightarrow> j = k mod 8 \<and> bits ! k"
      using ij(2) by (auto simp: bit_push_bit_iff bit_simps possible_bit_word)
    have split: "k = 8 * i + k mod 8" using True by (metis mult_div_mod_eq)
    have "j = k mod 8 \<longleftrightarrow> 8 * i + j = k" using split ij(2) by auto
    then show ?thesis using True IH ij one by (auto simp: bit_or_iff less_Suc_eq)
  next
    case False
    then have "8 * i + j \<noteq> k" using ij(2) by auto
    then show ?thesis using False IH ij by auto
  qed
  then show ?case using IH(1) by (simp add: Let_def)
qed

lemma bits_to_bytes_nth:
  "length (bits_to_bytes bits) = (length bits + 7) div 8"
  "i < (length bits + 7) div 8 \<Longrightarrow> j < 8 \<Longrightarrow> bit (bits_to_bytes bits ! i) j \<longleftrightarrow> 8 * i + j < length bits \<and> bits ! (8 * i + j)"
  using bits_fold_nth [OF order_refl refl, of bits] unfolding bits_to_bytes_def Let_def by blast+

lemma byte_test_bit: "(w :: uint8) AND push_bit k 1 \<noteq> 0 \<longleftrightarrow> bit w k"
proof -
  have "w AND push_bit k 1 = (if bit w k then push_bit k 1 else 0)"
    by (rule bit_word_eqI) (auto simp: bit_simps)
  moreover have "push_bit k 1 \<noteq> (0 :: uint8)" if "bit w k"
    using bit_imp_le_length [OF that] by (auto dest: arg_cong [where f = "\<lambda>x. bit x k"] simp: bit_simps)
  ultimately show ?thesis by simp
qed

text \<open>Reading back what was written gives the bits, padded with False to full bytes.\<close>

lemma bits_roundtrip:
  "bytes_to_bits (bits_to_bytes bits) = bits @ replicate ((length bits + 7) div 8 * 8 - length bits) False"
proof (rule nth_equalityI)
  show len: "length (bytes_to_bits (bits_to_bytes bits)) = length (bits @ replicate ((length bits + 7) div 8 * 8 - length bits) False)"
    by (simp add: bytes_to_bits_def bits_to_bytes_nth(1))
  fix p
  assume "p < length (bytes_to_bits (bits_to_bytes bits))"
  then have p: "p < (length bits + 7) div 8 * 8" by (simp add: bytes_to_bits_def bits_to_bytes_nth(1))
  then have "p div 8 < (length bits + 7) div 8" by (simp add: less_mult_imp_div_less)
  then have "bytes_to_bits (bits_to_bytes bits) ! p \<longleftrightarrow> p < length bits \<and> bits ! p"
    using p bits_to_bytes_nth(2) [of "p div 8" bits "p mod 8"]
    by (simp add: bytes_to_bits_def bits_to_bytes_nth(1) byte_test_bit del: push_bit_of_1)
  then show "bytes_to_bits (bits_to_bytes bits) ! p =
      (bits @ replicate ((length bits + 7) div 8 * 8 - length bits) False) ! p"
    using p by (simp add: nth_append)
qed

text \<open>What a peer has after reading the serialized tree.\<close>

definition wire_tree :: "CPartialMerkleTree \<Rightarrow> CPartialMerkleTree" where
  "wire_tree t = t\<lparr>vBits := bytes_to_bits (bits_to_bytes (vBits t)), fBad := False\<rparr>"

section \<open>Round trip\<close>

lemma partial_tree_roundtrip:
  assumes n: "vTxid \<noteq> []" "length vTxid \<le> 16666" and d: "distinct_siblings vTxid"
  shows "\<exists>t. CPartialMerkleTree_new vTxid vMatch = Some t \<and>
    ExtractMatches (wire_tree t) [] =
      (let idx = filter ((!) vMatch) [0..<length vTxid] in Some (merkle_root vTxid, map ((!) vTxid) idx, idx))"
proof -
  let ?n = "length vTxid"
  have n31: "?n \<le> 2 ^ 31" "0 < ?n" using n by simp_all
  obtain L where L: "tree_height ?n 0 = Some L" "top_level ?n L" "L < 32"
    using tree_height_top [OF n31(2,1), of 0] by auto
  let ?s = "stored vTxid vMatch L 0"
  have w: "0 < width ?n L" using L(2) by (simp add: top_level_def)
  define t where "t = \<lparr>nTransactions = ?n, vBits = fst ?s, vHash = snd ?s, fBad = False\<rparr>"
  have new: "CPartialMerkleTree_new vTxid vMatch = Some t"
    using TraverseAndBuild_stored [OF n31(1) L(3) w, of vMatch "[]" "[]"] L(1)
    by (simp add: CPartialMerkleTree_new_def t_def case_prod_beta)
  have all: "under vTxid L 0 = vTxid"
    using L(2) width_le_iff [of 1 ?n L] by (simp add: under_def top_level_def)
  then have le: "?n \<le> 2 ^ L" by (metis length_take min.cobounded2 mult_0 drop0 under_def)
  have m: "matched vTxid vMatch L 0 = filter ((!) vMatch) [0..<?n]"
  proof -
    have "[0..<2 ^ L] = [0..<?n] @ [?n..<2 ^ L]" using le upt_add_eq_append [of 0 ?n "2 ^ L - ?n"] by simp
    then show ?thesis by (auto simp: matched_def filter_empty_conv intro!: filter_cong)
  qed
  let ?pad = "(length (fst ?s) + 7) div 8 * 8 - length (fst ?s)"
  have ex: "TraverseAndExtract (wire_tree t) L 0 \<lparr>ex_bad = False, nBitsUsed = 0, nHashUsed = 0, ex_match = [], vnIndex = []\<rparr> =
     (node vTxid L 0, \<lparr>ex_bad = False, nBitsUsed = length (fst ?s), nHashUsed = length (snd ?s),
        ex_match = map ((!) vTxid) (matched vTxid vMatch L 0), vnIndex = matched vTxid vMatch L 0\<rparr>)"
    using extract_stored [OF _ n31(1) d L(3) w, of "wire_tree t" "[]" vMatch "replicate ?pad False" "[]" "[]"]
    by (simp add: wire_tree_def t_def bits_roundtrip)
  have hl: "length (snd ?s) \<le> ?n" "length (snd ?s) \<le> length (fst ?s)"
    using stored_lengths [OF w, of vMatch] all by simp_all
  have hl2: "\<not> (length (fst ?s) + 7) div 8 * 8 < length (snd ?s)" using hl(2) by linarith
  have pad: "(length (fst ?s) + ?pad + 7) div 8 = (length (fst ?s) + 7) div 8" by linarith
  have "ExtractMatches (wire_tree t) [] = Some (merkle_root vTxid, map ((!) vTxid) (filter ((!) vMatch) [0..<?n]), filter ((!) vMatch) [0..<?n])"
    using n hl hl2 L(1) ex pad merkle_root_node [OF L(2)] m
    by (simp add: ExtractMatches_def wire_tree_def t_def bits_roundtrip GetMaxBlockWeight_def MAX_BLOCK_WEIGHT_RIP2_def
      MIN_TRANSACTION_WEIGHT_def WITNESS_SCALE_FACTOR_def)
  then show ?thesis using new by (simp add: Let_def)
qed

section \<open>Soundness of extraction\<close>

text \<open>The pairs of hashes that the extraction combines.\<close>

fun extract_pairs :: "CPartialMerkleTree \<Rightarrow> nat \<Rightarrow> nat \<Rightarrow> extract_state \<Rightarrow> (bytes \<times> bytes) set" where
  "extract_pairs t height pos st =
     (if nBitsUsed st \<ge> length (vBits t) \<or> height = 0 \<or> \<not> vBits t ! nBitsUsed st then {}
      else let st = st\<lparr>nBitsUsed := nBitsUsed st + 1\<rparr>;
               (left, st1) = TraverseAndExtract t (height - 1) (pos * 2) st;
               ps = extract_pairs t (height - 1) (pos * 2) st
           in if pos * 2 + 1 < CalcTreeWidth (nTransactions t) (height - 1)
              then insert (left, fst (TraverseAndExtract t (height - 1) (pos * 2 + 1) st1))
                     (ps \<union> extract_pairs t (height - 1) (pos * 2 + 1) st1)
              else insert (left, left) ps)"

declare extract_pairs.simps [simp del]

definition ExtractMatches_pairs :: "CPartialMerkleTree \<Rightarrow> (bytes \<times> bytes) set" where
  "ExtractMatches_pairs t =
     (case tree_height (nTransactions t) 0 of None \<Rightarrow> {}
      | Some h \<Rightarrow> extract_pairs t h 0 \<lparr>ex_bad = fBad t, nBitsUsed = 0, nHashUsed = 0, ex_match = [], vnIndex = []\<rparr>)"

lemma extract_bad_mono: "ex_bad st \<Longrightarrow> ex_bad (snd (TraverseAndExtract t h pos st))"
proof (induction h arbitrary: pos st)
  case 0
  then show ?case by (subst TraverseAndExtract.simps) (simp add: Let_def)
next
  case (Suc h)
  show ?case
    using Suc.IH [of "st\<lparr>nBitsUsed := nBitsUsed st + 1\<rparr>" "pos * 2"]
      Suc.IH [of "snd (TraverseAndExtract t h (pos * 2) (st\<lparr>nBitsUsed := nBitsUsed st + 1\<rparr>))" "pos * 2 + 1"] Suc.prems
    by (subst TraverseAndExtract.simps) (simp add: Let_def case_prod_beta)
qed

text \<open>Every index that an extraction reports lies below its node, in increasing order, with the id that the tree has there.\<close>

definition sound_matches :: "bytes list \<Rightarrow> nat \<Rightarrow> nat \<Rightarrow> extract_state \<Rightarrow> extract_state \<Rightarrow> bool" where
  "sound_matches vTxid h pos st st' \<longleftrightarrow>
     (\<exists>idx. ex_match st' = ex_match st @ map ((!) vTxid) idx \<and> vnIndex st' = vnIndex st @ idx \<and> sorted_wrt (<) idx \<and>
        (\<forall>p\<in>set idx. p < length vTxid \<and> pos * 2 ^ h \<le> p \<and> p < (pos + 1) * 2 ^ h))"

lemma sound_matches_none:
  "ex_match st' = ex_match st \<Longrightarrow> vnIndex st' = vnIndex st \<Longrightarrow> sound_matches vTxid h pos st st'"
  unfolding sound_matches_def by (intro exI [of _ "[]"]) simp

lemma sound_matches_left:
  "sound_matches vTxid h (pos * 2) st st' \<Longrightarrow> sound_matches vTxid (Suc h) pos st st'"
  unfolding sound_matches_def by (fastforce simp: algebra_simps)

lemma sound_matches_both:
  assumes "sound_matches vTxid h (pos * 2) st st1" "sound_matches vTxid h (pos * 2 + 1) st1 st2"
  shows "sound_matches vTxid (Suc h) pos st st2"
proof -
  obtain i1 where i1: "ex_match st1 = ex_match st @ map ((!) vTxid) i1" "vnIndex st1 = vnIndex st @ i1" "sorted_wrt (<) i1"
    "\<forall>p\<in>set i1. p < length vTxid \<and> pos * 2 * 2 ^ h \<le> p \<and> p < (pos * 2 + 1) * 2 ^ h"
    using assms(1) unfolding sound_matches_def by blast
  obtain i2 where i2: "ex_match st2 = ex_match st1 @ map ((!) vTxid) i2" "vnIndex st2 = vnIndex st1 @ i2" "sorted_wrt (<) i2"
    "\<forall>p\<in>set i2. p < length vTxid \<and> (pos * 2 + 1) * 2 ^ h \<le> p \<and> p < (pos * 2 + 1 + 1) * 2 ^ h"
    using assms(2) unfolding sound_matches_def by blast
  have "sorted_wrt (<) (i1 @ i2)"
    using i1(3,4) i2(3,4) by (auto simp: sorted_wrt_append intro: less_le_trans)
  moreover have "\<forall>p\<in>set (i1 @ i2). p < length vTxid \<and> pos * 2 ^ Suc h \<le> p \<and> p < (pos + 1) * 2 ^ Suc h"
    using i1(4) i2(4) by (fastforce simp: algebra_simps)
  ultimately show ?thesis
    using i1(1,2) i2(1,2) unfolding sound_matches_def by (intro exI [of _ "i1 @ i2"]) simp
qed

lemma extract_sound:
  assumes n: "nTransactions t = length vTxid" "length vTxid \<le> 2 ^ 31"
  shows "inj_on (\<lambda>(a, b). H2 a b) (hashed_pairs vTxid \<union> extract_pairs t h pos st) \<Longrightarrow>
    h < 32 \<Longrightarrow> pos < width (length vTxid) h \<Longrightarrow> \<forall>j<h. 1 < width (length vTxid) j \<Longrightarrow>
    fst (TraverseAndExtract t h pos st) = node vTxid h pos \<Longrightarrow> \<not> ex_bad (snd (TraverseAndExtract t h pos st)) \<Longrightarrow>
    sound_matches vTxid h pos st (snd (TraverseAndExtract t h pos st))"
proof (induction h arbitrary: pos st)
  case 0
  have "sound_matches vTxid 0 pos st (snd (TraverseAndExtract t 0 pos st))"
    if "nBitsUsed st < length (vBits t)" "nHashUsed st < length (vHash t)" "vBits t ! nBitsUsed st"
  proof -
    have "fst (TraverseAndExtract t 0 pos st) = vHash t ! nHashUsed st"
      using that by (subst TraverseAndExtract.simps) (simp add: Let_def)
    then have "vHash t ! nHashUsed st = vTxid ! pos" using 0 by (simp add: node_0)
    then show ?thesis
      using that 0 unfolding sound_matches_def
      by (subst (1 2) TraverseAndExtract.simps) (auto simp: Let_def intro!: exI [of _ "[pos]"])
  qed
  moreover have "sound_matches vTxid 0 pos st (snd (TraverseAndExtract t 0 pos st))"
    if "\<not> (nBitsUsed st < length (vBits t) \<and> nHashUsed st < length (vHash t) \<and> vBits t ! nBitsUsed st)"
    using that by (intro sound_matches_none) (subst TraverseAndExtract.simps, auto simp: Let_def)+
  ultimately show ?case by blast
next
  case (Suc h)
  let ?st = "st\<lparr>nBitsUsed := nBitsUsed st + 1\<rparr>"
  have lt: "pos * 2 < width (length vTxid) h" using Suc.prems(3) unfolding width_Suc by linarith
  have w: "CalcTreeWidth (nTransactions t) h = width (length vTxid) h"
    using n Suc.prems(2) by (simp add: CalcTreeWidth_eq)
  have below: "\<forall>j<h. 1 < width (length vTxid) j" using Suc.prems(4) by simp
  show ?case
  proof (cases "nBitsUsed st < length (vBits t) \<and> vBits t ! nBitsUsed st")
    case False
    then show ?thesis
      by (intro sound_matches_none) (subst TraverseAndExtract.simps, auto simp: Let_def)+
  next
    case True
    obtain l st1 where l: "TraverseAndExtract t h (pos * 2) ?st = (l, st1)" by (metis surj_pair)
    have pair: "(node vTxid h (pos * 2), node vTxid h (if pos * 2 + 1 < width (length vTxid) h then pos * 2 + 1 else pos * 2)) \<in> hashed_pairs vTxid"
      using Suc.prems(3,4) unfolding hashed_pairs_def by (auto simp: mult.commute)
    have top: "node vTxid (Suc h) pos = H2 (node vTxid h (pos * 2)) (node vTxid h (if pos * 2 + 1 < width (length vTxid) h then pos * 2 + 1 else pos * 2))"
      using node_Suc [OF Suc.prems(3)] by (simp add: mult.commute)
    show ?thesis
    proof (cases "pos * 2 + 1 < width (length vTxid) h")
      case two: True
      obtain r st2 where r: "TraverseAndExtract t h (pos * 2 + 1) st1 = (r, st2)" by (metis surj_pair)
      have run: "TraverseAndExtract t (Suc h) pos st = (H2 l r, if r = l then st2\<lparr>ex_bad := True\<rparr> else st2)"
        using True two l r by (subst TraverseAndExtract.simps) (simp add: Let_def w Hash_pair)
      have ps: "extract_pairs t (Suc h) pos st = insert (l, r) (extract_pairs t h (pos * 2) ?st \<union> extract_pairs t h (pos * 2 + 1) st1)"
        using True two l r by (subst extract_pairs.simps) (simp add: Let_def w)
      have "(l, r) = (node vTxid h (pos * 2), node vTxid h (pos * 2 + 1))"
        by (rule inj_onD [OF Suc.prems(1)]) (use Suc.prems(5) run top two pair ps in auto)
      then have e: "l = node vTxid h (pos * 2)" "r = node vTxid h (pos * 2 + 1)" by simp_all
      have good: "r \<noteq> l" "\<not> ex_bad st2" using Suc.prems(6) run by (auto split: if_splits)
      then have good1: "\<not> ex_bad st1" using extract_bad_mono [of st1 t h "pos * 2 + 1"] r by auto
      have inj: "inj_on (\<lambda>(a, b). H2 a b) (hashed_pairs vTxid \<union> extract_pairs t h (pos * 2) ?st)"
        "inj_on (\<lambda>(a, b). H2 a b) (hashed_pairs vTxid \<union> extract_pairs t h (pos * 2 + 1) st1)"
        using Suc.prems(1) unfolding ps by (blast intro: inj_on_subset)+
      have "sound_matches vTxid h (pos * 2) ?st st1"
        using Suc.IH [OF inj(1) _ lt below] l e(1) good1 Suc.prems(2) by simp
      moreover have "sound_matches vTxid h (pos * 2 + 1) st1 st2"
        using Suc.IH [OF inj(2) _ two below] r e(2) good(2) Suc.prems(2) by simp
      ultimately have "sound_matches vTxid (Suc h) pos ?st st2" by (rule sound_matches_both)
      then show ?thesis using run good(1) by (simp add: sound_matches_def)
    next
      case one: False
      have run: "TraverseAndExtract t (Suc h) pos st = (H2 l l, st1)"
        using True one l by (subst TraverseAndExtract.simps) (simp add: Let_def w Hash_pair)
      have ps: "extract_pairs t (Suc h) pos st = insert (l, l) (extract_pairs t h (pos * 2) ?st)"
        using True one l by (subst extract_pairs.simps) (simp add: Let_def w)
      have "(l, l) = (node vTxid h (pos * 2), node vTxid h (pos * 2))"
        by (rule inj_onD [OF Suc.prems(1)]) (use Suc.prems(5) run top one pair ps in auto)
      moreover have inj: "inj_on (\<lambda>(a, b). H2 a b) (hashed_pairs vTxid \<union> extract_pairs t h (pos * 2) ?st)"
        using Suc.prems(1) unfolding ps by (blast intro: inj_on_subset)
      ultimately have "sound_matches vTxid h (pos * 2) ?st st1"
        using Suc.IH [OF inj _ lt below] l Suc.prems(2,6) run by simp
      then have "sound_matches vTxid (Suc h) pos ?st st1" by (rule sound_matches_left)
      then show ?thesis using run by (simp add: sound_matches_def)
    qed
  qed
qed

lemma top_level_below: "top_level n L \<Longrightarrow> j < L \<Longrightarrow> 1 < width n j"
proof -
  assume L: "top_level n L" "j < L"
  then have "width n (L - 1) \<le> width n j" by (simp add: width_eq div_le_mono2)
  then show ?thesis using L by (auto simp: top_level_def)
qed

lemma ExtractMatches_sound:
  assumes n: "nTransactions t = length vTxid" and ne: "vTxid \<noteq> []"
    and inj: "inj_on (\<lambda>(a, b). H2 a b) (hashed_pairs vTxid \<union> ExtractMatches_pairs t)"
    and run: "ExtractMatches t [] = Some (root, ids, idx)" "root = merkle_root vTxid" "root \<noteq> blob_null"
  shows "ids = map ((!) vTxid) idx \<and> sorted_wrt (<) idx \<and> (\<forall>p\<in>set idx. p < length vTxid)"
proof -
  have lim: "length vTxid \<le> 16666"
    using run n by (auto simp: ExtractMatches_def GetMaxBlockWeight_def MAX_BLOCK_WEIGHT_RIP2_def MIN_TRANSACTION_WEIGHT_def
      WITNESS_SCALE_FACTOR_def split: if_splits)
  then have n31: "length vTxid \<le> 2 ^ 31" "0 < length vTxid" using ne by simp_all
  obtain L where L: "tree_height (length vTxid) 0 = Some L" "top_level (length vTxid) L" "L < 32"
    using tree_height_top [OF n31(2,1), of 0] by auto
  let ?st = "\<lparr>ex_bad = fBad t, nBitsUsed = 0, nHashUsed = 0, ex_match = [], vnIndex = []\<rparr>"
  obtain r st where ex: "TraverseAndExtract t L 0 ?st = (r, st)" by (metis surj_pair)
  have res: "r = root" "\<not> ex_bad st" "ids = ex_match st" "idx = vnIndex st"
    using run L(1) ex n by (auto simp: ExtractMatches_def split: if_splits)
  have "sound_matches vTxid L 0 ?st (snd (TraverseAndExtract t L 0 ?st))"
  proof (rule extract_sound [OF n n31(1) _ L(3)])
    show "inj_on (\<lambda>(a, b). H2 a b) (hashed_pairs vTxid \<union> extract_pairs t L 0 ?st)"
      using inj by (simp add: ExtractMatches_pairs_def n L(1))
    show "\<forall>j<L. 1 < width (length vTxid) j" using top_level_below [OF L(2)] by blast
  qed (use L(2) ex res run merkle_root_node [OF L(2)] in \<open>auto simp: top_level_def\<close>)
  then show ?thesis using ex res by (auto simp: sound_matches_def)
qed

section \<open>Properties\<close>





end
