(* ===== verification/Serialize.thy ===== *)
theory Serialize
  imports HashLib
begin

text \<open>
  The wire format, src/src/serialize.h.  A writer is a function to bytes; a reader takes the bytes of the stream
  and returns the object and the rest, or \<open>None\<close> where the code throws \<open>ios_base::failure\<close> (end of data,
  non-canonical or too large sizes).

  The locale \<open>codec\<close> states that a reader undoes a writer whatever follows, and \<open>canonical_codec\<close> that it
  accepts nothing else; integers, CompactSize, VarInt, byte vectors and vectors over a codec are instances.
\<close>

section \<open>Streams and integers\<close>

type_synonym 'a reader = "bytes \<Rightarrow> ('a \<times> bytes) option"

definition MAX_SIZE :: nat where "MAX_SIZE = 0x02000000"

definition stream_read :: "nat \<Rightarrow> bytes reader" where
  "stream_read n s = (if n \<le> length s then Some (take n s, drop n s) else None)"

definition ser_writedata8 :: "uint8 \<Rightarrow> bytes" where "ser_writedata8 x = [x]"

definition ser_writedata16 :: "uint16 \<Rightarrow> bytes" where "ser_writedata16 = WriteLE16"

definition ser_writedata32 :: "uint32 \<Rightarrow> bytes" where "ser_writedata32 = WriteLE32"

definition ser_writedata64 :: "uint64 \<Rightarrow> bytes" where "ser_writedata64 = WriteLE64"

definition ser_readdata8 :: "uint8 reader" where
  "ser_readdata8 s = do { (p, s) \<leftarrow> stream_read 1 s; Some (p ! 0, s) }"

definition ser_readdata16 :: "uint16 reader" where
  "ser_readdata16 s = do { (p, s) \<leftarrow> stream_read 2 s; Some (ReadLE16 p, s) }"

definition ser_readdata32 :: "uint32 reader" where
  "ser_readdata32 s = do { (p, s) \<leftarrow> stream_read 4 s; Some (ReadLE32 p, s) }"

definition ser_readdata64 :: "uint64 reader" where
  "ser_readdata64 s = do { (p, s) \<leftarrow> stream_read 8 s; Some (ReadLE64 p, s) }"

text \<open>Signed integers are written as their two's complement.\<close>

definition Serialize_int32 :: "int \<Rightarrow> bytes" where "Serialize_int32 a = ser_writedata32 (word_of_int a)"

definition Unserialize_int32 :: "int reader" where
  "Unserialize_int32 s = do { (w, s) \<leftarrow> ser_readdata32 s; Some (sint w, s) }"

definition Serialize_int64 :: "int \<Rightarrow> bytes" where "Serialize_int64 a = ser_writedata64 (word_of_int a)"

definition Unserialize_int64 :: "int reader" where
  "Unserialize_int64 s = do { (w, s) \<leftarrow> ser_readdata64 s; Some (sint w, s) }"

definition Serialize_bool :: "bool \<Rightarrow> bytes" where "Serialize_bool a = ser_writedata8 (of_bool a)"

definition Unserialize_bool :: "bool reader" where
  "Unserialize_bool s = do { (f, s) \<leftarrow> ser_readdata8 s; Some (f \<noteq> 0, s) }"

section \<open>Sizes\<close>

definition GetSizeOfCompactSize :: "nat \<Rightarrow> nat" where
  "GetSizeOfCompactSize nSize =
     (if nSize < 253 then 1 else if nSize \<le> 0xFFFF then 3 else if nSize \<le> 0xFFFFFFFF then 5 else 9)"

definition WriteCompactSize :: "nat \<Rightarrow> bytes" where
  "WriteCompactSize nSize =
     (if nSize < 253 then ser_writedata8 (of_nat nSize)
      else if nSize \<le> 0xFFFF then ser_writedata8 253 @ ser_writedata16 (of_nat nSize)
      else if nSize \<le> 0xFFFFFFFF then ser_writedata8 254 @ ser_writedata32 (of_nat nSize)
      else ser_writedata8 255 @ ser_writedata64 (of_nat nSize))"

definition ReadCompactSize :: "nat reader" where
  "ReadCompactSize is =
     do { (chSize, is) \<leftarrow> ser_readdata8 is;
          (nSizeRet, is) \<leftarrow>
            (if chSize < 253 then Some (unat chSize, is)
             else if chSize = 253 then
               do { (n, is) \<leftarrow> ser_readdata16 is; assert_opt (\<not> unat n < 253); Some (unat n, is) }
             else if chSize = 254 then
               do { (n, is) \<leftarrow> ser_readdata32 is; assert_opt (\<not> unat n < 0x10000); Some (unat n, is) }
             else
               do { (n, is) \<leftarrow> ser_readdata64 is; assert_opt (\<not> unat n < 0x100000000); Some (unat n, is) });
          assert_opt (\<not> nSizeRet > MAX_SIZE);
          Some (nSizeRet, is) }"

text \<open>The digits of a variable-length integer, in the order of \<open>tmp\<close>.\<close>

function varint_digits :: "nat \<Rightarrow> nat \<Rightarrow> bytes" where
  "varint_digits len n =
     (of_nat (n mod 0x80) OR (if len \<noteq> 0 then 0x80 else 0)) #
     (if n \<le> 0x7F then [] else varint_digits (len + 1) (n div 128 - 1))"
  by pat_completeness auto
termination by (relation "measure snd") (auto intro: le_less_trans [OF diff_le_self])

declare varint_digits.simps [simp del]

definition WriteVarInt :: "nat \<Rightarrow> bytes" where
  "WriteVarInt n = rev (varint_digits 0 n)"

function GetSizeOfVarInt :: "nat \<Rightarrow> nat" where
  "GetSizeOfVarInt n = (if n \<le> 0x7F then 1 else GetSizeOfVarInt (n div 128 - 1) + 1)"
  by pat_completeness auto
termination by (relation "measure id") (auto intro: le_less_trans [OF diff_le_self])

declare GetSizeOfVarInt.simps [simp del]

text \<open>\<open>maxI\<close> is the largest value of the integer type.\<close>

fun ReadVarInt_loop :: "nat \<Rightarrow> nat \<Rightarrow> nat reader" where
  "ReadVarInt_loop maxI n [] = None"
| "ReadVarInt_loop maxI n (chData # is) =
     (if n > maxI div 128 then None
      else let n = n * 128 + unat (chData AND 0x7F)
           in if chData AND 0x80 \<noteq> 0
              then if n = maxI then None else ReadVarInt_loop maxI (n + 1) is
              else Some (n, is))"

definition ReadVarInt :: "nat \<Rightarrow> nat reader" where
  "ReadVarInt maxI is = ReadVarInt_loop maxI 0 is"

section \<open>Vectors\<close>

text \<open>A byte vector is read in blocks of at most 5000000 bytes.\<close>

function read_blocks :: "nat \<Rightarrow> bytes reader" where
  "read_blocks n is =
     (if n = 0 then Some ([], is)
      else let blk = min n 5000000
           in do { (p, is) \<leftarrow> stream_read blk is;
                   (q, is) \<leftarrow> read_blocks (n - blk) is;
                   Some (p @ q, is) })"
  by pat_completeness auto
termination by (relation "measure fst") auto

declare read_blocks.simps [simp del]

definition Serialize_bytes :: "bytes \<Rightarrow> bytes" where
  "Serialize_bytes v = WriteCompactSize (length v) @ v"

definition Unserialize_bytes :: "bytes reader" where
  "Unserialize_bytes is = do { (nSize, is) \<leftarrow> ReadCompactSize is; read_blocks nSize is }"

definition Serialize_vector :: "('a \<Rightarrow> bytes) \<Rightarrow> 'a list \<Rightarrow> bytes" where
  "Serialize_vector ser v = WriteCompactSize (length v) @ concat (map ser v)"

fun read_items :: "'a reader \<Rightarrow> nat \<Rightarrow> 'a list reader" where
  "read_items unser 0 is = Some ([], is)"
| "read_items unser (Suc n) is =
     do { (x, is) \<leftarrow> unser is; (xs, is) \<leftarrow> read_items unser n is; Some (x # xs, is) }"

definition Unserialize_vector :: "'a reader \<Rightarrow> 'a list reader" where
  "Unserialize_vector unser is = do { (nSize, is) \<leftarrow> ReadCompactSize is; read_items unser nSize is }"

section \<open>Codecs\<close>

locale codec =
  fixes ser :: "'a \<Rightarrow> bytes"
    and unser :: "'a reader"
    and valid :: "'a \<Rightarrow> bool"
  assumes unser_ser: "valid x \<Longrightarrow> unser (ser x @ r) = Some (x, r)"
begin

lemma prefix_free: "valid x \<Longrightarrow> valid y \<Longrightarrow> ser x @ r = ser y @ s \<Longrightarrow> x = y \<and> r = s"
  by (metis unser_ser option.inject prod.inject)

lemma items_unser_ser: "\<forall>x\<in>set xs. valid x \<Longrightarrow> read_items unser (length xs) (concat (map ser xs) @ r) = Some (xs, r)"
  by (induction xs) (simp_all add: unser_ser)

end

locale canonical_codec = codec +
  assumes ser_unser: "unser s = Some (x, r) \<Longrightarrow> valid x \<and> s = ser x @ r"
begin

lemma items_ser_unser:
  "read_items unser n s = Some (xs, r) \<Longrightarrow> length xs = n \<and> (\<forall>x\<in>set xs. valid x) \<and> s = concat (map ser xs) @ r"
proof (induction n arbitrary: s xs)
  case (Suc n)
  then obtain x xs' s' where x: "unser s = Some (x, s')" and xs: "read_items unser n s' = Some (xs', r)" "xs = x # xs'"
    by (auto split: prod.splits simp: bind_eq_Some_conv)
  then show ?case using Suc.IH [OF xs(1)] ser_unser [OF x] by simp
qed simp

end

section \<open>Integers, sizes and vectors are codecs\<close>

lemma stream_read_append [simp]: "stream_read (length p) (p @ r) = Some (p, r)"
  by (simp add: stream_read_def)

lemma stream_read_eqI: "length p = n \<Longrightarrow> stream_read n (p @ r) = Some (p, r)"
  by auto

lemma stream_read_Some: "stream_read n s = Some (p, r) \<longleftrightarrow> s = p @ r \<and> length p = n"
  by (auto simp: stream_read_def split: if_splits)

lemma unat_less_2p: "unat (w :: 'a::len word) < 2 ^ LENGTH('a)"
  by (rule unsigned_less)

lemma unat_of_nat_lt: "n < 2 ^ LENGTH('a) \<Longrightarrow> unat (of_nat n :: 'a::len word) = n"
  by (simp add: unat_of_nat take_bit_nat_eq_self)

interpretation u8: canonical_codec ser_writedata8 ser_readdata8 "\<lambda>_. True"
  by unfold_locales
    (auto simp: ser_writedata8_def ser_readdata8_def stream_read_def length_Suc_conv numeral_2_eq_2 neq_Nil_conv Suc_le_length_iff split: if_splits)

interpretation u16: canonical_codec ser_writedata16 ser_readdata16 "\<lambda>_. True"
  by unfold_locales
    (auto simp: ser_writedata16_def ser_readdata16_def stream_read_eqI LE16.dec_enc LE16.enc_dec bind_eq_Some_conv stream_read_Some)

interpretation u32: canonical_codec ser_writedata32 ser_readdata32 "\<lambda>_. True"
  by unfold_locales
    (auto simp: ser_writedata32_def ser_readdata32_def stream_read_eqI LE32.dec_enc LE32.enc_dec bind_eq_Some_conv stream_read_Some)

interpretation u64: canonical_codec ser_writedata64 ser_readdata64 "\<lambda>_. True"
  by unfold_locales
    (auto simp: ser_writedata64_def ser_readdata64_def stream_read_eqI LE64.dec_enc LE64.enc_dec bind_eq_Some_conv stream_read_Some)

lemma sint_word_of_int32: "- (2 ^ 31) \<le> a \<Longrightarrow> a < 2 ^ 31 \<Longrightarrow> sint (word_of_int a :: uint32) = a"
  by (simp add: sint_sbintrunc' signed_take_bit_int_eq_self)

lemma sint_word_of_int64: "- (2 ^ 63) \<le> a \<Longrightarrow> a < 2 ^ 63 \<Longrightarrow> sint (word_of_int a :: uint64) = a"
  by (simp add: sint_sbintrunc' signed_take_bit_int_eq_self)

interpretation i32: canonical_codec Serialize_int32 Unserialize_int32 "\<lambda>a. - (2 ^ 31) \<le> a \<and> a < 2 ^ 31"
proof
  show "Unserialize_int32 (Serialize_int32 x @ r) = Some (x, r)" if "- (2 ^ 31) \<le> x \<and> x < 2 ^ 31" for x r
    using that by (simp add: Serialize_int32_def Unserialize_int32_def u32.unser_ser sint_word_of_int32)
  show "(- (2 ^ 31) \<le> x \<and> x < 2 ^ 31) \<and> s = Serialize_int32 x @ r" if "Unserialize_int32 s = Some (x, r)" for s x r
    using that u32.ser_unser sint_ge [of "_ :: uint32"] sint_lt [of "_ :: uint32"]
    by (fastforce simp: Serialize_int32_def Unserialize_int32_def bind_eq_Some_conv split: prod.splits)
qed

interpretation i64: canonical_codec Serialize_int64 Unserialize_int64 "\<lambda>a. - (2 ^ 63) \<le> a \<and> a < 2 ^ 63"
proof
  show "Unserialize_int64 (Serialize_int64 x @ r) = Some (x, r)" if "- (2 ^ 63) \<le> x \<and> x < 2 ^ 63" for x r
    using that by (simp add: Serialize_int64_def Unserialize_int64_def u64.unser_ser sint_word_of_int64)
  show "(- (2 ^ 63) \<le> x \<and> x < 2 ^ 63) \<and> s = Serialize_int64 x @ r" if "Unserialize_int64 s = Some (x, r)" for s x r
    using that u64.ser_unser sint_ge [of "_ :: uint64"] sint_lt [of "_ :: uint64"]
    by (fastforce simp: Serialize_int64_def Unserialize_int64_def bind_eq_Some_conv split: prod.splits)
qed

text \<open>A boolean reads back, but every non-zero byte reads as True.\<close>

interpretation bool_codec: codec Serialize_bool Unserialize_bool "\<lambda>_. True"
  by unfold_locales (simp add: Serialize_bool_def Unserialize_bool_def u8.unser_ser)

lemma ReadCompactSize_cases:
  assumes "ReadCompactSize s = Some (n, r)"
  shows "n \<le> MAX_SIZE \<and> s = WriteCompactSize n @ r"
proof -
  obtain ch s1 where ch: "ser_readdata8 s = Some (ch, s1)"
    using assms by (auto simp: ReadCompactSize_def bind_eq_Some_conv)
  have s: "s = ch # s1" using u8.ser_unser [OF ch] by (simp add: ser_writedata8_def)
  have max: "n \<le> MAX_SIZE" using assms by (auto simp: ReadCompactSize_def bind_eq_Some_conv split: if_splits)
  consider "ch < 253" | "ch = 253" | "ch = 254" | "\<not> ch < 253" "ch \<noteq> 253" "ch \<noteq> 254" by blast
  then have "s = WriteCompactSize n @ r"
  proof cases
    case 1
    then show ?thesis
      using assms ch s by (auto simp: ReadCompactSize_def WriteCompactSize_def ser_writedata8_def word_less_nat_alt split: if_splits)
  next
    case 2
    then obtain w where "ser_readdata16 s1 = Some (w, r)" "n = unat w" "\<not> unat w < 253"
      using assms ch by (auto simp: ReadCompactSize_def bind_eq_Some_conv split: if_splits)
    then show ?thesis
      using 2 s u16.ser_unser unat_less_2p [of w] by (auto simp: WriteCompactSize_def ser_writedata8_def)
  next
    case 3
    then obtain w where "ser_readdata32 s1 = Some (w, r)" "n = unat w" "\<not> unat w < 0x10000"
      using assms ch by (auto simp: ReadCompactSize_def bind_eq_Some_conv split: if_splits)
    then show ?thesis
      using 3 s u32.ser_unser unat_less_2p [of w] by (auto simp: WriteCompactSize_def ser_writedata8_def)
  next
    case 4
    then obtain w where w: "ser_readdata64 s1 = Some (w, r)" "n = unat w" "\<not> unat w < 0x100000000"
      using assms ch by (auto simp: ReadCompactSize_def bind_eq_Some_conv split: if_splits)
    then show ?thesis using max by (simp add: MAX_SIZE_def)
  qed
  with max show ?thesis ..
qed

interpretation compact_size: canonical_codec WriteCompactSize ReadCompactSize "\<lambda>n. n \<le> MAX_SIZE"
proof
  show "ReadCompactSize (WriteCompactSize n @ r) = Some (n, r)" if "n \<le> MAX_SIZE" for n r
    using that
    by (auto simp: ReadCompactSize_def WriteCompactSize_def u8.unser_ser u16.unser_ser u32.unser_ser MAX_SIZE_def
      word_less_nat_alt unat_of_nat_lt)
qed (rule ReadCompactSize_cases)

end
