(* ===== verification/VarInts.thy ===== *)
theory VarInts
  imports Serialize
begin

text \<open>
  Variable-length integers of src/src/serialize.h: \<open>WriteVarInt\<close> and \<open>ReadVarInt\<close> are a canonical codec for every
  unsigned integer type.
\<close>

subsection \<open>Variable-length integers\<close>

lemma low7: "unat ((w :: uint8) AND 0x7F) = unat w mod 128"
proof -
  have "w AND 0x7F = take_bit 7 w" by (simp add: take_bit_eq_mask mask_eq_exp_minus_1)
  then show ?thesis by (simp only: unsigned_take_bit_eq) (simp add: take_bit_eq_mod)
qed

lemma top_bit: "(w :: uint8) AND 0x80 \<noteq> 0 \<longleftrightarrow> 128 \<le> unat w"
proof -
  have "w AND 0x80 \<noteq> 0 \<longleftrightarrow> bit w 7"
    using bit_iff_and_push_bit_not_eq_0 [of w 7] by simp
  moreover have "bit w 7 \<longleftrightarrow> 128 \<le> unat w"
  proof -
    have "bit w 7 \<longleftrightarrow> bit (unat w) 7" by (metis bit_unsigned_iff possible_bit_nat)
    also have "\<dots> \<longleftrightarrow> odd (unat w div 2 ^ 7)" by (rule bit_iff_odd)
    finally have A: "bit w 7 \<longleftrightarrow> odd (unat w div 128)" by simp
    have "unat w < 256" using unat_less_2p [of w] by simp
    then have B: "unat w div 128 = (if 128 \<le> unat w then 1 else 0)" by (auto intro: div_nat_eqI)
    show ?thesis unfolding A B by simp
  qed
  ultimately show ?thesis by simp
qed

lemma unat_digit: "m < 128 \<Longrightarrow> unat (of_nat m OR (if b then 0x80 else 0) :: uint8) = m + (if b then 128 else 0)"
proof -
  assume m: "m < 128"
  have "of_nat m AND (0x80 :: uint8) = 0"
    using top_bit [of "of_nat m"] unat_of_nat_lt [of m, where 'a = 8] m by auto
  then have "of_nat m OR (0x80 :: uint8) = of_nat m + 0x80" by (rule disjunctive_add_eq_or [symmetric])
  then have "unat (of_nat m OR (0x80 :: uint8)) = unat (of_nat (m + 128) :: uint8)"
    by (simp only: of_nat_add of_nat_numeral)
  also have "\<dots> = m + 128" using m by (intro unat_of_nat_lt) simp
  finally have one: "unat (of_nat m OR (0x80 :: uint8)) = m + 128" .
  have "unat (of_nat m :: uint8) = m" using m by (intro unat_of_nat_lt) simp
  then show ?thesis using one by (cases b) simp_all
qed

lemma digit_eqI: "unat (x :: uint8) = unat y \<Longrightarrow> x = y"
  by (simp add: word_unat_eq_iff)

lemma varint_digits_pos: "0 < l \<Longrightarrow> varint_digits l n = varint_digits 1 n"
proof (induction n arbitrary: l rule: less_induct)
  case (less n)
  show ?case
  proof (cases "n \<le> 127")
    case False
    then have "n div 128 - 1 < n" by (auto intro: le_less_trans [OF diff_le_self])
    then show ?thesis
      using less.IH [of "n div 128 - 1" "l + 1"] less.IH [of "n div 128 - 1" "Suc (Suc 0)"] less.prems
      by (subst (1 2) varint_digits.simps) simp
  qed (subst (1 2) varint_digits.simps, use less.prems in simp)
qed

text \<open>The bytes that stand for the value \<open>a\<close> that the reader has accumulated.\<close>

definition varint_prefix :: "nat \<Rightarrow> bytes" where
  "varint_prefix a = (if a = 0 then [] else rev (varint_digits 1 (a - 1)))"

lemma WriteVarInt_snoc: "WriteVarInt n = varint_prefix (n div 128) @ [of_nat (n mod 128)]"
proof -
  have "n \<le> 127 \<longleftrightarrow> n div 128 = 0" by auto
  then show ?thesis
    unfolding WriteVarInt_def varint_prefix_def by (subst varint_digits.simps) auto
qed

lemma varint_prefix_Suc: "varint_prefix (Suc m) = varint_prefix (m div 128) @ [of_nat (m mod 128) OR 0x80]"
proof -
  have "m \<le> 127 \<longleftrightarrow> m div 128 = 0" by auto
  then show ?thesis
    unfolding varint_prefix_def by (subst varint_digits.simps) (auto simp: varint_digits_pos [of "Suc (Suc 0)"])
qed

lemma ReadVarInt_prefix:
  assumes "a \<le> maxI"
  shows "ReadVarInt_loop maxI 0 (varint_prefix a @ s) = ReadVarInt_loop maxI a s"
  using assms
proof (induction a arbitrary: s rule: less_induct)
  case (less a)
  show ?case
  proof (cases a)
    case (Suc m)
    have "m div 128 < a" "m div 128 \<le> maxI" using Suc less.prems by (auto intro: le_less_trans [OF div_le_dividend] le_trans [OF div_le_dividend])
    from less.IH [OF this] show ?thesis
      using Suc less.prems unat_digit [of "m mod 128" True] div_le_mono [of m maxI 128]
      by (auto simp: varint_prefix_Suc low7 top_bit Let_def)
  qed (simp add: varint_prefix_def)
qed

lemma ReadVarInt_Write: "n \<le> maxI \<Longrightarrow> ReadVarInt maxI (WriteVarInt n @ r) = Some (n, r)"
proof -
  assume n: "n \<le> maxI"
  then have "n div 128 \<le> maxI" by (meson div_le_dividend le_trans)
  moreover have "\<not> 128 \<le> n mod 128" by simp
  ultimately show ?thesis
    using n unat_digit [of "n mod 128" False] div_le_mono [OF n, of 128] ReadVarInt_prefix [of "n div 128" maxI "[of_nat (n mod 128)] @ r"]
    by (simp add: ReadVarInt_def WriteVarInt_snoc low7 top_bit [of "of_nat (n mod 128)"] Let_def)
qed

lemma ReadVarInt_loop_Cons:
  "ReadVarInt_loop maxI a (ch # s) =
     (if a > maxI div 128 then None
      else if 128 \<le> unat ch
      then if a * 128 + unat ch mod 128 = maxI then None else ReadVarInt_loop maxI (Suc (a * 128 + unat ch mod 128)) s
      else Some (a * 128 + unat ch mod 128, s))"
  by (simp add: low7 top_bit Let_def)

lemma varint_prefix_digit:
  assumes "128 \<le> unat ch"
  shows "varint_prefix (Suc (a * 128 + unat ch mod 128)) = varint_prefix a @ [ch]"
proof -
  have c: "unat ch = unat ch mod 128 + 128"
    using assms unat_less_2p [of ch] le_mod_geq [of 128 "unat ch"] by simp
  have "unat (of_nat (unat ch mod 128) OR (0x80 :: uint8)) = unat ch mod 128 + 128"
    using unat_digit [of "unat ch mod 128" True] by simp
  then have "of_nat (unat ch mod 128) OR 0x80 = ch" using c by (intro digit_eqI) linarith
  then show ?thesis using varint_prefix_Suc [of "a * 128 + unat ch mod 128"] by simp
qed

lemma ReadVarInt_loop_Some:
  assumes m: "maxI mod 128 = 127"
  shows "ReadVarInt_loop maxI a s = Some (n, r) \<Longrightarrow> n \<le> maxI \<and> varint_prefix a @ s = WriteVarInt n @ r"
proof (induction s arbitrary: a)
  case (Cons ch s)
  have a: "a \<le> maxI div 128" using Cons.prems by (auto simp: ReadVarInt_loop_Cons simp del: ReadVarInt_loop.simps split: if_splits)
  show ?case
  proof (cases "128 \<le> unat ch")
    case True
    then have "ReadVarInt_loop maxI (Suc (a * 128 + unat ch mod 128)) s = Some (n, r)"
      using Cons.prems a by (auto simp: ReadVarInt_loop_Cons simp del: ReadVarInt_loop.simps split: if_splits)
    from Cons.IH [OF this] show ?thesis unfolding varint_prefix_digit [OF True] by simp
  next
    case False
    then have n: "n = a * 128 + unat ch" "r = s"
      using Cons.prems a by (auto simp: ReadVarInt_loop_Cons simp del: ReadVarInt_loop.simps split: if_splits)
    have "n div 128 = a" "n mod 128 = unat ch" using False n(1) by simp_all
    moreover have "of_nat (unat ch) = ch" by simp
    moreover have "n \<le> maxI"
      using a n(1) False m mult_div_mod_eq [of 128 maxI] by linarith
    ultimately show ?thesis using n(2) by (simp add: WriteVarInt_snoc)
  qed
qed simp

lemma ReadVarInt_Some: "maxI mod 128 = 127 \<Longrightarrow> ReadVarInt maxI s = Some (n, r) \<Longrightarrow> n \<le> maxI \<and> s = WriteVarInt n @ r"
  using ReadVarInt_loop_Some [of maxI 0 s n r] by (simp add: ReadVarInt_def varint_prefix_def)

lemma varint_canonical: "maxI mod 128 = 127 \<Longrightarrow> canonical_codec WriteVarInt (ReadVarInt maxI) (\<lambda>n. n \<le> maxI)"
  by unfold_locales (blast intro: ReadVarInt_Write dest: ReadVarInt_Some)+

definition max_uint32 :: nat where "max_uint32 = 0xFFFFFFFF"

definition max_uint64 :: nat where "max_uint64 = 0xFFFFFFFFFFFFFFFF"

interpretation varint32: canonical_codec WriteVarInt "ReadVarInt max_uint32" "\<lambda>n. n \<le> max_uint32"
  by (rule varint_canonical) (simp add: max_uint32_def)

interpretation varint64: canonical_codec WriteVarInt "ReadVarInt max_uint64" "\<lambda>n. n \<le> max_uint64"
  by (rule varint_canonical) (simp add: max_uint64_def)

lemma length_varint_digits: "length (varint_digits l n) = GetSizeOfVarInt n"
proof (induction l n rule: varint_digits.induct)
  case (1 l n)
  then show ?case by (subst varint_digits.simps, subst GetSizeOfVarInt.simps) simp
qed

lemma length_WriteVarInt: "length (WriteVarInt n) = GetSizeOfVarInt n"
  by (simp add: WriteVarInt_def length_varint_digits)

section \<open>Byte vectors and vectors\<close>

lemma length_WriteCompactSize: "length (WriteCompactSize n) = GetSizeOfCompactSize n"
  by (simp add: WriteCompactSize_def GetSizeOfCompactSize_def ser_writedata8_def ser_writedata16_def ser_writedata32_def
    ser_writedata64_def)

lemma read_blocks_eq: "read_blocks n s = stream_read n s"
proof (induction n s rule: read_blocks.induct)
  case (1 n s)
  show ?case
  proof (cases "n = 0")
    case False
    let ?b = "min n 5000000"
    have b: "?b \<le> n" by simp
    show ?thesis
    proof (cases "?b \<le> length s")
      case True
      then have r: "stream_read ?b s = Some (take ?b s, drop ?b s)" by (simp add: stream_read_def)
      have "read_blocks n s = do { (q, is) \<leftarrow> read_blocks (n - ?b) (drop ?b s); Some (take ?b s @ q, is) }"
        using False by (subst read_blocks.simps) (simp add: r Let_def)
      also have "read_blocks (n - ?b) (drop ?b s) = stream_read (n - ?b) (drop ?b s)"
        by (rule 1 [OF False refl r refl])
      also have "do { (q, is) \<leftarrow> stream_read (n - ?b) (drop ?b s); Some (take ?b s @ q, is) } = stream_read n s"
        using b True by (auto simp: stream_read_def take_add [symmetric] le_diff_conv)
      finally show ?thesis .
    next
      case F: False
      then have "stream_read ?b s = None" "stream_read n s = None" using b by (simp_all add: stream_read_def)
      then show ?thesis using False by (subst read_blocks.simps) (simp add: Let_def)
    qed
  qed (simp add: read_blocks.simps stream_read_def)
qed

interpretation byte_vector: canonical_codec Serialize_bytes Unserialize_bytes "\<lambda>v. length v \<le> MAX_SIZE"
proof
  show "Unserialize_bytes (Serialize_bytes v @ r) = Some (v, r)" if "length v \<le> MAX_SIZE" for v r
    using that by (simp add: Unserialize_bytes_def Serialize_bytes_def compact_size.unser_ser read_blocks_eq)
  show "length v \<le> MAX_SIZE \<and> s = Serialize_bytes v @ r" if u: "Unserialize_bytes s = Some (v, r)" for s v r
  proof -
    obtain n s' where n: "ReadCompactSize s = Some (n, s')" "stream_read n s' = Some (v, r)"
      using u by (auto simp: Unserialize_bytes_def bind_eq_Some_conv read_blocks_eq)
    then show ?thesis using compact_size.ser_unser [OF n(1)] by (auto simp: stream_read_Some Serialize_bytes_def)
  qed
qed

text \<open>A vector over a codec is a codec.\<close>

context codec
begin

lemma vector_unser_ser:
  "length xs \<le> MAX_SIZE \<and> (\<forall>x\<in>set xs. valid x) \<Longrightarrow> Unserialize_vector unser (Serialize_vector ser xs @ r) = Some (xs, r)"
  by (simp add: Unserialize_vector_def Serialize_vector_def compact_size.unser_ser items_unser_ser)

lemma vector_codec: "codec (Serialize_vector ser) (Unserialize_vector unser) (\<lambda>xs. length xs \<le> MAX_SIZE \<and> (\<forall>x\<in>set xs. valid x))"
  by unfold_locales (rule vector_unser_ser)

end

context canonical_codec
begin

lemma vector_ser_unser:
  assumes "Unserialize_vector unser s = Some (xs, r)"
  shows "(length xs \<le> MAX_SIZE \<and> (\<forall>x\<in>set xs. valid x)) \<and> s = Serialize_vector ser xs @ r"
proof -
  obtain n s' where n: "ReadCompactSize s = Some (n, s')" "read_items unser n s' = Some (xs, r)"
    using assms by (auto simp: Unserialize_vector_def bind_eq_Some_conv)
  then show ?thesis
    using compact_size.ser_unser [OF n(1)] items_ser_unser [OF n(2)] by (auto simp: Serialize_vector_def)
qed

lemma vector_canonical:
  "canonical_codec (Serialize_vector ser) (Unserialize_vector unser) (\<lambda>xs. length xs \<le> MAX_SIZE \<and> (\<forall>x\<in>set xs. valid x))"
  by unfold_locales (rule vector_unser_ser vector_ser_unser; simp)+

lemma reads_iff: "unser s = Some (x, r) \<longleftrightarrow> valid x \<and> s = ser x @ r"
  using ser_unser unser_ser by blast

end

interpretation byte_vectors: canonical_codec "Serialize_vector Serialize_bytes" "Unserialize_vector Unserialize_bytes"
    "\<lambda>xs. length xs \<le> MAX_SIZE \<and> (\<forall>x\<in>set xs. length x \<le> MAX_SIZE)"
  by (rule byte_vector.vector_canonical)

text \<open>
  C31.  The readers of sizes, variable-length integers, byte vectors and vectors of them succeed on exactly the
  bytes their writers produce for a value in range, followed by anything: non-minimal sizes, sizes above
  \<open>MAX_SIZE\<close>, integers that overflow the type and truncated data are rejected.  The size functions give the
  length of what is written.
\<close>
theorem wire_format_canonical:
  "(ReadCompactSize s = Some (n, r) \<longleftrightarrow> n \<le> MAX_SIZE \<and> s = WriteCompactSize n @ r) \<and>
   (ReadVarInt max_uint64 s = Some (n, r) \<longleftrightarrow> n \<le> max_uint64 \<and> s = WriteVarInt n @ r) \<and>
   (Unserialize_bytes s = Some (v, r) \<longleftrightarrow> length v \<le> MAX_SIZE \<and> s = Serialize_bytes v @ r) \<and>
   (Unserialize_vector Unserialize_bytes s = Some (vs, r) \<longleftrightarrow>
      (length vs \<le> MAX_SIZE \<and> list_all (\<lambda>v. length v \<le> MAX_SIZE) vs) \<and> s = Serialize_vector Serialize_bytes vs @ r) \<and>
   length (WriteCompactSize n) = GetSizeOfCompactSize n \<and> length (WriteVarInt n) = GetSizeOfVarInt n"
  by (simp only: compact_size.reads_iff varint64.reads_iff byte_vector.reads_iff byte_vectors.reads_iff list_all_iff
    length_WriteCompactSize length_WriteVarInt simp_thms)

end
