(* ===== verification/Script.thy ===== *)
theory Script
  imports VarInts
begin

text \<open>
  Scripts and script numbers, src/src/script/script.h and script.cpp.  A \<open>CScript\<close> is its bytes; an iterator \<open>pc\<close>
  into a script is the list of the bytes from it to the end, so \<open>end() - pc\<close> is the length of the list.
  Scripts are shorter than 2^32 bytes, as everything the node reads is, so the conversions of sizes to
  \<open>unsigned int\<close> keep their values.  An opcode is the number of its byte.

  Shown here: the encoding of numbers is a bijection onto the minimal byte strings, what \<open>operator<<\<close> pushes
  \<open>GetOp\<close> reads back, every loop over the operations ends, and what \<open>FindAndDelete\<close> removes.
\<close>

section \<open>Opcodes\<close>

type_synonym opcodetype = nat

abbreviation (input) OP_0 :: nat where "OP_0 \<equiv> 0x0"
abbreviation (input) OP_FALSE :: nat where "OP_FALSE \<equiv> 0x0"
abbreviation (input) OP_PUSHDATA1 :: nat where "OP_PUSHDATA1 \<equiv> 0x4c"
abbreviation (input) OP_PUSHDATA2 :: nat where "OP_PUSHDATA2 \<equiv> 0x4d"
abbreviation (input) OP_PUSHDATA4 :: nat where "OP_PUSHDATA4 \<equiv> 0x4e"
abbreviation (input) OP_1NEGATE :: nat where "OP_1NEGATE \<equiv> 0x4f"
abbreviation (input) OP_RESERVED :: nat where "OP_RESERVED \<equiv> 0x50"
abbreviation (input) OP_1 :: nat where "OP_1 \<equiv> 0x51"
abbreviation (input) OP_TRUE :: nat where "OP_TRUE \<equiv> 0x51"
abbreviation (input) OP_2 :: nat where "OP_2 \<equiv> 0x52"
abbreviation (input) OP_3 :: nat where "OP_3 \<equiv> 0x53"
abbreviation (input) OP_4 :: nat where "OP_4 \<equiv> 0x54"
abbreviation (input) OP_5 :: nat where "OP_5 \<equiv> 0x55"
abbreviation (input) OP_6 :: nat where "OP_6 \<equiv> 0x56"
abbreviation (input) OP_7 :: nat where "OP_7 \<equiv> 0x57"
abbreviation (input) OP_8 :: nat where "OP_8 \<equiv> 0x58"
abbreviation (input) OP_9 :: nat where "OP_9 \<equiv> 0x59"
abbreviation (input) OP_10 :: nat where "OP_10 \<equiv> 0x5a"
abbreviation (input) OP_11 :: nat where "OP_11 \<equiv> 0x5b"
abbreviation (input) OP_12 :: nat where "OP_12 \<equiv> 0x5c"
abbreviation (input) OP_13 :: nat where "OP_13 \<equiv> 0x5d"
abbreviation (input) OP_14 :: nat where "OP_14 \<equiv> 0x5e"
abbreviation (input) OP_15 :: nat where "OP_15 \<equiv> 0x5f"
abbreviation (input) OP_16 :: nat where "OP_16 \<equiv> 0x60"
abbreviation (input) OP_NOP :: nat where "OP_NOP \<equiv> 0x61"
abbreviation (input) OP_VER :: nat where "OP_VER \<equiv> 0x62"
abbreviation (input) OP_IF :: nat where "OP_IF \<equiv> 0x63"
abbreviation (input) OP_NOTIF :: nat where "OP_NOTIF \<equiv> 0x64"
abbreviation (input) OP_VERIF :: nat where "OP_VERIF \<equiv> 0x65"
abbreviation (input) OP_VERNOTIF :: nat where "OP_VERNOTIF \<equiv> 0x66"
abbreviation (input) OP_ELSE :: nat where "OP_ELSE \<equiv> 0x67"
abbreviation (input) OP_ENDIF :: nat where "OP_ENDIF \<equiv> 0x68"
abbreviation (input) OP_VERIFY :: nat where "OP_VERIFY \<equiv> 0x69"
abbreviation (input) OP_RETURN :: nat where "OP_RETURN \<equiv> 0x6a"
abbreviation (input) OP_TOALTSTACK :: nat where "OP_TOALTSTACK \<equiv> 0x6b"
abbreviation (input) OP_FROMALTSTACK :: nat where "OP_FROMALTSTACK \<equiv> 0x6c"
abbreviation (input) OP_2DROP :: nat where "OP_2DROP \<equiv> 0x6d"
abbreviation (input) OP_2DUP :: nat where "OP_2DUP \<equiv> 0x6e"
abbreviation (input) OP_3DUP :: nat where "OP_3DUP \<equiv> 0x6f"
abbreviation (input) OP_2OVER :: nat where "OP_2OVER \<equiv> 0x70"
abbreviation (input) OP_2ROT :: nat where "OP_2ROT \<equiv> 0x71"
abbreviation (input) OP_2SWAP :: nat where "OP_2SWAP \<equiv> 0x72"
abbreviation (input) OP_IFDUP :: nat where "OP_IFDUP \<equiv> 0x73"
abbreviation (input) OP_DEPTH :: nat where "OP_DEPTH \<equiv> 0x74"
abbreviation (input) OP_DROP :: nat where "OP_DROP \<equiv> 0x75"
abbreviation (input) OP_DUP :: nat where "OP_DUP \<equiv> 0x76"
abbreviation (input) OP_NIP :: nat where "OP_NIP \<equiv> 0x77"
abbreviation (input) OP_OVER :: nat where "OP_OVER \<equiv> 0x78"
abbreviation (input) OP_PICK :: nat where "OP_PICK \<equiv> 0x79"
abbreviation (input) OP_ROLL :: nat where "OP_ROLL \<equiv> 0x7a"
abbreviation (input) OP_ROT :: nat where "OP_ROT \<equiv> 0x7b"
abbreviation (input) OP_SWAP :: nat where "OP_SWAP \<equiv> 0x7c"
abbreviation (input) OP_TUCK :: nat where "OP_TUCK \<equiv> 0x7d"
abbreviation (input) OP_CAT :: nat where "OP_CAT \<equiv> 0x7e"
abbreviation (input) OP_SUBSTR :: nat where "OP_SUBSTR \<equiv> 0x7f"
abbreviation (input) OP_LEFT :: nat where "OP_LEFT \<equiv> 0x80"
abbreviation (input) OP_RIGHT :: nat where "OP_RIGHT \<equiv> 0x81"
abbreviation (input) OP_SIZE :: nat where "OP_SIZE \<equiv> 0x82"
abbreviation (input) OP_INVERT :: nat where "OP_INVERT \<equiv> 0x83"
abbreviation (input) OP_AND :: nat where "OP_AND \<equiv> 0x84"
abbreviation (input) OP_OR :: nat where "OP_OR \<equiv> 0x85"
abbreviation (input) OP_XOR :: nat where "OP_XOR \<equiv> 0x86"
abbreviation (input) OP_EQUAL :: nat where "OP_EQUAL \<equiv> 0x87"
abbreviation (input) OP_EQUALVERIFY :: nat where "OP_EQUALVERIFY \<equiv> 0x88"
abbreviation (input) OP_RESERVED1 :: nat where "OP_RESERVED1 \<equiv> 0x89"
abbreviation (input) OP_RESERVED2 :: nat where "OP_RESERVED2 \<equiv> 0x8a"
abbreviation (input) OP_1ADD :: nat where "OP_1ADD \<equiv> 0x8b"
abbreviation (input) OP_1SUB :: nat where "OP_1SUB \<equiv> 0x8c"
abbreviation (input) OP_2MUL :: nat where "OP_2MUL \<equiv> 0x8d"
abbreviation (input) OP_2DIV :: nat where "OP_2DIV \<equiv> 0x8e"
abbreviation (input) OP_NEGATE :: nat where "OP_NEGATE \<equiv> 0x8f"
abbreviation (input) OP_ABS :: nat where "OP_ABS \<equiv> 0x90"
abbreviation (input) OP_NOT :: nat where "OP_NOT \<equiv> 0x91"
abbreviation (input) OP_0NOTEQUAL :: nat where "OP_0NOTEQUAL \<equiv> 0x92"
abbreviation (input) OP_ADD :: nat where "OP_ADD \<equiv> 0x93"
abbreviation (input) OP_SUB :: nat where "OP_SUB \<equiv> 0x94"
abbreviation (input) OP_MUL :: nat where "OP_MUL \<equiv> 0x95"
abbreviation (input) OP_DIV :: nat where "OP_DIV \<equiv> 0x96"
abbreviation (input) OP_MOD :: nat where "OP_MOD \<equiv> 0x97"
abbreviation (input) OP_LSHIFT :: nat where "OP_LSHIFT \<equiv> 0x98"
abbreviation (input) OP_RSHIFT :: nat where "OP_RSHIFT \<equiv> 0x99"
abbreviation (input) OP_BOOLAND :: nat where "OP_BOOLAND \<equiv> 0x9a"
abbreviation (input) OP_BOOLOR :: nat where "OP_BOOLOR \<equiv> 0x9b"
abbreviation (input) OP_NUMEQUAL :: nat where "OP_NUMEQUAL \<equiv> 0x9c"
abbreviation (input) OP_NUMEQUALVERIFY :: nat where "OP_NUMEQUALVERIFY \<equiv> 0x9d"
abbreviation (input) OP_NUMNOTEQUAL :: nat where "OP_NUMNOTEQUAL \<equiv> 0x9e"
abbreviation (input) OP_LESSTHAN :: nat where "OP_LESSTHAN \<equiv> 0x9f"
abbreviation (input) OP_GREATERTHAN :: nat where "OP_GREATERTHAN \<equiv> 0xa0"
abbreviation (input) OP_LESSTHANOREQUAL :: nat where "OP_LESSTHANOREQUAL \<equiv> 0xa1"
abbreviation (input) OP_GREATERTHANOREQUAL :: nat where "OP_GREATERTHANOREQUAL \<equiv> 0xa2"
abbreviation (input) OP_MIN :: nat where "OP_MIN \<equiv> 0xa3"
abbreviation (input) OP_MAX :: nat where "OP_MAX \<equiv> 0xa4"
abbreviation (input) OP_WITHIN :: nat where "OP_WITHIN \<equiv> 0xa5"
abbreviation (input) OP_RIPEMD160 :: nat where "OP_RIPEMD160 \<equiv> 0xa6"
abbreviation (input) OP_SHA1 :: nat where "OP_SHA1 \<equiv> 0xa7"
abbreviation (input) OP_SHA256 :: nat where "OP_SHA256 \<equiv> 0xa8"
abbreviation (input) OP_HASH160 :: nat where "OP_HASH160 \<equiv> 0xa9"
abbreviation (input) OP_HASH256 :: nat where "OP_HASH256 \<equiv> 0xaa"
abbreviation (input) OP_CODESEPARATOR :: nat where "OP_CODESEPARATOR \<equiv> 0xab"
abbreviation (input) OP_CHECKSIG :: nat where "OP_CHECKSIG \<equiv> 0xac"
abbreviation (input) OP_CHECKSIGVERIFY :: nat where "OP_CHECKSIGVERIFY \<equiv> 0xad"
abbreviation (input) OP_CHECKMULTISIG :: nat where "OP_CHECKMULTISIG \<equiv> 0xae"
abbreviation (input) OP_CHECKMULTISIGVERIFY :: nat where "OP_CHECKMULTISIGVERIFY \<equiv> 0xaf"
abbreviation (input) OP_NOP1 :: nat where "OP_NOP1 \<equiv> 0xb0"
abbreviation (input) OP_CHECKLOCKTIMEVERIFY :: nat where "OP_CHECKLOCKTIMEVERIFY \<equiv> 0xb1"
abbreviation (input) OP_NOP2 :: nat where "OP_NOP2 \<equiv> 0xb1"
abbreviation (input) OP_CHECKSEQUENCEVERIFY :: nat where "OP_CHECKSEQUENCEVERIFY \<equiv> 0xb2"
abbreviation (input) OP_NOP3 :: nat where "OP_NOP3 \<equiv> 0xb2"
abbreviation (input) OP_NOP4 :: nat where "OP_NOP4 \<equiv> 0xb3"
abbreviation (input) OP_NOP5 :: nat where "OP_NOP5 \<equiv> 0xb4"
abbreviation (input) OP_NOP6 :: nat where "OP_NOP6 \<equiv> 0xb5"
abbreviation (input) OP_NOP7 :: nat where "OP_NOP7 \<equiv> 0xb6"
abbreviation (input) OP_NOP8 :: nat where "OP_NOP8 \<equiv> 0xb7"
abbreviation (input) OP_NOP9 :: nat where "OP_NOP9 \<equiv> 0xb8"
abbreviation (input) OP_NOP10 :: nat where "OP_NOP10 \<equiv> 0xb9"
abbreviation (input) OP_PHI_ASSET :: nat where "OP_PHI_ASSET \<equiv> 0xc0"
abbreviation (input) OP_SMALLINTEGER :: nat where "OP_SMALLINTEGER \<equiv> 0xfa"
abbreviation (input) OP_PUBKEYS :: nat where "OP_PUBKEYS \<equiv> 0xfb"
abbreviation (input) OP_PUBKEYHASH :: nat where "OP_PUBKEYHASH \<equiv> 0xfd"
abbreviation (input) OP_PUBKEY :: nat where "OP_PUBKEY \<equiv> 0xfe"
abbreviation (input) OP_INVALIDOPCODE :: nat where "OP_INVALIDOPCODE \<equiv> 0xff"

definition MAX_SCRIPT_ELEMENT_SIZE :: nat where "MAX_SCRIPT_ELEMENT_SIZE = 520"

definition MAX_OPS_PER_SCRIPT :: int where "MAX_OPS_PER_SCRIPT = 201"

definition MAX_PUBKEYS_PER_MULTISIG :: int where "MAX_PUBKEYS_PER_MULTISIG = 20"

definition MAX_SCRIPT_SIZE :: nat where "MAX_SCRIPT_SIZE = 10000"

definition MAX_STACK_SIZE :: nat where "MAX_STACK_SIZE = 1000"

definition LOCKTIME_THRESHOLD :: int where "LOCKTIME_THRESHOLD = 500000000"

definition MAX_OPCODE :: nat where "MAX_OPCODE = OP_NOP10"

definition GetOpName :: "nat \<Rightarrow> string" where
  "GetOpName opcode =
     (case map_of [
    (OP_0, ''0''), (OP_PUSHDATA1, ''OP_PUSHDATA1''), (OP_PUSHDATA2, ''OP_PUSHDATA2''),
    (OP_PUSHDATA4, ''OP_PUSHDATA4''), (OP_1NEGATE, ''-1''), (OP_RESERVED, ''OP_RESERVED''),
    (OP_1, ''1''), (OP_2, ''2''), (OP_3, ''3''),
    (OP_4, ''4''), (OP_5, ''5''), (OP_6, ''6''),
    (OP_7, ''7''), (OP_8, ''8''), (OP_9, ''9''),
    (OP_10, ''10''), (OP_11, ''11''), (OP_12, ''12''),
    (OP_13, ''13''), (OP_14, ''14''), (OP_15, ''15''),
    (OP_16, ''16''), (OP_NOP, ''OP_NOP''), (OP_VER, ''OP_VER''),
    (OP_IF, ''OP_IF''), (OP_NOTIF, ''OP_NOTIF''), (OP_VERIF, ''OP_VERIF''),
    (OP_VERNOTIF, ''OP_VERNOTIF''), (OP_ELSE, ''OP_ELSE''), (OP_ENDIF, ''OP_ENDIF''),
    (OP_VERIFY, ''OP_VERIFY''), (OP_RETURN, ''OP_RETURN''), (OP_TOALTSTACK, ''OP_TOALTSTACK''),
    (OP_FROMALTSTACK, ''OP_FROMALTSTACK''), (OP_2DROP, ''OP_2DROP''), (OP_2DUP, ''OP_2DUP''),
    (OP_3DUP, ''OP_3DUP''), (OP_2OVER, ''OP_2OVER''), (OP_2ROT, ''OP_2ROT''),
    (OP_2SWAP, ''OP_2SWAP''), (OP_IFDUP, ''OP_IFDUP''), (OP_DEPTH, ''OP_DEPTH''),
    (OP_DROP, ''OP_DROP''), (OP_DUP, ''OP_DUP''), (OP_NIP, ''OP_NIP''),
    (OP_OVER, ''OP_OVER''), (OP_PICK, ''OP_PICK''), (OP_ROLL, ''OP_ROLL''),
    (OP_ROT, ''OP_ROT''), (OP_SWAP, ''OP_SWAP''), (OP_TUCK, ''OP_TUCK''),
    (OP_CAT, ''OP_CAT''), (OP_SUBSTR, ''OP_SUBSTR''), (OP_LEFT, ''OP_LEFT''),
    (OP_RIGHT, ''OP_RIGHT''), (OP_SIZE, ''OP_SIZE''), (OP_INVERT, ''OP_INVERT''),
    (OP_AND, ''OP_AND''), (OP_OR, ''OP_OR''), (OP_XOR, ''OP_XOR''),
    (OP_EQUAL, ''OP_EQUAL''), (OP_EQUALVERIFY, ''OP_EQUALVERIFY''), (OP_RESERVED1, ''OP_RESERVED1''),
    (OP_RESERVED2, ''OP_RESERVED2''), (OP_1ADD, ''OP_1ADD''), (OP_1SUB, ''OP_1SUB''),
    (OP_2MUL, ''OP_2MUL''), (OP_2DIV, ''OP_2DIV''), (OP_NEGATE, ''OP_NEGATE''),
    (OP_ABS, ''OP_ABS''), (OP_NOT, ''OP_NOT''), (OP_0NOTEQUAL, ''OP_0NOTEQUAL''),
    (OP_ADD, ''OP_ADD''), (OP_SUB, ''OP_SUB''), (OP_MUL, ''OP_MUL''),
    (OP_DIV, ''OP_DIV''), (OP_MOD, ''OP_MOD''), (OP_LSHIFT, ''OP_LSHIFT''),
    (OP_RSHIFT, ''OP_RSHIFT''), (OP_BOOLAND, ''OP_BOOLAND''), (OP_BOOLOR, ''OP_BOOLOR''),
    (OP_NUMEQUAL, ''OP_NUMEQUAL''), (OP_NUMEQUALVERIFY, ''OP_NUMEQUALVERIFY''), (OP_NUMNOTEQUAL, ''OP_NUMNOTEQUAL''),
    (OP_LESSTHAN, ''OP_LESSTHAN''), (OP_GREATERTHAN, ''OP_GREATERTHAN''), (OP_LESSTHANOREQUAL, ''OP_LESSTHANOREQUAL''),
    (OP_GREATERTHANOREQUAL, ''OP_GREATERTHANOREQUAL''), (OP_MIN, ''OP_MIN''), (OP_MAX, ''OP_MAX''),
    (OP_WITHIN, ''OP_WITHIN''), (OP_RIPEMD160, ''OP_RIPEMD160''), (OP_SHA1, ''OP_SHA1''),
    (OP_SHA256, ''OP_SHA256''), (OP_HASH160, ''OP_HASH160''), (OP_HASH256, ''OP_HASH256''),
    (OP_CODESEPARATOR, ''OP_CODESEPARATOR''), (OP_CHECKSIG, ''OP_CHECKSIG''), (OP_CHECKSIGVERIFY, ''OP_CHECKSIGVERIFY''),
    (OP_CHECKMULTISIG, ''OP_CHECKMULTISIG''), (OP_CHECKMULTISIGVERIFY, ''OP_CHECKMULTISIGVERIFY''), (OP_NOP1, ''OP_NOP1''),
    (OP_CHECKLOCKTIMEVERIFY, ''OP_CHECKLOCKTIMEVERIFY''), (OP_CHECKSEQUENCEVERIFY, ''OP_CHECKSEQUENCEVERIFY''), (OP_NOP4, ''OP_NOP4''),
    (OP_NOP5, ''OP_NOP5''), (OP_NOP6, ''OP_NOP6''), (OP_NOP7, ''OP_NOP7''),
    (OP_NOP8, ''OP_NOP8''), (OP_NOP9, ''OP_NOP9''), (OP_NOP10, ''OP_NOP10''),
    (OP_PHI_ASSET, ''OP_PHI_ASSET''), (OP_INVALIDOPCODE, ''OP_INVALIDOPCODE'')] opcode of
       Some s \<Rightarrow> s | None \<Rightarrow> ''OP_UNKNOWN'')"

section \<open>Script numbers\<close>

text \<open>A \<open>CScriptNum\<close> is its value; the constructor from bytes throws where the result is \<^const>\<open>None\<close>.\<close>

definition vch_or :: "bytes \<Rightarrow> int" where
  "vch_or vch = foldl (\<lambda>result i. result OR push_bit (8 * i) (uint (vch ! i))) 0 [0..<length vch]"

definition set_vch :: "bytes \<Rightarrow> int" where
  "set_vch vch =
     (if vch = [] then 0
      else let result = vch_or vch
           in if last vch AND 0x80 \<noteq> 0 then - (result AND NOT (push_bit (8 * (length vch - 1)) 0x80))
              else result)"

definition nDefaultMaxNumSize :: nat where "nDefaultMaxNumSize = 4"

definition CScriptNum_of :: "bytes \<Rightarrow> bool \<Rightarrow> nat \<Rightarrow> int option" where
  "CScriptNum_of vch fRequireMinimal nMaxNumSize =
     (if length vch > nMaxNumSize then None
      else if fRequireMinimal \<and> length vch > 0 \<and> last vch AND 0x7f = 0 \<and>
              (length vch \<le> 1 \<or> (vch ! (length vch - 2)) AND 0x80 = 0)
      then None
      else Some (set_vch vch))"

definition getint :: "int \<Rightarrow> int" where
  "getint m_value =
     (if m_value > 2 ^ 31 - 1 then 2 ^ 31 - 1 else if m_value < - (2 ^ 31) then - (2 ^ 31) else m_value)"

function abs_bytes :: "nat \<Rightarrow> bytes" where
  "abs_bytes absvalue = (if absvalue = 0 then [] else of_nat (absvalue mod 256) # abs_bytes (absvalue div 256))"
  by pat_completeness auto
termination by (relation "measure id") auto

declare abs_bytes.simps [simp del]

definition scriptnum_serialize :: "int \<Rightarrow> bytes" where
  "scriptnum_serialize v =
     (if v = 0 then []
      else let neg = v < 0; result = abs_bytes (nat \<bar>v\<bar>)
           in if last result AND 0x80 \<noteq> 0 then result @ [if neg then 0x80 else 0]
              else if neg then butlast result @ [last result OR 0x80]
              else result)"

section \<open>Building and reading scripts\<close>

text \<open>\<open>operator<<\<close> of a byte vector throws for 2^32 bytes and more.\<close>

definition push_data :: "bytes \<Rightarrow> bytes option" where
  "push_data b =
     (if length b < OP_PUSHDATA1 then Some (of_nat (length b) # b)
      else if length b \<le> 0xff then Some (of_nat OP_PUSHDATA1 # of_nat (length b) # b)
      else if length b \<le> 0xffff then Some (of_nat OP_PUSHDATA2 # WriteLE16 (of_nat (length b)) @ b)
      else if length b \<le> 0xffffffff then Some (of_nat OP_PUSHDATA4 # WriteLE32 (of_nat (length b)) @ b)
      else None)"

definition push_int64 :: "int \<Rightarrow> bytes option" where
  "push_int64 n =
     (if n = -1 \<or> (1 \<le> n \<and> n \<le> 16) then Some [word_of_int (n + (int OP_1 - 1))]
      else if n = 0 then Some [of_nat OP_0]
      else push_data (scriptnum_serialize n))"

text \<open>
  The result of \<open>GetOp2\<close> is the return value, the opcode, the pushed data and the new position, which moves also
  when the call fails.  After \<open>OP_PHI_ASSET\<close> the rest of the script is data.
\<close>

definition push_size :: "opcodetype \<Rightarrow> bytes \<Rightarrow> (nat \<times> bytes) option" where
  "push_size opcode pc =
     (if opcode < OP_PUSHDATA1 then Some (opcode, pc)
      else if opcode = OP_PUSHDATA1 then (if length pc < 1 then None else Some (unat (hd pc), drop 1 pc))
      else if opcode = OP_PUSHDATA2 then (if length pc < 2 then None else Some (unat (ReadLE16 (take 2 pc)), drop 2 pc))
      else (if length pc < 4 then None else Some (unat (ReadLE32 (take 4 pc)), drop 4 pc)))"

definition GetOp2 :: "bytes \<Rightarrow> bool \<times> opcodetype \<times> bytes \<times> bytes" where
  "GetOp2 pc =
     (case pc of
        [] \<Rightarrow> (False, OP_INVALIDOPCODE, [], pc)
      | c # pc \<Rightarrow>
          let opcode = unat c
          in if opcode \<le> OP_PUSHDATA4
             then (case push_size opcode pc of
                     None \<Rightarrow> (False, OP_INVALIDOPCODE, [], pc)
                   | Some (nSize, pc) \<Rightarrow>
                       if length pc < nSize then (False, OP_INVALIDOPCODE, [], pc)
                       else (True, opcode, take nSize pc, drop nSize pc))
             else if opcode = OP_PHI_ASSET then (True, opcode, pc, [])
             else (True, opcode, [], pc))"

definition DecodeOP_N :: "opcodetype \<Rightarrow> int option" where
  "DecodeOP_N opcode =
     (if opcode = OP_0 then Some 0
      else do { assert_opt (opcode \<ge> OP_1 \<and> opcode \<le> OP_16); Some (int opcode - (int OP_1 - 1)) })"

definition EncodeOP_N :: "int \<Rightarrow> opcodetype option" where
  "EncodeOP_N n =
     do { assert_opt (n \<ge> 0 \<and> n \<le> 16); Some (if n = 0 then OP_0 else nat (int OP_1 + n - 1)) }"

lemma push_size_length: "push_size opcode pc = Some (n, pc') \<Longrightarrow> length pc' \<le> length pc"
  by (auto simp: push_size_def split: if_splits)

lemma GetOp2_length: "GetOp2 pc = (True, opcode, v, pc') \<Longrightarrow> length pc' < length pc"
  by (auto simp: GetOp2_def Let_def split: list.splits if_splits option.splits dest!: push_size_length)

subsection \<open>Loops over the operations\<close>

text \<open>The loops stop at the end of the script (\<open>pc < end()\<close>) or at the first operation that cannot be read.\<close>

function sigop_loop :: "bool \<Rightarrow> opcodetype \<Rightarrow> nat \<Rightarrow> bytes \<Rightarrow> nat" where
  "sigop_loop fAccurate lastOpcode n pc =
     (case GetOp2 pc of (ok, opcode, v, pc') \<Rightarrow>
        if pc = [] \<or> \<not> ok then n
        else sigop_loop fAccurate opcode
               (if opcode = OP_CHECKSIG \<or> opcode = OP_CHECKSIGVERIFY then n + 1
                else if opcode = OP_CHECKMULTISIG \<or> opcode = OP_CHECKMULTISIGVERIFY
                then (if fAccurate \<and> lastOpcode \<ge> OP_1 \<and> lastOpcode \<le> OP_16
                      then n + nat (the (DecodeOP_N lastOpcode))
                      else n + nat MAX_PUBKEYS_PER_MULTISIG)
                else n) pc')"
  by pat_completeness auto
termination by (relation "measure (\<lambda>(_, _, _, pc). length pc)") (auto dest: GetOp2_length [OF sym])

definition GetSigOpCount :: "bytes \<Rightarrow> bool \<Rightarrow> nat" where
  "GetSigOpCount script fAccurate = sigop_loop fAccurate OP_INVALIDOPCODE 0 script"

definition IsPayToPublicKeyHash :: "bytes \<Rightarrow> bool" where
  "IsPayToPublicKeyHash s \<longleftrightarrow>
     length s = 25 \<and> unat (s ! 0) = OP_DUP \<and> unat (s ! 1) = OP_HASH160 \<and> s ! 2 = 0x14 \<and>
     unat (s ! 23) = OP_EQUALVERIFY \<and> unat (s ! 24) = OP_CHECKSIG"

definition IsPayToScriptHash :: "bytes \<Rightarrow> bool" where
  "IsPayToScriptHash s \<longleftrightarrow>
     length s = 23 \<and> unat (s ! 0) = OP_HASH160 \<and> s ! 1 = 0x14 \<and> unat (s ! 22) = OP_EQUAL"

definition IsPayToWitnessScriptHash :: "bytes \<Rightarrow> bool" where
  "IsPayToWitnessScriptHash s \<longleftrightarrow> length s = 34 \<and> unat (s ! 0) = OP_0 \<and> s ! 1 = 0x20"

definition IsPayToPublicKey :: "bytes \<Rightarrow> bool" where
  "IsPayToPublicKey s \<longleftrightarrow>
     (if length s = 35 then (s ! 1 = 0x02 \<or> s ! 1 = 0x03) \<and> unat (s ! 34) = OP_CHECKSIG
      else if length s = 67 then s ! 1 = 0x04 \<and> unat (s ! 66) = OP_CHECKSIG
      else False)"

text \<open>The inner option is the return value; the outer one is the assertion of \<open>DecodeOP_N\<close>.\<close>

definition IsWitnessProgram :: "bytes \<Rightarrow> (int \<times> bytes) option option" where
  "IsWitnessProgram s =
     (if length s < 4 \<or> length s > 42 then Some None
      else if unat (s ! 0) \<noteq> OP_0 \<and> (unat (s ! 0) < OP_1 \<or> unat (s ! 0) > OP_16) then Some None
      else if unat (s ! 1) + 2 = length s
      then do { version \<leftarrow> DecodeOP_N (unat (s ! 0)); Some (Some (version, drop 2 s)) }
      else Some None)"

function last_push :: "bytes \<Rightarrow> bytes \<Rightarrow> bytes option" where
  "last_push vData pc =
     (case GetOp2 pc of (ok, opcode, v, pc') \<Rightarrow>
        if pc = [] then Some vData
        else if \<not> ok then None
        else if opcode > OP_16 then None
        else last_push v pc')"
  by pat_completeness auto
termination by (relation "measure (\<lambda>(_, pc). length pc)") (auto dest: GetOp2_length [OF sym])

definition GetSigOpCount_P2SH :: "bytes \<Rightarrow> bytes \<Rightarrow> nat" where
  "GetSigOpCount_P2SH script scriptSig =
     (if \<not> IsPayToScriptHash script then GetSigOpCount script True
      else case last_push [] scriptSig of None \<Rightarrow> 0 | Some vData \<Rightarrow> GetSigOpCount vData True)"

function IsPushOnly :: "bytes \<Rightarrow> bool" where
  "IsPushOnly pc =
     (case GetOp2 pc of (ok, opcode, v, pc') \<Rightarrow>
        if pc = [] then True else if \<not> ok then False else if opcode > OP_16 then False else IsPushOnly pc')"
  by pat_completeness auto
termination by (relation "measure length") (auto dest: GetOp2_length [OF sym])

function HasValidOps :: "bytes \<Rightarrow> bool" where
  "HasValidOps it =
     (case GetOp2 it of (ok, opcode, item, it') \<Rightarrow>
        if it = [] then True
        else if \<not> ok \<or> opcode > MAX_OPCODE \<or> length item > MAX_SCRIPT_ELEMENT_SIZE then False
        else HasValidOps it')"
  by pat_completeness auto
termination by (relation "measure length") (auto dest: GetOp2_length [OF sym])

function Find :: "opcodetype \<Rightarrow> bytes \<Rightarrow> nat" where
  "Find op pc =
     (case GetOp2 pc of (ok, opcode, v, pc') \<Rightarrow>
        if pc = [] \<or> \<not> ok then 0 else (if opcode = op then 1 else 0) + Find op pc')"
  by pat_completeness auto
termination by (relation "measure (length \<circ> snd)") (auto dest: GetOp2_length [OF sym])

declare sigop_loop.simps [simp del] last_push.simps [simp del] IsPushOnly.simps [simp del]
  HasValidOps.simps [simp del] Find.simps [simp del]

text \<open>\<open>FindAndDelete\<close>: \<open>skip_matches\<close> is its inner loop, \<open>delete_loop\<close> the outer one.\<close>

function skip_matches :: "bytes \<Rightarrow> bytes \<Rightarrow> nat \<Rightarrow> bytes \<times> nat" where
  "skip_matches b pc nFound =
     (if b \<noteq> [] \<and> length pc \<ge> length b \<and> take (length b) pc = b
      then skip_matches b (drop (length b) pc) (nFound + 1)
      else (pc, nFound))"
  by pat_completeness auto
termination by (relation "measure (\<lambda>(_, pc, _). length pc)") (auto simp flip: length_greater_0_conv)

declare skip_matches.simps [simp del]

lemma skip_matches_length: "skip_matches b pc n = (pc', n') \<Longrightarrow> length pc' \<le> length pc"
proof (induction b pc n rule: skip_matches.induct)
  case (1 b pc n)
  then show ?case by (subst (asm) (2) skip_matches.simps) (fastforce split: if_splits)
qed

function delete_loop :: "bytes \<Rightarrow> bytes \<Rightarrow> bytes \<Rightarrow> bytes \<Rightarrow> nat \<Rightarrow> bytes \<times> bytes \<times> nat" where
  "delete_loop b result pc2 pc nFound =
     (let result = result @ take (length pc2 - length pc) pc2
      in case skip_matches b pc nFound of (pc', nFound') \<Rightarrow>
           case GetOp2 pc' of (ok, opcode, v, pc'') \<Rightarrow>
             if ok then delete_loop b result pc' pc'' nFound' else (result, pc', nFound'))"
  by pat_completeness auto
termination
  by (relation "measure (\<lambda>(_, _, _, pc, _). length pc)")
    (auto dest!: GetOp2_length [OF sym] skip_matches_length [OF sym])

declare delete_loop.simps [simp del]

definition FindAndDelete :: "bytes \<Rightarrow> bytes \<Rightarrow> bytes \<times> nat" where
  "FindAndDelete script b =
     (if b = [] then (script, 0)
      else let (result, pc2, nFound) = delete_loop b [] script script 0
           in if nFound > 0 then (result @ pc2, nFound) else (script, nFound))"

section \<open>Asset scripts\<close>

text \<open>Reading at or beyond the end of the script is undefined, and \<^const>\<open>None\<close> here.\<close>

definition at_idx :: "bytes \<Rightarrow> nat \<Rightarrow> nat option" where
  "at_idx s i = (if i < length s then Some (unat (s ! i)) else None)"

definition asset_marker :: "bytes \<Rightarrow> nat \<Rightarrow> bool option" where
  "asset_marker s i =
     do { r \<leftarrow> at_idx s i;
          if r \<noteq> 114 then Some False
          else do { v \<leftarrow> at_idx s (i + 1);
                    if v \<noteq> 118 then Some False
                    else do { n \<leftarrow> at_idx s (i + 2); Some (n = 110) } } }"

text \<open>The results are \<open>nType\<close>, \<open>fIsOwner\<close> (the caller's value where it is not assigned) and \<open>nStartingIndex\<close>.\<close>

definition IsAssetScript :: "bytes \<Rightarrow> bool \<Rightarrow> (nat \<times> bool \<times> nat) option option" where
  "IsAssetScript s fIsOwner =
     (if \<not> length s > 31 then Some None
      else if unat (s ! 25) \<noteq> OP_PHI_ASSET then Some None
      else do {
        index \<leftarrow>
          (if unat (s ! 26) < OP_PUSHDATA1
           then do { f \<leftarrow> asset_marker s 27; Some (if f then Some 30 else None) }
           else if unat (s ! 26) = OP_PUSHDATA1
           then do { f \<leftarrow> asset_marker s 28; Some (if f then Some 31 else None) }
           else if unat (s ! 26) = OP_PUSHDATA2
           then do { f \<leftarrow> asset_marker s 29; Some (if f then Some 32 else None) }
           else Some None);
        case index of
          None \<Rightarrow> Some None
        | Some index \<Rightarrow>
            do { c \<leftarrow> at_idx s index;
                 if c = 116 then Some (Some (10, fIsOwner, index + 1))
                 else if c = 113 \<and> length s > 39 then Some (Some (8, False, index + 1))
                 else if c = 111 then Some (Some (8, True, index + 1))
                 else if c = 114 then Some (Some (9, fIsOwner, index + 1))
                 else Some None } })"

definition IsNewAsset :: "bytes \<Rightarrow> bool option" where
  "IsNewAsset s = map_option (\<lambda>r. case r of Some (nType, fIsOwner, _) \<Rightarrow> \<not> fIsOwner \<and> nType = 8 | None \<Rightarrow> False)
     (IsAssetScript s False)"

definition IsOwnerAsset :: "bytes \<Rightarrow> bool option" where
  "IsOwnerAsset s = map_option (\<lambda>r. case r of Some (nType, fIsOwner, _) \<Rightarrow> fIsOwner \<and> nType = 8 | None \<Rightarrow> False)
     (IsAssetScript s False)"

definition IsReissueAsset :: "bytes \<Rightarrow> bool option" where
  "IsReissueAsset s = map_option (\<lambda>r. case r of Some (nType, _, _) \<Rightarrow> nType = 9 | None \<Rightarrow> False) (IsAssetScript s False)"

definition IsTransferAsset :: "bytes \<Rightarrow> bool option" where
  "IsTransferAsset s = map_option (\<lambda>r. case r of Some (nType, _, _) \<Rightarrow> nType = 10 | None \<Rightarrow> False) (IsAssetScript s False)"

definition IsNullAssetTxDataScript :: "bytes \<Rightarrow> bool" where
  "IsNullAssetTxDataScript s \<longleftrightarrow> length s > 23 \<and> unat (s ! 0) = OP_PHI_ASSET \<and> s ! 1 = 0x14"

definition IsNullGlobalRestrictionAssetTxDataScript :: "bytes \<Rightarrow> bool" where
  "IsNullGlobalRestrictionAssetTxDataScript s \<longleftrightarrow>
     length s > 6 \<and> unat (s ! 0) = OP_PHI_ASSET \<and> unat (s ! 1) = OP_RESERVED \<and> unat (s ! 2) = OP_RESERVED"

definition IsNullAssetVerifierTxDataScript :: "bytes \<Rightarrow> bool" where
  "IsNullAssetVerifierTxDataScript s \<longleftrightarrow>
     length s > 3 \<and> unat (s ! 0) = OP_PHI_ASSET \<and> unat (s ! 1) = OP_RESERVED \<and> unat (s ! 2) \<noteq> OP_RESERVED"

definition IsNullAsset :: "bytes \<Rightarrow> bool" where
  "IsNullAsset s \<longleftrightarrow>
     IsNullAssetTxDataScript s \<or> IsNullGlobalRestrictionAssetTxDataScript s \<or> IsNullAssetVerifierTxDataScript s"

section \<open>Numbers\<close>

fun le_val :: "bytes \<Rightarrow> nat" where
  "le_val [] = 0"
| "le_val (b # bs) = unat b + 256 * le_val bs"

lemma le_val_snoc: "le_val (xs @ [x]) = le_val xs + 256 ^ length xs * unat x"
  by (induction xs) (simp_all add: algebra_simps)

lemma le_val_less: "le_val xs < 256 ^ length xs"
proof (induction xs)
  case (Cons x xs)
  have "unat x < 256" using unat_less_2p [of x] by simp
  with Cons show ?case by simp
qed simp

lemma or_push_bit_add: "a < 2 ^ n \<Longrightarrow> int a OR push_bit n b = int a + 2 ^ n * b"
  using concat_bit_eq [of n "int a" b] by (simp add: concat_bit_def take_bit_int_eq_self push_bit_eq_mult mult.commute)

lemma pow256: "(256 :: nat) ^ n = 2 ^ (8 * n)"
  by (simp add: power_mult)

lemma vch_or_snoc: "vch_or (xs @ [x]) = vch_or xs OR push_bit (8 * length xs) (uint x)"
proof -
  have "foldl (\<lambda>r i. r OR push_bit (8 * i) (uint ((xs @ [x]) ! i))) 0 [0..<length xs] =
        foldl (\<lambda>r i. r OR push_bit (8 * i) (uint (xs ! i))) 0 [0..<length xs]"
    by (rule foldl_cong) (simp_all add: nth_append)
  then show ?thesis by (simp add: vch_or_def)
qed

lemma vch_or_eq: "vch_or xs = int (le_val xs)"
proof (induction xs rule: rev_induct)
  case (snoc x xs)
  have "le_val xs < 2 ^ (8 * length xs)" using le_val_less [of xs] by (simp add: pow256)
  from or_push_bit_add [OF this] show ?case
    by (simp add: vch_or_snoc snoc le_val_snoc pow256)
qed (simp add: vch_or_def)

lemma clear_top_bit:
  assumes "a < 2 ^ k" "128 \<le> (x :: nat)" "x < 256"
  shows "int (a + 2 ^ k * x) AND NOT (push_bit k 0x80) = int (a + 2 ^ k * (x - 128))"
proof -
  have x: "x = (x - 128) + 2 ^ 7 * 1" using assms by simp
  have e: "int (a + 2 ^ k * x) = int (a + 2 ^ k * (x - 128)) + 2 ^ (k + 7) * 1"
    by (subst x) (simp add: power_add algebra_simps)
  have b: "a + 2 ^ k * (x - 128) < 2 ^ (k + 7)"
  proof -
    have "a + 2 ^ k * (x - 128) < 2 ^ k * Suc (x - 128)" using assms(1) by simp
    also have "\<dots> \<le> 2 ^ k * 2 ^ 7" using assms by (intro mult_le_mono2) simp
    finally show ?thesis by (simp add: power_add)
  qed
  have n: "push_bit k (0x80 :: int) = push_bit (k + 7) 1" by (simp add: push_bit_eq_mult power_add)
  let ?y = "int (a + 2 ^ k * (x - 128))"
  have y: "\<not> bit ?y (k + 7)"
    using b by (metis bit_take_bit_iff less_irrefl of_nat_0_le_iff of_nat_less_numeral_power_cancel_iff take_bit_int_eq_self)
  have "int (a + 2 ^ k * x) = ?y OR push_bit (k + 7) 1"
    unfolding e using or_push_bit_add [OF b, of 1] by simp
  also have "\<dots> AND NOT (push_bit k 0x80) = ?y"
    unfolding n by (rule bit_eqI) (use y in \<open>auto simp: bit_simps\<close>)
  finally show ?thesis .
qed

lemma set_vch_snoc:
  "set_vch (xs @ [x]) =
     (if 128 \<le> unat x then - int (le_val xs + 256 ^ length xs * (unat x - 128)) else int (le_val xs + 256 ^ length xs * unat x))"
proof -
  have "le_val xs < 2 ^ (8 * length xs)" using le_val_less [of xs] by (simp add: pow256)
  from clear_top_bit [OF this, of "unat x"] show ?thesis
    using unat_less_2p [of x] by (auto simp: set_vch_def top_bit vch_or_eq le_val_snoc pow256)
qed

lemma le_val_abs_bytes: "le_val (abs_bytes n) = n"
proof (induction n rule: abs_bytes.induct)
  case (1 n)
  have "unat (of_nat (n mod 256) :: uint8) = n mod 256" by (rule unat_of_nat_lt) simp
  with 1 show ?case by (subst abs_bytes.simps) simp
qed

lemma abs_bytes_last: "0 < n \<Longrightarrow> abs_bytes n \<noteq> [] \<and> last (abs_bytes n) \<noteq> 0"
proof (induction n rule: abs_bytes.induct)
  case (1 n)
  show ?case
  proof (cases "n < 256")
    case True
    then have "unat (of_nat n :: uint8) = n" by (intro unat_of_nat_lt) simp
    then have "(of_nat n :: uint8) \<noteq> 0" using 1(2) by (metis less_irrefl unat_0)
    then show ?thesis using True 1(2) abs_bytes.simps [of n] abs_bytes.simps [of 0] by simp
  next
    case False
    then have "0 < n div 256" by (simp add: div_greater_zero_iff)
    with 1(1) 1(2) show ?thesis by (subst (1 2) abs_bytes.simps) simp
  qed
qed

lemma abs_bytes_le_val: "bs = [] \<or> last bs \<noteq> 0 \<Longrightarrow> abs_bytes (le_val bs) = bs"
proof (induction bs)
  case (Cons b bs)
  have b: "unat b < 256" using unat_less_2p [of b] by simp
  have "le_val (b # bs) \<noteq> 0"
  proof (cases "bs = []")
    case True then show ?thesis using Cons.prems by (simp add: unat_eq_0)
  next
    case False
    then have "bs = butlast bs @ [last bs]" "unat (last bs) \<noteq> 0" using Cons.prems by (simp_all add: unat_eq_0)
    then have "le_val bs \<noteq> 0" using le_val_snoc [of "butlast bs" "last bs"] by simp
    then show ?thesis by simp
  qed
  moreover have "abs_bytes (le_val bs) = bs" using Cons by (cases "bs = []") simp_all
  ultimately show ?case using b by (subst abs_bytes.simps) simp
qed (simp add: abs_bytes.simps)

text \<open>The byte strings that are accepted as minimal.\<close>

definition minimal_num :: "bytes \<Rightarrow> bool" where
  "minimal_num vch \<longleftrightarrow>
     vch = [] \<or> unat (last vch) mod 128 \<noteq> 0 \<or> (butlast vch \<noteq> [] \<and> 128 \<le> unat (last (butlast vch)))"

lemma CScriptNum_of_minimal:
  "CScriptNum_of vch True n = (if length vch \<le> n \<and> minimal_num vch then Some (set_vch vch) else None)"
proof (cases vch rule: rev_cases)
  case (snoc xs x)
  have m: "x AND 0x7f = 0 \<longleftrightarrow> unat x mod 128 = 0" using low7 [of x] by (simp flip: unat_eq_0)
  show ?thesis
  proof (cases xs rule: rev_cases)
    case (snoc ys y)
    have t: "y AND 0x80 = 0 \<longleftrightarrow> \<not> 128 \<le> unat y" using top_bit [of y] by blast
    show ?thesis unfolding CScriptNum_of_def minimal_num_def \<open>vch = xs @ [x]\<close> snoc by (simp add: m t nth_append butlast_append)
  qed (simp add: CScriptNum_of_def minimal_num_def snoc m)
qed (simp add: CScriptNum_of_def minimal_num_def)

lemma set_vch_serialize: "set_vch (scriptnum_serialize v) = v"
proof (cases "v = 0")
  case False
  let ?r = "abs_bytes (nat \<bar>v\<bar>)"
  obtain xs x where r: "?r = xs @ [x]" "x \<noteq> 0"
    using abs_bytes_last [of "nat \<bar>v\<bar>"] False by (metis append_butlast_last_id zero_less_abs_iff zero_less_nat_eq)
  have val: "le_val xs + 256 ^ length xs * unat x = nat \<bar>v\<bar>"
    using le_val_abs_bytes [of "nat \<bar>v\<bar>"] by (simp add: r le_val_snoc)
  show ?thesis
  proof (cases "128 \<le> unat x")
    case True
    then show ?thesis
      using False r val set_vch_snoc [of ?r 0] set_vch_snoc [of ?r "0x80"]
      by (auto simp: scriptnum_serialize_def Let_def top_bit le_val_snoc)
  next
    case F: False
    have "unat (x OR 0x80) = unat x + 128"
      using unat_digit [of "unat x" True] F by simp
    then show ?thesis
      using False F r val set_vch_snoc [of xs x] set_vch_snoc [of xs "x OR 0x80"]
      by (auto simp: scriptnum_serialize_def Let_def top_bit)
  qed
qed (simp add: scriptnum_serialize_def set_vch_def)

lemma serialize_minimal: "minimal_num (scriptnum_serialize v)"
proof (cases "v = 0")
  case False
  let ?r = "abs_bytes (nat \<bar>v\<bar>)"
  obtain xs x where r: "?r = xs @ [x]" "x \<noteq> 0"
    using abs_bytes_last [of "nat \<bar>v\<bar>"] False by (metis append_butlast_last_id zero_less_abs_iff zero_less_nat_eq)
  show ?thesis
  proof (cases "128 \<le> unat x")
    case True
    then show ?thesis using False r by (auto simp: scriptnum_serialize_def Let_def top_bit minimal_num_def butlast_append)
  next
    case F: False
    have "unat x \<noteq> 0" using r(2) by (simp add: unat_eq_0)
    moreover have "unat (x OR 0x80) = unat x + 128"
      using unat_digit [of "unat x" True] F by simp
    ultimately show ?thesis using False F r by (auto simp: scriptnum_serialize_def Let_def top_bit minimal_num_def)
  qed
qed (simp add: scriptnum_serialize_def minimal_num_def)

lemma serialize_set_vch:
  assumes "minimal_num vch"
  shows "scriptnum_serialize (set_vch vch) = vch"
proof (cases vch rule: rev_cases)
  case (snoc xs x)
  define y where "y = unat x mod 128"
  have ux: "unat x = y + (if 128 \<le> unat x then 128 else 0)" and y: "y < 128"
    using unat_less_2p [of x] le_mod_geq [of 128 "unat x"] by (auto simp: y_def)
  define M where "M = le_val xs + 256 ^ length xs * y"
  have set: "set_vch vch = (if 128 \<le> unat x then - int M else int M)"
  proof (cases "128 \<le> unat x")
    case True
    then have "unat x - 128 = y" using ux by simp
    with True show ?thesis unfolding snoc set_vch_snoc M_def by (simp only: if_True)
  next
    case False
    then have "unat x = y" using ux by simp
    with False show ?thesis unfolding snoc set_vch_snoc M_def by (simp only: if_False)
  qed
  show ?thesis
  proof (cases "y = 0")
    case False
    have uy: "unat (of_nat y :: uint8) = y" using y by (intro unat_of_nat_lt) simp
    have "(of_nat y :: uint8) \<noteq> 0" using uy False by (metis unat_0)
    then have M: "abs_bytes M = xs @ [of_nat y]"
      using abs_bytes_le_val [of "xs @ [of_nat y]"] by (simp add: le_val_snoc M_def uy)
    have "M \<noteq> 0" using False by (simp add: M_def)
    moreover have "of_nat y OR 0x80 = x" if "128 \<le> unat x"
      using that ux unat_digit [OF y, of True] by (intro digit_eqI) simp
    moreover have "of_nat y = x" if "\<not> 128 \<le> unat x"
      using that ux uy by (intro digit_eqI) simp
    ultimately have "scriptnum_serialize (if 128 \<le> unat x then - int M else int M) = xs @ [x]"
      using M y uy by (auto simp: scriptnum_serialize_def Let_def top_bit)
    then show ?thesis unfolding set by (simp only: snoc)
  next
    case True
    then obtain ys z where xs: "xs = ys @ [z]" "128 \<le> unat z"
      using assms snoc by (cases xs rule: rev_cases) (auto simp: minimal_num_def y_def butlast_append)
    have "z \<noteq> 0" using xs(2) by auto
    then have M: "abs_bytes M = xs" using abs_bytes_le_val [of xs] xs True by (simp add: M_def)
    have "M \<noteq> 0" using xs True by (simp add: M_def le_val_snoc)
    moreover have "x = 0x80" if "128 \<le> unat x" using that ux True by (intro digit_eqI) simp
    moreover have "x = 0" if "\<not> 128 \<le> unat x" using that ux True by (intro digit_eqI) simp
    ultimately have "scriptnum_serialize (if 128 \<le> unat x then - int M else int M) = xs @ [x]"
      using M xs by (auto simp: scriptnum_serialize_def Let_def top_bit)
    then show ?thesis unfolding set by (simp only: snoc)
  qed
qed (simp add: set_vch_def scriptnum_serialize_def)

lemma set_vch_bound: "2 * \<bar>set_vch vch\<bar> < 2 ^ (8 * length vch)"
proof (cases vch rule: rev_cases)
  case (snoc xs x)
  define y where "y = (if 128 \<le> unat x then unat x - 128 else unat x)"
  have "unat x < 256" using unat_less_2p [of x] by simp
  then have y: "y \<le> 127" unfolding y_def by (cases "128 \<le> unat x") (simp_all add: le_diff_conv)
  have "\<bar>set_vch vch\<bar> = int (le_val xs + 256 ^ length xs * y)"
    unfolding snoc set_vch_snoc y_def
    by (cases "128 \<le> unat x") (simp_all only: if_True if_False abs_minus_cancel abs_of_nat)
  moreover have "2 * (le_val xs + 256 ^ length xs * y) < 256 ^ length vch"
  proof -
    have "le_val xs + 256 ^ length xs * y < 256 ^ length xs * Suc y" using le_val_less [of xs] by simp
    also have "\<dots> \<le> 256 ^ length xs * 128" using y by (intro mult_le_mono2) simp
    finally show ?thesis using snoc by simp
  qed
  then have "int (2 * (le_val xs + 256 ^ length xs * y)) < int (256 ^ length vch)" by (simp only: of_nat_less_iff)
  ultimately show ?thesis by (simp add: power_mult)
qed (simp add: set_vch_def)

lemma CScriptNum_of_Some: "CScriptNum_of vch m n = Some v \<Longrightarrow> v = set_vch vch \<and> length vch \<le> n"
  by (auto simp: CScriptNum_of_def split: if_splits)

lemma CScriptNum_of_bound: "CScriptNum_of vch m n = Some v \<Longrightarrow> 2 * \<bar>v\<bar> < 2 ^ (8 * n)"
proof -
  assume "CScriptNum_of vch m n = Some v"
  then have v: "v = set_vch vch" "length vch \<le> n" using CScriptNum_of_Some by blast+
  then have "(2 :: int) ^ (8 * length vch) \<le> 2 ^ (8 * n)" by (intro power_increasing) simp_all
  with set_vch_bound [of vch] show ?thesis unfolding v(1) by (rule less_le_trans)
qed

lemma length_abs_bytes: "n < 256 ^ k \<Longrightarrow> length (abs_bytes n) \<le> k"
proof (induction k arbitrary: n)
  case (Suc k)
  have "n div 256 < 256 ^ k" using Suc.prems by (intro less_mult_imp_div_less) (simp add: mult.commute)
  from Suc.IH [OF this] show ?case by (subst abs_bytes.simps) simp
qed (simp add: abs_bytes.simps)

lemma length_scriptnum_serialize: "nat \<bar>v\<bar> < 256 ^ k \<Longrightarrow> length (scriptnum_serialize v) \<le> Suc k"
  using length_abs_bytes [of "nat \<bar>v\<bar>" k] abs_bytes_last [of "nat \<bar>v\<bar>"]
  by (auto simp: scriptnum_serialize_def Let_def)

section \<open>Reading what was pushed\<close>

lemma GetOp2_push:
  assumes "push_data b = Some p"
  shows "\<exists>op. op \<le> OP_PUSHDATA4 \<and> GetOp2 (p @ r) = (True, op, b, r)"
proof -
  consider "length b < 76" | "76 \<le> length b" "length b \<le> 255" | "255 < length b" "length b \<le> 65535"
    | "65535 < length b" "length b \<le> 0xffffffff"
    using assms by (force simp: push_data_def split: if_splits)
  then show ?thesis
  proof cases
    case 1
    then have "unat (of_nat (length b) :: uint8) = length b" by (intro unat_of_nat_lt) simp
    with 1 assms show ?thesis by (auto simp: push_data_def GetOp2_def push_size_def)
  next
    case 2
    then have "unat (of_nat (length b) :: uint8) = length b" by (intro unat_of_nat_lt) simp
    with 2 assms show ?thesis by (auto simp: push_data_def GetOp2_def push_size_def)
  next
    case 3
    then have "unat (of_nat (length b) :: uint16) = length b" by (intro unat_of_nat_lt) simp
    with 3 assms show ?thesis by (auto simp: push_data_def GetOp2_def push_size_def LE16.dec_enc)
  next
    case 4
    then have "unat (of_nat (length b) :: uint32) = length b" by (intro unat_of_nat_lt) simp
    with 4 assms show ?thesis by (auto simp: push_data_def GetOp2_def push_size_def LE32.dec_enc)
  qed
qed

text \<open>A script that pushes the given data items, as \<open>CScript() << x << y\<close> builds it.\<close>

fun push_all :: "bytes list \<Rightarrow> bytes option" where
  "push_all [] = Some []"
| "push_all (b # bs) = do { p \<leftarrow> push_data b; q \<leftarrow> push_all bs; Some (p @ q) }"

lemma push_data_nonempty: "push_data b = Some p \<Longrightarrow> p \<noteq> []"
  by (auto simp: push_data_def split: if_splits)

lemma push_data_total: "length b < 2 ^ 32 \<Longrightarrow> \<exists>p. push_data b = Some p"
  by (simp add: push_data_def)

lemma push_all_total: "\<forall>b\<in>set bs. length b < 2 ^ 32 \<Longrightarrow> \<exists>p. push_all bs = Some p"
  by (induction bs) (auto simp: bind_eq_Some_conv push_data_def)

lemma IsPushOnly_push_all: "push_all bs = Some s \<Longrightarrow> IsPushOnly s"
proof (induction bs arbitrary: s)
  case Nil
  then show ?case by (simp add: IsPushOnly.simps [of "[]"] GetOp2_def)
next
  case (Cons b bs)
  then obtain p q where pq: "push_data b = Some p" "push_all bs = Some q" "s = p @ q"
    by (auto simp: bind_eq_Some_conv)
  from GetOp2_push [OF pq(1), of q] obtain op where "op \<le> OP_PUSHDATA4" "GetOp2 s = (True, op, b, q)"
    unfolding pq(3) by blast
  with Cons.IH [OF pq(2)] show ?case by (subst IsPushOnly.simps) simp
qed

lemma last_push_push_all: "push_all bs = Some s \<Longrightarrow> last_push v s = Some (if bs = [] then v else last bs)"
proof (induction bs arbitrary: s v)
  case Nil
  then show ?case by (simp add: last_push.simps [of v "[]"] GetOp2_def)
next
  case (Cons b bs)
  then obtain p q where pq: "push_data b = Some p" "push_all bs = Some q" "s = p @ q"
    by (auto simp: bind_eq_Some_conv)
  from GetOp2_push [OF pq(1), of q] obtain op where "op \<le> OP_PUSHDATA4" "GetOp2 s = (True, op, b, q)"
    unfolding pq(3) by blast
  moreover have "s \<noteq> []" using pq push_data_nonempty by simp
  ultimately show ?case using Cons.IH [OF pq(2), of b] by (subst last_push.simps) simp
qed

section \<open>Deleting\<close>

lemma skip_matches_count:
  "skip_matches b pc n = (pc', n') \<Longrightarrow> \<exists>k. n' = n + k \<and> pc = concat (replicate k b) @ pc'"
proof (induction b pc n rule: skip_matches.induct)
  case (1 b pc n)
  show ?case
  proof (cases "b \<noteq> [] \<and> length pc \<ge> length b \<and> take (length b) pc = b")
    case True
    then have "skip_matches b (drop (length b) pc) (n + 1) = (pc', n')"
      using 1(2) by (subst (asm) skip_matches.simps) simp
    from 1(1) [OF True this] obtain k
      where "n' = n + 1 + k" "drop (length b) pc = concat (replicate k b) @ pc'" by blast
    then show ?thesis
      using True append_take_drop_id [of "length b" pc] by (intro exI [of _ "Suc k"]) simp
  next
    case False
    then show ?thesis using 1(2) by (subst (asm) skip_matches.simps) auto
  qed
qed

lemma delete_loop_length:
  assumes "delete_loop b result pc2 pc n = (result', pc2', n')" "length pc \<le> length pc2"
  shows "n \<le> n' \<and> length result' + length pc2' + (n' - n) * length b = length result + length pc2"
  using assms
proof (induction b result pc2 pc n rule: delete_loop.induct)
  case (1 b result pc2 pc n)
  obtain pc1 n1 where s: "skip_matches b pc n = (pc1, n1)" by fastforce
  obtain ok op v pc3 where g: "GetOp2 pc1 = (ok, op, v, pc3)" by (metis prod_cases4)
  obtain k where k: "n1 = n + k" "pc = concat (replicate k b) @ pc1" using skip_matches_count [OF s] by blast
  have len: "length pc = k * length b + length pc1" using k(2) by (simp add: length_concat sum_list_replicate)
  show ?case
  proof (cases ok)
    case True
    have "length pc3 \<le> length pc1" using g True GetOp2_length by fastforce
    moreover have "delete_loop b (result @ take (length pc2 - length pc) pc2) pc1 pc3 n1 = (result', pc2', n')"
      using 1(2) True s g by (subst (asm) delete_loop.simps) simp
    ultimately have e: "n1 \<le> n' \<and> length result' + length pc2' + (n' - n1) * length b =
        length (result @ take (length pc2 - length pc) pc2) + length pc1"
      using 1(1) [OF refl s [symmetric] g [symmetric] refl refl True] by simp
    then obtain m where "n' = n + k + m" using k(1) le_iff_add by auto
    then show ?thesis using e 1(3) len k(1) by (simp add: add_mult_distrib)
  next
    case False
    then show ?thesis using 1(2,3) s g len k(1) by (subst (asm) delete_loop.simps) auto
  qed
qed

lemma FindAndDelete_length: "FindAndDelete s b = (s', n) \<Longrightarrow> length s' + n * length b = length s \<and> (n = 0 \<longrightarrow> s' = s)"
  using delete_loop_length [of b "[]" s s 0]
  by (auto simp: FindAndDelete_def Let_def split: if_splits prod.splits)

section \<open>Asset scripts\<close>

lemma asset_marker_total: "i + 2 < length s \<Longrightarrow> asset_marker s i = Some (unat (s ! i) = 114 \<and> unat (s ! (i + 1)) = 118 \<and> unat (s ! (i + 2)) = 110)"
  by (simp add: asset_marker_def at_idx_def)

lemma IsAssetScript_None:
  "IsAssetScript s f = None \<longleftrightarrow>
     length s = 32 \<and> unat (s ! 25) = OP_PHI_ASSET \<and> unat (s ! 26) = OP_PUSHDATA2 \<and>
     unat (s ! 29) = 114 \<and> unat (s ! 30) = 118 \<and> unat (s ! 31) = 110"
  by (auto simp: IsAssetScript_def asset_marker_total at_idx_def split: if_splits)

section \<open>Properties\<close>


text \<open>
  A script built by pushing byte vectors below 2^32 bytes exists, is push-only, and the last item read from it is
  the last one pushed, so the subscript that is counted for pay-to-script-hash is the one that was pushed.
\<close>
theorem pushed_data_is_read_back:
  assumes "\<forall>b\<in>set bs. length b < 2 ^ 32"
  shows "\<exists>s. push_all bs = Some s \<and> IsPushOnly s \<and> last_push [] s = Some (if bs = [] then [] else last bs) \<and>
    (IsPayToScriptHash script \<longrightarrow> GetSigOpCount_P2SH script s = GetSigOpCount (if bs = [] then [] else last bs) True)"
  using push_all_total [OF assms] IsPushOnly_push_all last_push_push_all
  by (fastforce simp: GetSigOpCount_P2SH_def)

theorem pushed_data_is_read_back_witness:
  "\<exists>s. push_all [[1, 2], [0xac]] = Some s \<and> IsPushOnly s \<and> last_push [] s = Some [0xac]"
  using pushed_data_is_read_back [of "[[1, 2], [0xac]]" "[]"] by auto

text \<open>
  C33.  \<open>IsAssetScript\<close> reads only bytes of the script, except for scripts of exactly 32 bytes that carry the asset
  marker after an \<open>OP_PUSHDATA2\<close>: there it reads the byte after the end.
\<close>
theorem asset_script_out_of_range:
  "IsAssetScript s f = None \<longleftrightarrow>
     length s = 32 \<and> unat (s ! 25) = OP_PHI_ASSET \<and> unat (s ! 26) = OP_PUSHDATA2 \<and>
     unat (s ! 29) = 114 \<and> unat (s ! 30) = 118 \<and> unat (s ! 31) = 110"
  by (rule IsAssetScript_None)

text \<open>
  \<open>FindAndDelete\<close> removes as many copies of a script as it reports, and changes nothing when it finds none.
\<close>
theorem find_and_delete_removes:
  "FindAndDelete s b = (s', n) \<Longrightarrow> length s' + n * length b = length s \<and> (n = 0 \<longrightarrow> s' = s)"
  by (rule FindAndDelete_length)

theorem find_and_delete_removes_witness:
  "FindAndDelete [0x51, 0xab, 0x52, 0xab] [0xab] = ([0x51, 0x52], 2) \<and> length [0x51, 0x52 :: uint8] + 2 * length [0xab :: uint8] = 4"
proof -
  have e: "FindAndDelete [0x51, 0xab, 0x52, 0xab] [0xab] = ([0x51, 0x52], 2)"
    by (simp add: FindAndDelete_def delete_loop.simps skip_matches.simps GetOp2_def)
  from find_and_delete_removes [OF this] e show ?thesis by simp
qed

end
