(* ===== verification/Interpreter.thy ===== *)
theory Interpreter
  imports Script
begin

text \<open>
  The script interpreter, src/src/script/interpreter.h and interpreter.cpp.  A stack is a list with its top first, so
  \<open>stacktop(-i)\<close> is the element \<open>i - 1\<close> and \<open>push_back\<close> is Cons; \<open>vfExec\<close> has its innermost entry first.
  An operation returns a script error (\<open>Inl\<close>) or the new state (\<open>Inr\<close>); exceptions are caught by \<open>EvalScript\<close>, which
  returns \<open>SCRIPT_ERR_UNKNOWN_ERROR\<close> for them, so they are that error here.  A failed \<open>assert\<close> is the
  outer \<^const>\<open>None\<close>.

  The signature checker is the record of the virtual functions of \<open>BaseSignatureChecker\<close>; \<open>CPubKey::CheckLowS\<close>,
  which calls the elliptic-curve library, is an argument.
\<close>

section \<open>Errors, flags and the checker\<close>

datatype ScriptError =
    SCRIPT_ERR_OK | SCRIPT_ERR_UNKNOWN_ERROR | SCRIPT_ERR_EVAL_FALSE
  | SCRIPT_ERR_OP_RETURN | SCRIPT_ERR_SCRIPT_SIZE | SCRIPT_ERR_PUSH_SIZE
  | SCRIPT_ERR_OP_COUNT | SCRIPT_ERR_STACK_SIZE | SCRIPT_ERR_SIG_COUNT
  | SCRIPT_ERR_PUBKEY_COUNT | SCRIPT_ERR_VERIFY | SCRIPT_ERR_EQUALVERIFY
  | SCRIPT_ERR_CHECKMULTISIGVERIFY | SCRIPT_ERR_CHECKSIGVERIFY | SCRIPT_ERR_NUMEQUALVERIFY
  | SCRIPT_ERR_BAD_OPCODE | SCRIPT_ERR_DISABLED_OPCODE | SCRIPT_ERR_INVALID_STACK_OPERATION
  | SCRIPT_ERR_INVALID_ALTSTACK_OPERATION | SCRIPT_ERR_UNBALANCED_CONDITIONAL | SCRIPT_ERR_NEGATIVE_LOCKTIME
  | SCRIPT_ERR_UNSATISFIED_LOCKTIME | SCRIPT_ERR_SIG_HASHTYPE | SCRIPT_ERR_SIG_DER
  | SCRIPT_ERR_MINIMALDATA | SCRIPT_ERR_SIG_PUSHONLY | SCRIPT_ERR_SIG_HIGH_S
  | SCRIPT_ERR_SIG_NULLDUMMY | SCRIPT_ERR_PUBKEYTYPE | SCRIPT_ERR_CLEANSTACK
  | SCRIPT_ERR_MINIMALIF | SCRIPT_ERR_SIG_NULLFAIL | SCRIPT_ERR_DISCOURAGE_UPGRADABLE_NOPS
  | SCRIPT_ERR_DISCOURAGE_UPGRADABLE_WITNESS_PROGRAM | SCRIPT_ERR_WITNESS_PROGRAM_WRONG_LENGTH | SCRIPT_ERR_WITNESS_PROGRAM_WITNESS_EMPTY
  | SCRIPT_ERR_WITNESS_PROGRAM_MISMATCH | SCRIPT_ERR_WITNESS_MALLEATED | SCRIPT_ERR_WITNESS_MALLEATED_P2SH
  | SCRIPT_ERR_WITNESS_UNEXPECTED | SCRIPT_ERR_WITNESS_PUBKEYTYPE

abbreviation (input) SCRIPT_VERIFY_P2SH :: uint32 where "SCRIPT_VERIFY_P2SH \<equiv> 0x1"
abbreviation (input) SCRIPT_VERIFY_STRICTENC :: uint32 where "SCRIPT_VERIFY_STRICTENC \<equiv> 0x2"
abbreviation (input) SCRIPT_VERIFY_DERSIG :: uint32 where "SCRIPT_VERIFY_DERSIG \<equiv> 0x4"
abbreviation (input) SCRIPT_VERIFY_LOW_S :: uint32 where "SCRIPT_VERIFY_LOW_S \<equiv> 0x8"
abbreviation (input) SCRIPT_VERIFY_NULLDUMMY :: uint32 where "SCRIPT_VERIFY_NULLDUMMY \<equiv> 0x10"
abbreviation (input) SCRIPT_VERIFY_SIGPUSHONLY :: uint32 where "SCRIPT_VERIFY_SIGPUSHONLY \<equiv> 0x20"
abbreviation (input) SCRIPT_VERIFY_MINIMALDATA :: uint32 where "SCRIPT_VERIFY_MINIMALDATA \<equiv> 0x40"
abbreviation (input) SCRIPT_VERIFY_DISCOURAGE_UPGRADABLE_NOPS :: uint32 where "SCRIPT_VERIFY_DISCOURAGE_UPGRADABLE_NOPS \<equiv> 0x80"
abbreviation (input) SCRIPT_VERIFY_CLEANSTACK :: uint32 where "SCRIPT_VERIFY_CLEANSTACK \<equiv> 0x100"
abbreviation (input) SCRIPT_VERIFY_CHECKLOCKTIMEVERIFY :: uint32 where "SCRIPT_VERIFY_CHECKLOCKTIMEVERIFY \<equiv> 0x200"
abbreviation (input) SCRIPT_VERIFY_CHECKSEQUENCEVERIFY :: uint32 where "SCRIPT_VERIFY_CHECKSEQUENCEVERIFY \<equiv> 0x400"
abbreviation (input) SCRIPT_VERIFY_WITNESS :: uint32 where "SCRIPT_VERIFY_WITNESS \<equiv> 0x800"
abbreviation (input) SCRIPT_VERIFY_DISCOURAGE_UPGRADABLE_WITNESS_PROGRAM :: uint32 where "SCRIPT_VERIFY_DISCOURAGE_UPGRADABLE_WITNESS_PROGRAM \<equiv> 0x1000"
abbreviation (input) SCRIPT_VERIFY_MINIMALIF :: uint32 where "SCRIPT_VERIFY_MINIMALIF \<equiv> 0x2000"
abbreviation (input) SCRIPT_VERIFY_NULLFAIL :: uint32 where "SCRIPT_VERIFY_NULLFAIL \<equiv> 0x4000"
abbreviation (input) SCRIPT_VERIFY_WITNESS_PUBKEYTYPE :: uint32 where "SCRIPT_VERIFY_WITNESS_PUBKEYTYPE \<equiv> 0x8000"

definition has_flag :: "uint32 \<Rightarrow> uint32 \<Rightarrow> bool" where
  "has_flag flags f \<longleftrightarrow> flags AND f \<noteq> 0"

datatype SigVersion = SIGVERSION_BASE | SIGVERSION_WITNESS_V0

record BaseSignatureChecker =
  CheckSig :: "bytes \<Rightarrow> bytes \<Rightarrow> bytes \<Rightarrow> SigVersion \<Rightarrow> bool"
  CheckLockTime :: "int \<Rightarrow> bool"
  CheckSequence :: "int \<Rightarrow> bool"

text \<open>The functions of the base class itself.\<close>

definition base_checker :: BaseSignatureChecker where
  "base_checker = \<lparr>CheckSig = (\<lambda>_ _ _ _. False), CheckLockTime = (\<lambda>_. False), CheckSequence = (\<lambda>_. False)\<rparr>"

type_synonym valtype = bytes

type_synonym stack = "valtype list"

text \<open>The arguments of \<open>EvalScript\<close> that do not change.\<close>

record eval_env =
  flags :: uint32
  checker :: BaseSignatureChecker
  sigversion :: SigVersion
  CheckLowS :: "bytes \<Rightarrow> bool"

section \<open>Encodings\<close>

fun CastToBool :: "valtype \<Rightarrow> bool" where
  "CastToBool [] = False"
| "CastToBool (b # vch) = (if b \<noteq> 0 then \<not> (vch = [] \<and> b = 0x80) else CastToBool vch)"

definition IsCompressedOrUncompressedPubKey :: "valtype \<Rightarrow> bool" where
  "IsCompressedOrUncompressedPubKey vchPubKey =
     (if length vchPubKey < 33 then False
      else if vchPubKey ! 0 = 0x04 then length vchPubKey = 65
      else if vchPubKey ! 0 = 0x02 \<or> vchPubKey ! 0 = 0x03 then length vchPubKey = 33
      else False)"

definition IsCompressedPubKey :: "valtype \<Rightarrow> bool" where
  "IsCompressedPubKey vchPubKey =
     (if length vchPubKey \<noteq> 33 then False
      else if vchPubKey ! 0 \<noteq> 0x02 \<and> vchPubKey ! 0 \<noteq> 0x03 then False
      else True)"

definition IsValidSignatureEncoding :: "bytes \<Rightarrow> bool" where
  "IsValidSignatureEncoding sig =
     (if length sig < 9 then False
      else if length sig > 73 then False
      else if sig ! 0 \<noteq> 0x30 then False
      else if unat (sig ! 1) \<noteq> length sig - 3 then False
      else let lenR = unat (sig ! 3)
      in if 5 + lenR \<ge> length sig then False
      else let lenS = unat (sig ! (5 + lenR))
      in if lenR + lenS + 7 \<noteq> length sig then False
      else if sig ! 2 \<noteq> 0x02 then False
      else if lenR = 0 then False
      else if sig ! 4 AND 0x80 \<noteq> 0 then False
      else if lenR > 1 \<and> sig ! 4 = 0 \<and> \<not> (sig ! 5 AND 0x80 \<noteq> 0) then False
      else if sig ! (lenR + 4) \<noteq> 0x02 then False
      else if lenS = 0 then False
      else if sig ! (lenR + 6) AND 0x80 \<noteq> 0 then False
      else if lenS > 1 \<and> sig ! (lenR + 6) = 0 \<and> \<not> (sig ! (lenR + 7) AND 0x80 \<noteq> 0) then False
      else True)"

text \<open>The checks return the error they set, or \<^const>\<open>None\<close> when they return true.\<close>

definition IsLowDERSignature :: "(bytes \<Rightarrow> bool) \<Rightarrow> valtype \<Rightarrow> ScriptError option" where
  "IsLowDERSignature lowS vchSig =
     (if \<not> IsValidSignatureEncoding vchSig then Some SCRIPT_ERR_SIG_DER
      else if \<not> lowS (butlast vchSig) then Some SCRIPT_ERR_SIG_HIGH_S
      else None)"

definition IsDefinedHashtypeSignature :: "valtype \<Rightarrow> bool" where
  "IsDefinedHashtypeSignature vchSig =
     (if length vchSig = 0 then False
      else let nHashType = last vchSig AND NOT 0x80
           in \<not> (nHashType < 1 \<or> nHashType > 3))"

definition CheckSignatureEncoding :: "eval_env \<Rightarrow> bytes \<Rightarrow> ScriptError option" where
  "CheckSignatureEncoding env vchSig =
     (if length vchSig = 0 then None
      else if has_flag (flags env) (SCRIPT_VERIFY_DERSIG OR SCRIPT_VERIFY_LOW_S OR SCRIPT_VERIFY_STRICTENC) \<and>
              \<not> IsValidSignatureEncoding vchSig then Some SCRIPT_ERR_SIG_DER
      else if has_flag (flags env) SCRIPT_VERIFY_LOW_S \<and> IsLowDERSignature (CheckLowS env) vchSig \<noteq> None
      then IsLowDERSignature (CheckLowS env) vchSig
      else if has_flag (flags env) SCRIPT_VERIFY_STRICTENC \<and> \<not> IsDefinedHashtypeSignature vchSig
      then Some SCRIPT_ERR_SIG_HASHTYPE
      else None)"

definition CheckPubKeyEncoding :: "eval_env \<Rightarrow> valtype \<Rightarrow> ScriptError option" where
  "CheckPubKeyEncoding env vchPubKey =
     (if has_flag (flags env) SCRIPT_VERIFY_STRICTENC \<and> \<not> IsCompressedOrUncompressedPubKey vchPubKey
      then Some SCRIPT_ERR_PUBKEYTYPE
      else if has_flag (flags env) SCRIPT_VERIFY_WITNESS_PUBKEYTYPE \<and> sigversion env = SIGVERSION_WITNESS_V0 \<and>
              \<not> IsCompressedPubKey vchPubKey then Some SCRIPT_ERR_WITNESS_PUBKEYTYPE
      else None)"

definition CheckMinimalPush :: "valtype \<Rightarrow> opcodetype \<Rightarrow> bool" where
  "CheckMinimalPush data opcode =
     (if length data = 0 then opcode = OP_0
      else if length data = 1 \<and> data ! 0 \<ge> 1 \<and> data ! 0 \<le> 16 then opcode = OP_1 + (unat (data ! 0) - 1)
      else if length data = 1 \<and> data ! 0 = 0x81 then opcode = OP_1NEGATE
      else if length data \<le> 75 then opcode = length data
      else if length data \<le> 255 then opcode = OP_PUSHDATA1
      else if length data \<le> 65535 then opcode = OP_PUSHDATA2
      else True)"

section \<open>Operations on the stack\<close>

type_synonym stack_op = "stack \<Rightarrow> ScriptError + stack"

definition vchFalse :: valtype where "vchFalse = []"

definition vchTrue :: valtype where "vchTrue = [1]"

abbreviation (input) invalid_stack :: "ScriptError + 'a" where
  "invalid_stack \<equiv> Inl SCRIPT_ERR_INVALID_STACK_OPERATION"

definition op_push_number :: "opcodetype \<Rightarrow> stack_op" where
  "op_push_number opcode st = Inr (scriptnum_serialize (int opcode - (int OP_1 - 1)) # st)"

fun op_verify :: stack_op where
  "op_verify [] = invalid_stack"
| "op_verify (x # st) = (if CastToBool x then Inr st else Inl SCRIPT_ERR_VERIFY)"

fun op_2drop :: stack_op where
  "op_2drop (x2 # x1 # st) = Inr st"
| "op_2drop _ = invalid_stack"

fun op_2dup :: stack_op where
  "op_2dup (x2 # x1 # st) = Inr (x2 # x1 # x2 # x1 # st)"
| "op_2dup _ = invalid_stack"

fun op_3dup :: stack_op where
  "op_3dup (x3 # x2 # x1 # st) = Inr (x3 # x2 # x1 # x3 # x2 # x1 # st)"
| "op_3dup _ = invalid_stack"

fun op_2over :: stack_op where
  "op_2over (x4 # x3 # x2 # x1 # st) = Inr (x2 # x1 # x4 # x3 # x2 # x1 # st)"
| "op_2over _ = invalid_stack"

fun op_2rot :: stack_op where
  "op_2rot (x6 # x5 # x4 # x3 # x2 # x1 # st) = Inr (x2 # x1 # x6 # x5 # x4 # x3 # st)"
| "op_2rot _ = invalid_stack"

fun op_2swap :: stack_op where
  "op_2swap (x4 # x3 # x2 # x1 # st) = Inr (x2 # x1 # x4 # x3 # st)"
| "op_2swap _ = invalid_stack"

fun op_ifdup :: stack_op where
  "op_ifdup [] = invalid_stack"
| "op_ifdup (x # st) = Inr (if CastToBool x then x # x # st else x # st)"

definition op_depth :: stack_op where
  "op_depth st = Inr (scriptnum_serialize (int (length st)) # st)"

fun op_drop :: stack_op where
  "op_drop [] = invalid_stack"
| "op_drop (x # st) = Inr st"

fun op_dup :: stack_op where
  "op_dup [] = invalid_stack"
| "op_dup (x # st) = Inr (x # x # st)"

fun op_nip :: stack_op where
  "op_nip (x2 # x1 # st) = Inr (x2 # st)"
| "op_nip _ = invalid_stack"

fun op_over :: stack_op where
  "op_over (x2 # x1 # st) = Inr (x1 # x2 # x1 # st)"
| "op_over _ = invalid_stack"

fun op_pick_roll :: "bool \<Rightarrow> bool \<Rightarrow> stack_op" where
  "op_pick_roll fRequireMinimal roll (x # y # ys) =
     (let st = y # ys
      in case CScriptNum_of x fRequireMinimal nDefaultMaxNumSize of
           None \<Rightarrow> Inl SCRIPT_ERR_UNKNOWN_ERROR
         | Some bn \<Rightarrow>
             let n = getint bn
             in if n < 0 \<or> n \<ge> int (length st) then invalid_stack
                else let vch = st ! nat n
                     in Inr (vch # (if roll then take (nat n) st @ drop (Suc (nat n)) st else st)))"
| "op_pick_roll fRequireMinimal roll _ = invalid_stack"

fun op_rot :: stack_op where
  "op_rot (x3 # x2 # x1 # st) = Inr (x1 # x3 # x2 # st)"
| "op_rot _ = invalid_stack"

fun op_swap :: stack_op where
  "op_swap (x2 # x1 # st) = Inr (x1 # x2 # st)"
| "op_swap _ = invalid_stack"

fun op_tuck :: stack_op where
  "op_tuck (x2 # x1 # st) = Inr (x2 # x1 # x2 # st)"
| "op_tuck _ = invalid_stack"

fun op_size :: stack_op where
  "op_size [] = invalid_stack"
| "op_size (x # st) = Inr (scriptnum_serialize (int (length x)) # x # st)"

fun op_equal :: "bool \<Rightarrow> stack_op" where
  "op_equal verify (x2 # x1 # st) =
     (let fEqual = (x1 = x2)
      in if verify then (if fEqual then Inr st else Inl SCRIPT_ERR_EQUALVERIFY)
         else Inr ((if fEqual then vchTrue else vchFalse) # st))"
| "op_equal verify _ = invalid_stack"

text \<open>
  The numeric operations.  \<open>operator+=\<close>, \<open>operator-=\<close> and unary minus of \<open>CScriptNum\<close> assert that 64 bits suffice;
  a failed assertion is \<^const>\<open>None\<close>.
\<close>

definition CScriptNum_add :: "int \<Rightarrow> int \<Rightarrow> int option" where
  "CScriptNum_add v rhs =
     do { assert_opt (rhs = 0 \<or> (rhs > 0 \<and> v \<le> (2 ^ 63 - 1) - rhs) \<or> (rhs < 0 \<and> v \<ge> - (2 ^ 63) - rhs)); Some (v + rhs) }"

definition CScriptNum_sub :: "int \<Rightarrow> int \<Rightarrow> int option" where
  "CScriptNum_sub v rhs =
     do { assert_opt (rhs = 0 \<or> (rhs > 0 \<and> v \<ge> - (2 ^ 63) + rhs) \<or> (rhs < 0 \<and> v \<le> (2 ^ 63 - 1) + rhs)); Some (v - rhs) }"

definition CScriptNum_neg :: "int \<Rightarrow> int option" where
  "CScriptNum_neg v = do { assert_opt (v \<noteq> - (2 ^ 63)); Some (- v) }"

definition unary_num :: "opcodetype \<Rightarrow> int \<Rightarrow> int option" where
  "unary_num opcode bn =
     (if opcode = OP_1ADD then CScriptNum_add bn 1
      else if opcode = OP_1SUB then CScriptNum_sub bn 1
      else if opcode = OP_NEGATE then CScriptNum_neg bn
      else if opcode = OP_ABS then (if bn < 0 then CScriptNum_neg bn else Some bn)
      else if opcode = OP_NOT then Some (of_bool (bn = 0))
      else if opcode = OP_0NOTEQUAL then Some (of_bool (bn \<noteq> 0))
      else None)"

definition binary_num :: "opcodetype \<Rightarrow> int \<Rightarrow> int \<Rightarrow> int option" where
  "binary_num opcode bn1 bn2 =
     (if opcode = OP_ADD then Some (bn1 + bn2)
      else if opcode = OP_SUB then Some (bn1 - bn2)
      else if opcode = OP_BOOLAND then Some (of_bool (bn1 \<noteq> 0 \<and> bn2 \<noteq> 0))
      else if opcode = OP_BOOLOR then Some (of_bool (bn1 \<noteq> 0 \<or> bn2 \<noteq> 0))
      else if opcode = OP_NUMEQUAL then Some (of_bool (bn1 = bn2))
      else if opcode = OP_NUMEQUALVERIFY then Some (of_bool (bn1 = bn2))
      else if opcode = OP_NUMNOTEQUAL then Some (of_bool (bn1 \<noteq> bn2))
      else if opcode = OP_LESSTHAN then Some (of_bool (bn1 < bn2))
      else if opcode = OP_GREATERTHAN then Some (of_bool (bn1 > bn2))
      else if opcode = OP_LESSTHANOREQUAL then Some (of_bool (bn1 \<le> bn2))
      else if opcode = OP_GREATERTHANOREQUAL then Some (of_bool (bn1 \<ge> bn2))
      else if opcode = OP_MIN then Some (if bn1 < bn2 then bn1 else bn2)
      else if opcode = OP_MAX then Some (if bn1 > bn2 then bn1 else bn2)
      else None)"

fun op_unary :: "bool \<Rightarrow> opcodetype \<Rightarrow> stack \<Rightarrow> (ScriptError + stack) option" where
  "op_unary fRequireMinimal opcode [] = Some invalid_stack"
| "op_unary fRequireMinimal opcode (x # st) =
     (case CScriptNum_of x fRequireMinimal nDefaultMaxNumSize of
        None \<Rightarrow> Some (Inl SCRIPT_ERR_UNKNOWN_ERROR)
      | Some bn \<Rightarrow> do { r \<leftarrow> unary_num opcode bn; Some (Inr (scriptnum_serialize r # st)) })"

fun op_binary :: "bool \<Rightarrow> opcodetype \<Rightarrow> stack \<Rightarrow> (ScriptError + stack) option" where
  "op_binary fRequireMinimal opcode (x2 # x1 # st) =
     (case (CScriptNum_of x1 fRequireMinimal nDefaultMaxNumSize, CScriptNum_of x2 fRequireMinimal nDefaultMaxNumSize) of
        (Some bn1, Some bn2) \<Rightarrow>
          do { bn \<leftarrow> binary_num opcode bn1 bn2;
               let vch = scriptnum_serialize bn
               in Some (if opcode = OP_NUMEQUALVERIFY
                        then (if CastToBool vch then Inr st else Inl SCRIPT_ERR_NUMEQUALVERIFY)
                        else Inr (vch # st)) }
      | _ \<Rightarrow> Some (Inl SCRIPT_ERR_UNKNOWN_ERROR))"
| "op_binary fRequireMinimal opcode _ = Some invalid_stack"

fun op_within :: "bool \<Rightarrow> stack_op" where
  "op_within fRequireMinimal (x3 # x2 # x1 # st) =
     (case (CScriptNum_of x1 fRequireMinimal nDefaultMaxNumSize, CScriptNum_of x2 fRequireMinimal nDefaultMaxNumSize,
            CScriptNum_of x3 fRequireMinimal nDefaultMaxNumSize) of
        (Some bn1, Some bn2, Some bn3) \<Rightarrow> Inr ((if bn2 \<le> bn1 \<and> bn1 < bn3 then vchTrue else vchFalse) # st)
      | _ \<Rightarrow> Inl SCRIPT_ERR_UNKNOWN_ERROR)"
| "op_within fRequireMinimal _ = invalid_stack"

fun op_hash :: "opcodetype \<Rightarrow> stack_op" where
  "op_hash opcode [] = invalid_stack"
| "op_hash opcode (vch # st) =
     Inr ((if opcode = OP_RIPEMD160 then fst (CRIPEMD160_Finalize (CRIPEMD160_Write CRIPEMD160_new vch))
           else if opcode = OP_SHA1 then fst (CSHA1_Finalize (CSHA1_Write CSHA1_new vch))
           else if opcode = OP_SHA256 then fst (CSHA256_Finalize (CSHA256_Write CSHA256_new vch))
           else if opcode = OP_HASH160 then fst (CHash160_Finalize (CSHA256_Write CSHA256_new vch))
           else fst (CHash256_Finalize (CHash256_Write CSHA256_new vch))) # st)"

section \<open>Signature operations\<close>

text \<open>The part of the script that is signed: in pre-segwit scripts the signature itself is dropped from it.\<close>

definition drop_signature :: "SigVersion \<Rightarrow> bytes \<Rightarrow> bytes \<Rightarrow> bytes option" where
  "drop_signature ver scriptCode vchSig =
     (if ver = SIGVERSION_BASE
      then (case push_data vchSig of None \<Rightarrow> None | Some b \<Rightarrow> Some (fst (FindAndDelete scriptCode b)))
      else Some scriptCode)"

fun op_checksig :: "eval_env \<Rightarrow> bytes \<Rightarrow> bool \<Rightarrow> stack_op" where
  "op_checksig env pbegincodehash verify (vchPubKey # vchSig # st) =
     (case drop_signature (sigversion env) pbegincodehash vchSig of
        None \<Rightarrow> Inl SCRIPT_ERR_UNKNOWN_ERROR
      | Some scriptCode \<Rightarrow>
          (case CheckSignatureEncoding env vchSig of
             Some e \<Rightarrow> Inl e
           | None \<Rightarrow>
               (case CheckPubKeyEncoding env vchPubKey of
                  Some e \<Rightarrow> Inl e
                | None \<Rightarrow>
                    let fSuccess = CheckSig (checker env) vchSig vchPubKey scriptCode (sigversion env)
                    in if \<not> fSuccess \<and> has_flag (flags env) SCRIPT_VERIFY_NULLFAIL \<and> length vchSig \<noteq> 0
                       then Inl SCRIPT_ERR_SIG_NULLFAIL
                       else if verify then (if fSuccess then Inr st else Inl SCRIPT_ERR_CHECKSIGVERIFY)
                       else Inr ((if fSuccess then vchTrue else vchFalse) # st))))"
| "op_checksig env pbegincodehash verify _ = invalid_stack"

definition stacktop :: "stack \<Rightarrow> int \<Rightarrow> valtype option" where
  "stacktop st i = (if 1 \<le> i \<and> i \<le> int (length st) then Some (st ! nat (i - 1)) else None)"

text \<open>\<open>stacktop st i\<close> is \<open>stacktop(-i)\<close>; \<open>at\<close> throws out of range.\<close>

fun drop_signatures :: "SigVersion \<Rightarrow> stack \<Rightarrow> int \<Rightarrow> nat \<Rightarrow> bytes \<Rightarrow> bytes option" where
  "drop_signatures ver st isig 0 scriptCode = Some scriptCode"
| "drop_signatures ver st isig (Suc k) scriptCode =
     do { vchSig \<leftarrow> stacktop st isig;
          scriptCode \<leftarrow> drop_signature ver scriptCode vchSig;
          drop_signatures ver st (isig + 1) k scriptCode }"

function multisig_loop :: "eval_env \<Rightarrow> bytes \<Rightarrow> stack \<Rightarrow> int \<Rightarrow> int \<Rightarrow> int \<Rightarrow> int \<Rightarrow> ScriptError + bool" where
  "multisig_loop env scriptCode st isig ikey nSigsCount nKeysCount =
     (if \<not> nSigsCount > 0 then Inr True
      else (case (stacktop st isig, stacktop st ikey) of
              (Some vchSig, Some vchPubKey) \<Rightarrow>
                (case CheckSignatureEncoding env vchSig of
                   Some e \<Rightarrow> Inl e
                 | None \<Rightarrow>
                     (case CheckPubKeyEncoding env vchPubKey of
                        Some e \<Rightarrow> Inl e
                      | None \<Rightarrow>
                          let fOk = CheckSig (checker env) vchSig vchPubKey scriptCode (sigversion env);
                              isig' = (if fOk then isig + 1 else isig);
                              nSigsCount' = (if fOk then nSigsCount - 1 else nSigsCount)
                          in if nSigsCount' > nKeysCount - 1 then Inr False
                             else multisig_loop env scriptCode st isig' (ikey + 1) nSigsCount' (nKeysCount - 1)))
            | _ \<Rightarrow> Inl SCRIPT_ERR_UNKNOWN_ERROR))"
  by pat_completeness auto
termination by (relation "measure (\<lambda>(_, _, _, _, _, _, nKeys). nat nKeys)") (auto split: if_splits)

declare multisig_loop.simps [simp del]

fun multisig_clean :: "eval_env \<Rightarrow> bool \<Rightarrow> nat \<Rightarrow> nat \<Rightarrow> stack_op" where
  "multisig_clean env fSuccess 0 ikey2 st = Inr st"
| "multisig_clean env fSuccess (Suc i) ikey2 [] = Inl SCRIPT_ERR_UNKNOWN_ERROR"
| "multisig_clean env fSuccess (Suc i) ikey2 (x # st) =
     (if \<not> fSuccess \<and> has_flag (flags env) SCRIPT_VERIFY_NULLFAIL \<and> ikey2 = 0 \<and> length x \<noteq> 0
      then Inl SCRIPT_ERR_SIG_NULLFAIL
      else multisig_clean env fSuccess i (ikey2 - 1) st)"

definition multisig_finish :: "eval_env \<Rightarrow> bool \<Rightarrow> bool \<Rightarrow> stack_op" where
  "multisig_finish env verify fSuccess st =
     (case st of
        [] \<Rightarrow> invalid_stack
      | x # st \<Rightarrow>
          if has_flag (flags env) SCRIPT_VERIFY_NULLDUMMY \<and> length x \<noteq> 0 then Inl SCRIPT_ERR_SIG_NULLDUMMY
          else if verify then (if fSuccess then Inr st else Inl SCRIPT_ERR_CHECKMULTISIGVERIFY)
          else Inr ((if fSuccess then vchTrue else vchFalse) # st))"

text \<open>The result is the new operation count and the new stack.\<close>

definition op_checkmultisig :: "eval_env \<Rightarrow> bytes \<Rightarrow> bool \<Rightarrow> int \<Rightarrow> stack \<Rightarrow> ScriptError + (int \<times> stack)" where
  "op_checkmultisig env pbegincodehash verify nOpCount st =
     (let fRequireMinimal = has_flag (flags env) SCRIPT_VERIFY_MINIMALDATA
      in if int (length st) < 1 then invalid_stack
      else case Option.bind (stacktop st 1) (\<lambda>x. CScriptNum_of x fRequireMinimal nDefaultMaxNumSize) of
        None \<Rightarrow> Inl SCRIPT_ERR_UNKNOWN_ERROR
      | Some bn \<Rightarrow>
        let nKeysCount = getint bn
        in if nKeysCount < 0 \<or> nKeysCount > MAX_PUBKEYS_PER_MULTISIG then Inl SCRIPT_ERR_PUBKEY_COUNT
        else let nOpCount = nOpCount + nKeysCount
        in if nOpCount > MAX_OPS_PER_SCRIPT then Inl SCRIPT_ERR_OP_COUNT
        else let ikey = 2; ikey2 = nKeysCount + 2; i = 2 + nKeysCount
        in if int (length st) < i then invalid_stack
        else case Option.bind (stacktop st i) (\<lambda>x. CScriptNum_of x fRequireMinimal nDefaultMaxNumSize) of
          None \<Rightarrow> Inl SCRIPT_ERR_UNKNOWN_ERROR
        | Some bn \<Rightarrow>
          let nSigsCount = getint bn
          in if nSigsCount < 0 \<or> nSigsCount > nKeysCount then Inl SCRIPT_ERR_SIG_COUNT
          else let isig = i + 1; i = i + 1 + nSigsCount
          in if int (length st) < i then invalid_stack
          else case drop_signatures (sigversion env) st isig (nat nSigsCount) pbegincodehash of
            None \<Rightarrow> Inl SCRIPT_ERR_UNKNOWN_ERROR
          | Some scriptCode \<Rightarrow>
            (case multisig_loop env scriptCode st isig ikey nSigsCount nKeysCount of
               Inl e \<Rightarrow> Inl e
             | Inr fSuccess \<Rightarrow>
               (case multisig_clean env fSuccess (nat (i - 1)) (nat ikey2) st of
                  Inl e \<Rightarrow> Inl e
                | Inr st \<Rightarrow>
                  (case multisig_finish env verify fSuccess st of
                     Inl e \<Rightarrow> Inl e
                   | Inr st \<Rightarrow> Inr (nOpCount, st)))))"

section \<open>Evaluation\<close>

record eval_state =
  stk :: stack
  altstk :: stack
  vfExec :: "bool list"
  nOps :: int
  codehash :: bytes

type_synonym eval_result = "(ScriptError + eval_state) option"

definition on_stack :: "eval_state \<Rightarrow> (ScriptError + stack) \<Rightarrow> eval_result" where
  "on_stack s r = Some (case r of Inl e \<Rightarrow> Inl e | Inr st \<Rightarrow> Inr (s\<lparr>stk := st\<rparr>))"

definition op_checklocktimeverify :: "eval_env \<Rightarrow> stack_op" where
  "op_checklocktimeverify env st =
     (if \<not> has_flag (flags env) SCRIPT_VERIFY_CHECKLOCKTIMEVERIFY
      then if has_flag (flags env) SCRIPT_VERIFY_DISCOURAGE_UPGRADABLE_NOPS
           then Inl SCRIPT_ERR_DISCOURAGE_UPGRADABLE_NOPS else Inr st
      else case st of
        [] \<Rightarrow> invalid_stack
      | x # _ \<Rightarrow>
          (case CScriptNum_of x (has_flag (flags env) SCRIPT_VERIFY_MINIMALDATA) 5 of
             None \<Rightarrow> Inl SCRIPT_ERR_UNKNOWN_ERROR
           | Some nLockTime \<Rightarrow>
               if nLockTime < 0 then Inl SCRIPT_ERR_NEGATIVE_LOCKTIME
               else if \<not> CheckLockTime (checker env) nLockTime then Inl SCRIPT_ERR_UNSATISFIED_LOCKTIME
               else Inr st))"

definition SEQUENCE_LOCKTIME_DISABLE_FLAG :: int where "SEQUENCE_LOCKTIME_DISABLE_FLAG = 2 ^ 31"

definition op_checksequenceverify :: "eval_env \<Rightarrow> stack_op" where
  "op_checksequenceverify env st =
     (if \<not> has_flag (flags env) SCRIPT_VERIFY_CHECKSEQUENCEVERIFY
      then if has_flag (flags env) SCRIPT_VERIFY_DISCOURAGE_UPGRADABLE_NOPS
           then Inl SCRIPT_ERR_DISCOURAGE_UPGRADABLE_NOPS else Inr st
      else case st of
        [] \<Rightarrow> invalid_stack
      | x # _ \<Rightarrow>
          (case CScriptNum_of x (has_flag (flags env) SCRIPT_VERIFY_MINIMALDATA) 5 of
             None \<Rightarrow> Inl SCRIPT_ERR_UNKNOWN_ERROR
           | Some nSequence \<Rightarrow>
               if nSequence < 0 then Inl SCRIPT_ERR_NEGATIVE_LOCKTIME
               else if nSequence AND SEQUENCE_LOCKTIME_DISABLE_FLAG \<noteq> 0 then Inr st
               else if \<not> CheckSequence (checker env) nSequence then Inl SCRIPT_ERR_UNSATISFIED_LOCKTIME
               else Inr st))"

definition op_if :: "eval_env \<Rightarrow> bool \<Rightarrow> bool \<Rightarrow> eval_state \<Rightarrow> eval_result" where
  "op_if env fExec notif s =
     (if \<not> fExec then Some (Inr (s\<lparr>vfExec := False # vfExec s\<rparr>))
      else case stk s of
        [] \<Rightarrow> Some (Inl SCRIPT_ERR_UNBALANCED_CONDITIONAL)
      | vch # st \<Rightarrow>
          if sigversion env = SIGVERSION_WITNESS_V0 \<and> has_flag (flags env) SCRIPT_VERIFY_MINIMALIF \<and>
             (length vch > 1 \<or> (length vch = 1 \<and> vch ! 0 \<noteq> 1))
          then Some (Inl SCRIPT_ERR_MINIMALIF)
          else let fValue = CastToBool vch;
                   fValue = (if notif then \<not> fValue else fValue)
               in Some (Inr (s\<lparr>stk := st, vfExec := fValue # vfExec s\<rparr>)))"

definition op_else :: "eval_state \<Rightarrow> eval_result" where
  "op_else s =
     Some (case vfExec s of
             [] \<Rightarrow> Inl SCRIPT_ERR_UNBALANCED_CONDITIONAL
           | f # fs \<Rightarrow> Inr (s\<lparr>vfExec := (\<not> f) # fs\<rparr>))"

definition op_endif :: "eval_state \<Rightarrow> eval_result" where
  "op_endif s =
     Some (case vfExec s of [] \<Rightarrow> Inl SCRIPT_ERR_UNBALANCED_CONDITIONAL | f # fs \<Rightarrow> Inr (s\<lparr>vfExec := fs\<rparr>))"

definition op_toaltstack :: "eval_state \<Rightarrow> eval_result" where
  "op_toaltstack s =
     Some (case stk s of [] \<Rightarrow> invalid_stack | x # st \<Rightarrow> Inr (s\<lparr>stk := st, altstk := x # altstk s\<rparr>))"

definition op_fromaltstack :: "eval_state \<Rightarrow> eval_result" where
  "op_fromaltstack s =
     Some (case altstk s of
             [] \<Rightarrow> Inl SCRIPT_ERR_INVALID_ALTSTACK_OPERATION
           | x # alt \<Rightarrow> Inr (s\<lparr>stk := x # stk s, altstk := alt\<rparr>))"

definition disabled_opcode :: "opcodetype \<Rightarrow> bool" where
  "disabled_opcode opcode \<longleftrightarrow>
     opcode \<in> {OP_CAT, OP_SUBSTR, OP_LEFT, OP_RIGHT, OP_INVERT, OP_AND, OP_OR, OP_XOR, OP_2MUL, OP_2DIV,
       OP_MUL, OP_DIV, OP_MOD, OP_LSHIFT, OP_RSHIFT}"

text \<open>The operations that only use the stack, in the order of the source; \<open>m\<close> is \<open>fRequireMinimal\<close>.\<close>

definition plain_stack_op :: "eval_env \<Rightarrow> opcodetype \<Rightarrow> stack_op option" where
  "plain_stack_op env opcode =
     (let m = has_flag (flags env) SCRIPT_VERIFY_MINIMALDATA
      in if opcode = OP_1NEGATE \<or> (OP_1 \<le> opcode \<and> opcode \<le> OP_16) then Some (op_push_number opcode)
      else if opcode = OP_NOP then Some Inr
      else if opcode = OP_CHECKLOCKTIMEVERIFY then Some (op_checklocktimeverify env)
      else if opcode = OP_CHECKSEQUENCEVERIFY then Some (op_checksequenceverify env)
      else if opcode = OP_NOP1 \<or> (OP_NOP4 \<le> opcode \<and> opcode \<le> OP_NOP10)
      then Some (if has_flag (flags env) SCRIPT_VERIFY_DISCOURAGE_UPGRADABLE_NOPS
                 then (\<lambda>_. Inl SCRIPT_ERR_DISCOURAGE_UPGRADABLE_NOPS) else Inr)
      else if opcode = OP_VERIFY then Some op_verify
      else if opcode = OP_RETURN then Some (\<lambda>_. Inl SCRIPT_ERR_OP_RETURN)
      else if opcode = OP_2DROP then Some op_2drop
      else if opcode = OP_2DUP then Some op_2dup
      else if opcode = OP_3DUP then Some op_3dup
      else if opcode = OP_2OVER then Some op_2over
      else if opcode = OP_2ROT then Some op_2rot
      else if opcode = OP_2SWAP then Some op_2swap
      else if opcode = OP_IFDUP then Some op_ifdup
      else if opcode = OP_DEPTH then Some op_depth
      else if opcode = OP_DROP then Some op_drop
      else if opcode = OP_DUP then Some op_dup
      else if opcode = OP_NIP then Some op_nip
      else if opcode = OP_OVER then Some op_over
      else if opcode = OP_PICK \<or> opcode = OP_ROLL then Some (op_pick_roll m (opcode = OP_ROLL))
      else if opcode = OP_ROT then Some op_rot
      else if opcode = OP_SWAP then Some op_swap
      else if opcode = OP_TUCK then Some op_tuck
      else if opcode = OP_SIZE then Some op_size
      else if opcode = OP_EQUAL \<or> opcode = OP_EQUALVERIFY then Some (op_equal (opcode = OP_EQUALVERIFY))
      else if opcode = OP_WITHIN then Some (op_within m)
      else if OP_RIPEMD160 \<le> opcode \<and> opcode \<le> OP_HASH256 then Some (op_hash opcode)
      else if opcode = OP_PHI_ASSET then Some Inr
      else None)"

definition exec_op :: "eval_env \<Rightarrow> bool \<Rightarrow> opcodetype \<Rightarrow> bytes \<Rightarrow> eval_state \<Rightarrow> eval_result" where
  "exec_op env fExec opcode pc s =
     (let m = has_flag (flags env) SCRIPT_VERIFY_MINIMALDATA
      in case plain_stack_op env opcode of
        Some f \<Rightarrow> on_stack s (f (stk s))
      | None \<Rightarrow>
        if opcode = OP_IF \<or> opcode = OP_NOTIF then op_if env fExec (opcode = OP_NOTIF) s
        else if opcode = OP_ELSE then op_else s
        else if opcode = OP_ENDIF then op_endif s
        else if opcode = OP_TOALTSTACK then op_toaltstack s
        else if opcode = OP_FROMALTSTACK then op_fromaltstack s
        else if opcode \<in> {OP_1ADD, OP_1SUB, OP_NEGATE, OP_ABS, OP_NOT, OP_0NOTEQUAL}
        then do { r \<leftarrow> op_unary m opcode (stk s); on_stack s r }
        else if opcode \<in> {OP_ADD, OP_SUB} \<or> (OP_BOOLAND \<le> opcode \<and> opcode \<le> OP_MAX)
        then do { r \<leftarrow> op_binary m opcode (stk s); on_stack s r }
        else if opcode = OP_CODESEPARATOR then Some (Inr (s\<lparr>codehash := pc\<rparr>))
        else if opcode = OP_CHECKSIG \<or> opcode = OP_CHECKSIGVERIFY
        then on_stack s (op_checksig env (codehash s) (opcode = OP_CHECKSIGVERIFY) (stk s))
        else if opcode = OP_CHECKMULTISIG \<or> opcode = OP_CHECKMULTISIGVERIFY
        then Some (case op_checkmultisig env (codehash s) (opcode = OP_CHECKMULTISIGVERIFY) (nOps s) (stk s) of
                     Inl e \<Rightarrow> Inl e
                   | Inr (n, st) \<Rightarrow> Inr (s\<lparr>nOps := n, stk := st\<rparr>))
        else Some (Inl SCRIPT_ERR_BAD_OPCODE))"

text \<open>
  One round of the loop: \<open>eval_instr\<close> is the execution of the operation, \<open>check_size\<close> the test at the end of the
  round, and \<open>eval_step\<close> the round with the reading of the operation and its limits.
\<close>

definition eval_instr :: "eval_env \<Rightarrow> opcodetype \<Rightarrow> bytes \<Rightarrow> bytes \<Rightarrow> eval_state \<Rightarrow> eval_result" where
  "eval_instr env opcode vchPushValue pc s =
     (let fExec = (False \<notin> set (vfExec s))
      in if fExec \<and> opcode \<le> OP_PUSHDATA4
         then if has_flag (flags env) SCRIPT_VERIFY_MINIMALDATA \<and> \<not> CheckMinimalPush vchPushValue opcode
              then Some (Inl SCRIPT_ERR_MINIMALDATA)
              else Some (Inr (s\<lparr>stk := vchPushValue # stk s\<rparr>))
         else if fExec \<or> (OP_IF \<le> opcode \<and> opcode \<le> OP_ENDIF) then exec_op env fExec opcode pc s
         else Some (Inr s))"

definition check_size :: "bytes \<Rightarrow> ScriptError + eval_state \<Rightarrow> ScriptError + (eval_state \<times> bytes)" where
  "check_size pc r =
     (case r of
        Inl e \<Rightarrow> Inl e
      | Inr s \<Rightarrow> if length (stk s) + length (altstk s) > MAX_STACK_SIZE then Inl SCRIPT_ERR_STACK_SIZE else Inr (s, pc))"

definition eval_step :: "eval_env \<Rightarrow> bytes \<Rightarrow> eval_state \<Rightarrow> (ScriptError + (eval_state \<times> bytes)) option" where
  "eval_step env pc s =
     (case GetOp2 pc of (ok, opcode, vchPushValue, pc) \<Rightarrow>
        if \<not> ok then Some (Inl SCRIPT_ERR_BAD_OPCODE)
        else if length vchPushValue > MAX_SCRIPT_ELEMENT_SIZE then Some (Inl SCRIPT_ERR_PUSH_SIZE)
        else let s = (if opcode > OP_16 then s\<lparr>nOps := nOps s + 1\<rparr> else s)
        in if opcode > OP_16 \<and> nOps s > MAX_OPS_PER_SCRIPT then Some (Inl SCRIPT_ERR_OP_COUNT)
        else if disabled_opcode opcode then Some (Inl SCRIPT_ERR_DISABLED_OPCODE)
        else map_option (check_size pc) (eval_instr env opcode vchPushValue pc s))"

lemma check_size_Inr:
  "check_size pc r = Inr (s', pc') \<longleftrightarrow> r = Inr s' \<and> pc' = pc \<and> length (stk s') + length (altstk s') \<le> MAX_STACK_SIZE"
  by (auto simp: check_size_def split: sum.splits if_splits)

lemma eval_step_Inr:
  assumes "eval_step env pc s = Some (Inr (s', pc'))"
  obtains opcode vch s0 where "GetOp2 pc = (True, opcode, vch, pc')" "length vch \<le> MAX_SCRIPT_ELEMENT_SIZE"
    "s0 = (if opcode > OP_16 then s\<lparr>nOps := nOps s + 1\<rparr> else s)" "eval_instr env opcode vch pc' s0 = Some (Inr s')"
    "opcode > OP_16 \<longrightarrow> nOps s0 \<le> MAX_OPS_PER_SCRIPT" "length (stk s') + length (altstk s') \<le> MAX_STACK_SIZE"
proof -
  obtain ok opcode vch pc1 where g: "GetOp2 pc = (ok, opcode, vch, pc1)" by (metis prod_cases4)
  show thesis
    using assms that [of opcode vch "if opcode > OP_16 then s\<lparr>nOps := nOps s + 1\<rparr> else s"]
    by (auto simp: eval_step_def g Let_def check_size_Inr split: if_splits)
qed

lemma eval_step_length: "eval_step env pc s = Some (Inr (s', pc')) \<Longrightarrow> length pc' < length pc"
  by (erule eval_step_Inr) (rule GetOp2_length)

function eval_loop :: "eval_env \<Rightarrow> bytes \<Rightarrow> eval_state \<Rightarrow> eval_result" where
  "eval_loop env pc s =
     (if pc = [] then Some (Inr s)
      else case eval_step env pc s of
        None \<Rightarrow> None
      | Some (Inl e) \<Rightarrow> Some (Inl e)
      | Some (Inr (s, pc)) \<Rightarrow> eval_loop env pc s)"
  by pat_completeness auto
termination by (relation "measure (\<lambda>(_, pc, _). length pc)") (auto dest: eval_step_length)

declare eval_loop.simps [simp del]

definition EvalScript :: "eval_env \<Rightarrow> stack \<Rightarrow> bytes \<Rightarrow> (ScriptError + stack) option" where
  "EvalScript env st script =
     (if length script > MAX_SCRIPT_SIZE then Some (Inl SCRIPT_ERR_SCRIPT_SIZE)
      else do {
        r \<leftarrow> eval_loop env script \<lparr>stk = st, altstk = [], vfExec = [], nOps = 0, codehash = script\<rparr>;
        Some (case r of
                Inl e \<Rightarrow> Inl e
              | Inr s \<Rightarrow> if vfExec s \<noteq> [] then Inl SCRIPT_ERR_UNBALANCED_CONDITIONAL else Inr (stk s)) })"

section \<open>Verification of an input\<close>

text \<open>The witness stack is in the order of the transaction, so its last element is the top.\<close>

definition VerifyWitnessProgram ::
    "eval_env \<Rightarrow> bytes list \<Rightarrow> int \<Rightarrow> bytes \<Rightarrow> (ScriptError + unit) option" where
  "VerifyWitnessProgram env witness witversion program =
     (let run = (\<lambda>st scriptPubKey.
            if \<exists>x\<in>set st. length x > MAX_SCRIPT_ELEMENT_SIZE then Some (Inl SCRIPT_ERR_PUSH_SIZE)
            else do {
              r \<leftarrow> EvalScript (env\<lparr>sigversion := SIGVERSION_WITNESS_V0\<rparr>) st scriptPubKey;
              Some (case r of
                      Inl e \<Rightarrow> Inl e
                    | Inr st \<Rightarrow>
                        if length st \<noteq> 1 then Inl SCRIPT_ERR_EVAL_FALSE
                        else if \<not> CastToBool (hd st) then Inl SCRIPT_ERR_EVAL_FALSE
                        else Inr ()) })
      in if witversion = 0
         then if length program = 32
              then if length witness = 0 then Some (Inl SCRIPT_ERR_WITNESS_PROGRAM_WITNESS_EMPTY)
                   else let scriptPubKey = last witness;
                            hashScriptPubKey = fst (CSHA256_Finalize (CSHA256_Write CSHA256_new scriptPubKey))
                        in if hashScriptPubKey \<noteq> program then Some (Inl SCRIPT_ERR_WITNESS_PROGRAM_MISMATCH)
                           else run (rev (butlast witness)) scriptPubKey
              else if length program = 20
              then if length witness \<noteq> 2 then Some (Inl SCRIPT_ERR_WITNESS_PROGRAM_MISMATCH)
                   else do { p \<leftarrow> push_data program;
                             run (rev witness)
                               ([of_nat OP_DUP, of_nat OP_HASH160] @ p @ [of_nat OP_EQUALVERIFY, of_nat OP_CHECKSIG]) }
              else Some (Inl SCRIPT_ERR_WITNESS_PROGRAM_WRONG_LENGTH)
         else if has_flag (flags env) SCRIPT_VERIFY_DISCOURAGE_UPGRADABLE_WITNESS_PROGRAM
         then Some (Inl SCRIPT_ERR_DISCOURAGE_UPGRADABLE_WITNESS_PROGRAM)
         else Some (Inr ()))"

text \<open>
  The parts of \<open>VerifyScript\<close>: the evaluation of one script with the test of its result, the bare witness program, the
  pay-to-script-hash part, and the final checks.  The flag \<open>hadWitness\<close> is passed along with the stack;
  \<open>stack.resize(1)\<close> keeps the bottom element.
\<close>

definition eval_true :: "eval_env \<Rightarrow> stack \<Rightarrow> bytes \<Rightarrow> (ScriptError + stack) option" where
  "eval_true env st script =
     do { r \<leftarrow> EvalScript env st script;
          Some (case r of
                  Inl e \<Rightarrow> Inl e
                | Inr st \<Rightarrow> if st = [] then Inl SCRIPT_ERR_EVAL_FALSE
                             else if \<not> CastToBool (hd st) then Inl SCRIPT_ERR_EVAL_FALSE else Inr st) }"

definition resize1 :: "stack \<Rightarrow> stack" where
  "resize1 st = (if st = [] then [[]] else [last st])"

definition verify_witness ::
    "eval_env \<Rightarrow> bytes list \<Rightarrow> bytes \<Rightarrow> bool \<Rightarrow> ScriptError \<Rightarrow> stack \<Rightarrow> bool \<Rightarrow> (ScriptError + (stack \<times> bool)) option" where
  "verify_witness env witness script malleated err st hadWitness =
     (if \<not> has_flag (flags env) SCRIPT_VERIFY_WITNESS then Some (Inr (st, hadWitness))
      else do {
        w \<leftarrow> IsWitnessProgram script;
        case w of
          None \<Rightarrow> Some (Inr (st, hadWitness))
        | Some (version, program) \<Rightarrow>
            if malleated then Some (Inl err)
            else do { r \<leftarrow> VerifyWitnessProgram env witness version program;
                      Some (case r of Inl e \<Rightarrow> Inl e | Inr _ \<Rightarrow> Inr (resize1 st, True)) } })"

definition verify_p2sh ::
    "eval_env \<Rightarrow> bytes \<Rightarrow> bytes \<Rightarrow> bytes list \<Rightarrow> stack \<Rightarrow> stack \<Rightarrow> bool \<Rightarrow> (ScriptError + (stack \<times> bool)) option" where
  "verify_p2sh env scriptSig scriptPubKey witness stackCopy st hadWitness =
     (if \<not> (has_flag (flags env) SCRIPT_VERIFY_P2SH \<and> IsPayToScriptHash scriptPubKey) then Some (Inr (st, hadWitness))
      else if \<not> IsPushOnly scriptSig then Some (Inl SCRIPT_ERR_SIG_PUSHONLY)
      else case stackCopy of
        [] \<Rightarrow> None
      | pubKey2 # st2 \<Rightarrow>
          do { r \<leftarrow> eval_true env st2 pubKey2;
               case r of
                 Inl e \<Rightarrow> Some (Inl e)
               | Inr st2 \<Rightarrow>
                   verify_witness env witness pubKey2 (push_data pubKey2 \<noteq> Some scriptSig)
                     SCRIPT_ERR_WITNESS_MALLEATED_P2SH st2 hadWitness })"

definition verify_finish :: "eval_env \<Rightarrow> bytes list \<Rightarrow> stack \<Rightarrow> bool \<Rightarrow> (ScriptError + unit) option" where
  "verify_finish env witness st hadWitness =
     do { assert_opt (has_flag (flags env) SCRIPT_VERIFY_CLEANSTACK \<longrightarrow>
            has_flag (flags env) SCRIPT_VERIFY_P2SH \<and> has_flag (flags env) SCRIPT_VERIFY_WITNESS);
          if has_flag (flags env) SCRIPT_VERIFY_CLEANSTACK \<and> length st \<noteq> 1 then Some (Inl SCRIPT_ERR_CLEANSTACK)
          else do {
            assert_opt (has_flag (flags env) SCRIPT_VERIFY_WITNESS \<longrightarrow> has_flag (flags env) SCRIPT_VERIFY_P2SH);
            if has_flag (flags env) SCRIPT_VERIFY_WITNESS \<and> \<not> hadWitness \<and> witness \<noteq> []
            then Some (Inl SCRIPT_ERR_WITNESS_UNEXPECTED)
            else Some (Inr ()) } }"

definition VerifyScript :: "eval_env \<Rightarrow> bytes \<Rightarrow> bytes \<Rightarrow> bytes list \<Rightarrow> (ScriptError + unit) option" where
  "VerifyScript env0 scriptSig scriptPubKey witness =
     (let env = env0\<lparr>sigversion := SIGVERSION_BASE\<rparr>
      in if has_flag (flags env) SCRIPT_VERIFY_SIGPUSHONLY \<and> \<not> IsPushOnly scriptSig
         then Some (Inl SCRIPT_ERR_SIG_PUSHONLY)
         else do {
           r \<leftarrow> EvalScript env [] scriptSig;
           case r of
             Inl e \<Rightarrow> Some (Inl e)
           | Inr stackCopy \<Rightarrow> do {
               r \<leftarrow> eval_true env stackCopy scriptPubKey;
               case r of
                 Inl e \<Rightarrow> Some (Inl e)
               | Inr st \<Rightarrow> do {
                   r \<leftarrow> verify_witness env witness scriptPubKey (length scriptSig \<noteq> 0) SCRIPT_ERR_WITNESS_MALLEATED st False;
                   case r of
                     Inl e \<Rightarrow> Some (Inl e)
                   | Inr (st, hadWitness) \<Rightarrow> do {
                       r \<leftarrow> verify_p2sh env scriptSig scriptPubKey witness stackCopy st hadWitness;
                       case r of
                         Inl e \<Rightarrow> Some (Inl e)
                       | Inr (st, hadWitness) \<Rightarrow> verify_finish env witness st hadWitness } } } })"

text \<open>Counting signature operations in witnesses.\<close>

definition WitnessSigOps :: "int \<Rightarrow> bytes \<Rightarrow> bytes list \<Rightarrow> nat" where
  "WitnessSigOps witversion witprogram witness =
     (if witversion = 0
      then if length witprogram = 20 then 1
           else if length witprogram = 32 \<and> length witness > 0 then GetSigOpCount (last witness) True
           else 0
      else 0)"

function last_data :: "bytes \<Rightarrow> bytes \<Rightarrow> bytes" where
  "last_data data pc =
     (case GetOp2 pc of (ok, opcode, v, pc') \<Rightarrow> if pc = [] \<or> \<not> ok then data else last_data v pc')"
  by pat_completeness auto
termination by (relation "measure (\<lambda>(_, pc). length pc)") (auto dest: GetOp2_length [OF sym])

declare last_data.simps [simp del]

text \<open>\<open>last_data\<close> is called on push-only scripts only, where no operation fails.\<close>

definition CountWitnessSigOps :: "uint32 \<Rightarrow> bytes \<Rightarrow> bytes \<Rightarrow> bytes list \<Rightarrow> nat option" where
  "CountWitnessSigOps flgs scriptSig scriptPubKey witness =
     (if \<not> has_flag flgs SCRIPT_VERIFY_WITNESS then Some 0
      else do {
        assert_opt (has_flag flgs SCRIPT_VERIFY_P2SH);
        w \<leftarrow> IsWitnessProgram scriptPubKey;
        case w of
          Some (version, program) \<Rightarrow> Some (WitnessSigOps version program witness)
        | None \<Rightarrow>
            if IsPayToScriptHash scriptPubKey \<and> IsPushOnly scriptSig
            then do { w \<leftarrow> IsWitnessProgram (last_data [] scriptSig);
                      Some (case w of Some (version, program) \<Rightarrow> WitnessSigOps version program witness | None \<Rightarrow> 0) }
            else Some 0 })"

section \<open>Digests\<close>

lemma length_md_loop:
  assumes f: "\<And>s c. length s = k \<Longrightarrow> length (f s c) = k" and b: "0 < b"
  shows "length s = k \<Longrightarrow> length (md_loop b f s m) = k"
proof (induction "length m" arbitrary: s m rule: less_induct)
  case less
  then show ?case using b by (cases "b \<le> length m") (simp_all add: md_loop_step md_loop_short f)
qed

lemma length_fips_sha1: "length (fips_sha1 m) = 20"
proof -
  have "length (fips1_compress s c) = 5" if "length s = 5" for s c
    using that by (simp add: fips1_compress_def Let_def split: prod.split)
  then have "length (md_loop 64 fips1_compress sha1_Initialize p) = 5" for p
    by (rule length_md_loop) (simp_all add: sha1_Initialize_def)
  then show ?thesis by (simp add: fips_sha1_def md_digest_def length_concat comp_def sum_list_triv)
qed

lemma length_ref_ripemd160: "length (ref_ripemd160 m) = 20"
proof -
  have "length (ref_compress s c) = 5" if "length s = 5" for s c
    by (simp add: ref_compress_def Let_def split: prod.split)
  then have "length (md_loop 64 ref_compress ripemd160_Initialize p) = 5" for p
    by (rule length_md_loop) (simp_all add: ripemd160_Initialize_def)
  then show ?thesis by (simp add: ref_ripemd160_def md_digest_def length_concat comp_def sum_list_triv)
qed

text \<open>The hash operations in terms of the standards.\<close>

lemma op_hash_eq:
  "op_hash opcode (x # st) =
     Inr ((if opcode = OP_RIPEMD160 then ref_ripemd160 x else if opcode = OP_SHA1 then fips_sha1 x
           else if opcode = OP_SHA256 then fips_sha256 x else if opcode = OP_HASH160 then Hash160 x else Hash [x]) # st)"
  using CRIPEMD160_pieces [of "[x]"] CSHA1_pieces [of "[x]"] CSHA256_pieces [of "[x]"] CHash160_pieces [of "[x]"]
    CHash256_pieces [of "[x]"]
  by (simp add: Hash160_eq Hash_eq)

section \<open>The operations keep the element size\<close>

definition small :: "valtype \<Rightarrow> bool" where
  "small x \<longleftrightarrow> length x \<le> MAX_SCRIPT_ELEMENT_SIZE"

lemma small_number: "\<bar>v\<bar> < 2 ^ 64 \<Longrightarrow> small (scriptnum_serialize v)"
proof -
  assume "\<bar>v\<bar> < 2 ^ 64"
  then have "nat \<bar>v\<bar> < 256 ^ 8" by (simp add: nat_less_iff)
  from length_scriptnum_serialize [OF this] show ?thesis by (simp add: small_def MAX_SCRIPT_ELEMENT_SIZE_def)
qed

lemma small_bool [simp]: "small vchTrue" "small vchFalse"
  by (simp_all add: small_def vchTrue_def vchFalse_def MAX_SCRIPT_ELEMENT_SIZE_def)

lemma small_length: "small x \<Longrightarrow> length x < 18446744073709551616"
  by (simp add: small_def MAX_SCRIPT_ELEMENT_SIZE_def)

named_theorems op_small \<open>an operation keeps the elements small\<close>

lemma op_push_number_small [op_small]:
  "op_push_number opcode st = Inr st' \<Longrightarrow> opcode \<le> OP_16 \<Longrightarrow> list_all small st \<Longrightarrow> list_all small st'"
  by (auto simp: op_push_number_def intro!: small_number)

lemma op_simple_small [op_small]:
  "op_verify st = Inr st' \<Longrightarrow> list_all small st \<Longrightarrow> list_all small st'"
  "op_2drop st = Inr st' \<Longrightarrow> list_all small st \<Longrightarrow> list_all small st'"
  "op_2dup st = Inr st' \<Longrightarrow> list_all small st \<Longrightarrow> list_all small st'"
  "op_3dup st = Inr st' \<Longrightarrow> list_all small st \<Longrightarrow> list_all small st'"
  "op_2over st = Inr st' \<Longrightarrow> list_all small st \<Longrightarrow> list_all small st'"
  "op_2rot st = Inr st' \<Longrightarrow> list_all small st \<Longrightarrow> list_all small st'"
  "op_2swap st = Inr st' \<Longrightarrow> list_all small st \<Longrightarrow> list_all small st'"
  "op_ifdup st = Inr st' \<Longrightarrow> list_all small st \<Longrightarrow> list_all small st'"
  "op_drop st = Inr st' \<Longrightarrow> list_all small st \<Longrightarrow> list_all small st'"
  "op_dup st = Inr st' \<Longrightarrow> list_all small st \<Longrightarrow> list_all small st'"
  "op_nip st = Inr st' \<Longrightarrow> list_all small st \<Longrightarrow> list_all small st'"
  "op_over st = Inr st' \<Longrightarrow> list_all small st \<Longrightarrow> list_all small st'"
  "op_rot st = Inr st' \<Longrightarrow> list_all small st \<Longrightarrow> list_all small st'"
  "op_swap st = Inr st' \<Longrightarrow> list_all small st \<Longrightarrow> list_all small st'"
  "op_tuck st = Inr st' \<Longrightarrow> list_all small st \<Longrightarrow> list_all small st'"
  "op_equal v st = Inr st' \<Longrightarrow> list_all small st \<Longrightarrow> list_all small st'"
  by (cases st rule: op_2rot.cases; auto simp: Let_def split: if_splits)+

lemma op_depth_small [op_small]:
  "op_depth st = Inr st' \<Longrightarrow> length st \<le> MAX_STACK_SIZE \<Longrightarrow> list_all small st \<Longrightarrow> list_all small st'"
  by (auto simp: op_depth_def MAX_STACK_SIZE_def intro!: small_number)

lemma op_size_small [op_small]: "op_size st = Inr st' \<Longrightarrow> list_all small st \<Longrightarrow> list_all small st'"
  by (cases st) (auto intro!: small_number small_length)

lemma op_pick_roll_small [op_small]:
  assumes "op_pick_roll m roll st = Inr st'" "list_all small st"
  shows "list_all small st'"
proof -
  obtain x y ys where st: "st = x # y # ys"
    using assms(1) by (cases "(m, roll, st)" rule: op_pick_roll.cases) auto
  obtain bn where bn: "CScriptNum_of x m nDefaultMaxNumSize = Some bn" "0 \<le> getint bn" "getint bn < int (length (y # ys))"
    and st': "st' = (y # ys) ! nat (getint bn) #
      (if roll then take (nat (getint bn)) (y # ys) @ drop (Suc (nat (getint bn))) (y # ys) else y # ys)"
    using assms(1) by (auto simp: st Let_def split: option.splits if_splits)
  have "nat (getint bn) < length (y # ys)" using bn by linarith
  then have "(y # ys) ! nat (getint bn) \<in> set (y # ys)" by (rule nth_mem)
  moreover have "set (take n (y # ys) @ drop (Suc n) (y # ys)) \<subseteq> set (y # ys)" for n
    by (simp only: set_append Un_subset_iff set_take_subset set_drop_subset simp_thms)
  ultimately show ?thesis using assms(2) unfolding st' st list_all_iff by (cases roll) (simp_all only: if_True if_False, auto)
qed

lemma op_within_small [op_small]: "op_within m st = Inr st' \<Longrightarrow> list_all small st \<Longrightarrow> list_all small st'"
  by (cases "(m, st)" rule: op_within.cases) (auto split: option.splits if_splits)

lemma op_hash_small [op_small]: "op_hash opcode st = Inr st' \<Longrightarrow> list_all small st \<Longrightarrow> list_all small st'"
  by (cases st)
    (auto simp: op_hash_eq small_def MAX_SCRIPT_ELEMENT_SIZE_def length_ref_ripemd160 length_fips_sha1 Hash160_eq Hash_eq
      simp del: op_hash.simps(2))

lemma op_locktime_small [op_small]:
  "op_checklocktimeverify env st = Inr st' \<Longrightarrow> list_all small st \<Longrightarrow> list_all small st'"
  "op_checksequenceverify env st = Inr st' \<Longrightarrow> list_all small st \<Longrightarrow> list_all small st'"
  by (auto simp: op_checklocktimeverify_def op_checksequenceverify_def split: if_splits list.splits option.splits)

lemma plain_stack_op_small:
  assumes "plain_stack_op env opcode = Some f" "f st = Inr st'" "length st \<le> MAX_STACK_SIZE" "list_all small st"
  shows "list_all small st'"
  using assms unfolding plain_stack_op_def Let_def
  by (auto split: if_splits elim: op_small [rotated -1] dest: op_small)

lemma scriptnum_4: "CScriptNum_of x m nDefaultMaxNumSize = Some bn \<Longrightarrow> \<bar>bn\<bar> < 2 ^ 31"
  using CScriptNum_of_bound [of x m nDefaultMaxNumSize bn] by (simp add: nDefaultMaxNumSize_def)

lemma unary_num_Some:
  assumes "\<bar>bn\<bar> < 2 ^ 31" "opcode \<in> {OP_1ADD, OP_1SUB, OP_NEGATE, OP_ABS, OP_NOT, OP_0NOTEQUAL}"
  shows "\<exists>r. unary_num opcode bn = Some r \<and> \<bar>r\<bar> < 2 ^ 64"
  using assms by (auto simp: unary_num_def CScriptNum_add_def CScriptNum_sub_def CScriptNum_neg_def)

lemma binary_num_Some:
  assumes "\<bar>bn1\<bar> < 2 ^ 31" "\<bar>bn2\<bar> < 2 ^ 31" "opcode \<in> {OP_ADD, OP_SUB} \<or> (OP_BOOLAND \<le> opcode \<and> opcode \<le> OP_MAX)"
  shows "\<exists>r. binary_num opcode bn1 bn2 = Some r \<and> \<bar>r\<bar> < 2 ^ 64"
proof -
  have "opcode \<in> {OP_ADD, OP_SUB, OP_BOOLAND, OP_BOOLOR, OP_NUMEQUAL, OP_NUMEQUALVERIFY, OP_NUMNOTEQUAL, OP_LESSTHAN,
    OP_GREATERTHAN, OP_LESSTHANOREQUAL, OP_GREATERTHANOREQUAL, OP_MIN, OP_MAX}"
    using assms(3) by simp presburger
  then show ?thesis using assms(1,2) by (auto simp: binary_num_def)
qed

lemma op_unary_ok:
  assumes "opcode \<in> {OP_1ADD, OP_1SUB, OP_NEGATE, OP_ABS, OP_NOT, OP_0NOTEQUAL}"
  shows "\<exists>r. op_unary m opcode st = Some r \<and> (\<forall>st'. r = Inr st' \<longrightarrow> list_all small st \<longrightarrow> list_all small st')"
proof (cases st)
  case (Cons x xs)
  show ?thesis
  proof (cases "CScriptNum_of x m nDefaultMaxNumSize")
    case (Some bn)
    with unary_num_Some [OF scriptnum_4 assms] Cons show ?thesis by (fastforce intro: small_number)
  qed (simp add: Cons)
qed simp

lemma op_binary_ok:
  assumes "opcode \<in> {OP_ADD, OP_SUB} \<or> (OP_BOOLAND \<le> opcode \<and> opcode \<le> OP_MAX)"
  shows "\<exists>r. op_binary m opcode st = Some r \<and> (\<forall>st'. r = Inr st' \<longrightarrow> list_all small st \<longrightarrow> list_all small st')"
proof (cases "(m, opcode, st)" rule: op_binary.cases)
  case (1 m' opcode' x2 x1 xs)
  show ?thesis
  proof (cases "CScriptNum_of x1 m nDefaultMaxNumSize = None \<or> CScriptNum_of x2 m nDefaultMaxNumSize = None")
    case False
    then obtain b1 b2 where b: "CScriptNum_of x1 m nDefaultMaxNumSize = Some b1" "CScriptNum_of x2 m nDefaultMaxNumSize = Some b2"
      by auto
    from binary_num_Some [OF scriptnum_4 [OF b(1)] scriptnum_4 [OF b(2)] assms] obtain r
      where r: "binary_num opcode b1 b2 = Some r" "\<bar>r\<bar> < 2 ^ 64" by blast
    then show ?thesis using 1 b by (auto simp: Let_def intro: small_number)
  qed (use 1 in \<open>auto split: option.splits\<close>)
qed auto

lemma op_checksig_small: "op_checksig env ch v st = Inr st' \<Longrightarrow> list_all small st \<Longrightarrow> list_all small st'"
  by (cases "(env, ch, v, st)" rule: op_checksig.cases) (auto simp: Let_def split: option.splits if_splits)

lemma multisig_clean_small: "multisig_clean env f i k st = Inr st' \<Longrightarrow> list_all small st \<Longrightarrow> list_all small st'"
  by (induction env f i k st rule: multisig_clean.induct) (auto split: if_splits)

lemma multisig_finish_small: "multisig_finish env v f st = Inr st' \<Longrightarrow> list_all small st \<Longrightarrow> list_all small st'"
  by (auto simp: multisig_finish_def split: list.splits if_splits)

lemma op_checkmultisig_Inr:
  assumes "op_checkmultisig env ch v n st = Inr (n', st')"
  shows "n \<le> n' \<and> n' \<le> MAX_OPS_PER_SCRIPT \<and> (list_all small st \<longrightarrow> list_all small st')"
  using assms multisig_clean_small multisig_finish_small
  unfolding op_checkmultisig_def Let_def by (fastforce split: if_splits option.splits sum.splits)

text \<open>The invariant of the loop.\<close>

definition ok_state :: "eval_state \<Rightarrow> bool" where
  "ok_state s \<longleftrightarrow> length (stk s) + length (altstk s) \<le> MAX_STACK_SIZE \<and> list_all small (stk s) \<and> list_all small (altstk s) \<and>
     nOps s \<le> MAX_OPS_PER_SCRIPT"

definition small_state :: "eval_state \<Rightarrow> bool" where
  "small_state s \<longleftrightarrow> list_all small (stk s) \<and> list_all small (altstk s) \<and> nOps s \<le> MAX_OPS_PER_SCRIPT"

definition keeps :: "eval_result \<Rightarrow> bool" where
  "keeps r \<longleftrightarrow> (case r of None \<Rightarrow> False | Some (Inl e) \<Rightarrow> True | Some (Inr s') \<Rightarrow> small_state s')"

lemma keeps_on_stack:
  "small_state s \<Longrightarrow> (\<And>st'. r = Inr st' \<Longrightarrow> list_all small st') \<Longrightarrow> keeps (on_stack s r)"
  by (auto simp: keeps_def on_stack_def small_state_def split: sum.splits)

lemma keeps_control:
  assumes "small_state s"
  shows "keeps (op_if env f n s)" "keeps (op_else s)" "keeps (op_endif s)" "keeps (op_toaltstack s)" "keeps (op_fromaltstack s)"
  using assms
  by (auto simp: keeps_def small_state_def op_if_def op_else_def op_endif_def op_toaltstack_def op_fromaltstack_def Let_def
    split: list.splits)

lemma exec_op_keeps:
  assumes s: "small_state s" and len: "length (stk s) \<le> MAX_STACK_SIZE"
  shows "keeps (exec_op env f opcode pc s)"
proof (cases "plain_stack_op env opcode")
  case (Some g)
  have "keeps (on_stack s (g (stk s)))"
    using s plain_stack_op_small [OF Some _ len] by (intro keeps_on_stack) (auto simp: small_state_def)
  then show ?thesis by (simp add: exec_op_def Some)
next
  case None
  have sm: "list_all small (stk s)" using s by (simp add: small_state_def)
  have u: "keeps (Option.bind (op_unary m opcode (stk s)) (on_stack s))"
    if "opcode \<in> {OP_1ADD, OP_1SUB, OP_NEGATE, OP_ABS, OP_NOT, OP_0NOTEQUAL}" for m
    using op_unary_ok [OF that, of m "stk s"] sm keeps_on_stack [OF s] by auto
  have b: "keeps (Option.bind (op_binary m opcode (stk s)) (on_stack s))"
    if "opcode \<in> {OP_ADD, OP_SUB} \<or> (OP_BOOLAND \<le> opcode \<and> opcode \<le> OP_MAX)" for m
    using op_binary_ok [OF that, of m "stk s"] sm keeps_on_stack [OF s] by auto
  have c: "keeps (on_stack s (op_checksig env (codehash s) v (stk s)))" for v
    using keeps_on_stack [OF s] op_checksig_small sm by blast
  have m: "keeps (Some (case op_checkmultisig env (codehash s) v (nOps s) (stk s) of
      Inl e \<Rightarrow> Inl e | Inr (n, st) \<Rightarrow> Inr (s\<lparr>nOps := n, stk := st\<rparr>)))" for v
    using op_checkmultisig_Inr [of env "codehash s" v "nOps s" "stk s"] s sm
    by (auto simp: keeps_def small_state_def split: sum.splits)
  have r: "keeps (Some (Inr (s\<lparr>codehash := pc\<rparr>)))" "keeps (Some (Inl e))" for e
    using s by (simp_all add: keeps_def small_state_def)
  show ?thesis
    unfolding exec_op_def None Let_def option.case
    by (simp only: keeps_control [OF s] c m r split: if_split) (use u b in blast)
qed

lemma eval_instr_keeps:
  assumes "small_state s" "length (stk s) \<le> MAX_STACK_SIZE" "length vch \<le> MAX_SCRIPT_ELEMENT_SIZE"
  shows "keeps (eval_instr env opcode vch pc s)"
  using assms exec_op_keeps [OF assms(1,2)]
  by (simp add: eval_instr_def Let_def) (simp add: keeps_def small_state_def small_def)

lemma eval_step_ok:
  assumes "ok_state s"
  shows "\<exists>r. eval_step env pc s = Some r \<and> (\<forall>s' pc'. r = Inr (s', pc') \<longrightarrow> ok_state s')"
proof -
  obtain ok opcode vch pc1 where g: "GetOp2 pc = (ok, opcode, vch, pc1)" by (metis prod_cases4)
  let ?s = "if opcode > OP_16 then s\<lparr>nOps := nOps s + 1\<rparr> else s"
  have k: "keeps (eval_instr env opcode vch pc1 ?s)"
    if "length vch \<le> MAX_SCRIPT_ELEMENT_SIZE" "\<not> (opcode > OP_16 \<and> nOps ?s > MAX_OPS_PER_SCRIPT)"
    using assms that by (intro eval_instr_keeps) (auto simp: ok_state_def small_state_def)
  show ?thesis
    using k by (auto simp: eval_step_def g Let_def keeps_def ok_state_def small_state_def check_size_Inr
      split: option.splits sum.splits)
qed

lemma eval_loop_ok:
  "ok_state s \<Longrightarrow> \<exists>r. eval_loop env pc s = Some r \<and> (\<forall>s'. r = Inr s' \<longrightarrow> ok_state s')"
proof (induction env pc s rule: eval_loop.induct)
  case (1 env pc s)
  obtain r where r: "eval_step env pc s = Some r" "\<forall>s' pc'. r = Inr (s', pc') \<longrightarrow> ok_state s'"
    using eval_step_ok [OF 1(2)] by blast
  show ?case
  proof (cases "pc = []")
    case False
    show ?thesis
    proof (cases r)
      case (Inr a)
      obtain s' pc' where a: "a = (s', pc')" by fastforce
      show ?thesis
        using 1(1) [OF False r(1) Inr a [symmetric]] r Inr a False by (subst eval_loop.simps) simp
    qed (use r False in \<open>subst eval_loop.simps, simp\<close>)
  qed (use 1(2) in \<open>subst eval_loop.simps, simp\<close>)
qed

lemma EvalScript_ok:
  assumes "length st \<le> MAX_STACK_SIZE" "list_all small st"
  shows "\<exists>r. EvalScript env st script = Some r \<and> (\<forall>st'. r = Inr st' \<longrightarrow> length st' \<le> MAX_STACK_SIZE \<and> list_all small st')"
proof -
  let ?s = "\<lparr>stk = st, altstk = [], vfExec = [], nOps = 0, codehash = script\<rparr>"
  have "ok_state ?s" using assms by (simp add: ok_state_def MAX_OPS_PER_SCRIPT_def)
  from eval_loop_ok [OF this, of env script] obtain r
    where "eval_loop env script ?s = Some r" "\<forall>s'. r = Inr s' \<longrightarrow> ok_state s'" by blast
  then show ?thesis by (auto simp: EvalScript_def ok_state_def split: sum.splits)
qed

section \<open>No assertion fails\<close>

lemma exec_op_total: "exec_op env f opcode pc s \<noteq> None"
proof (cases "plain_stack_op env opcode")
  case None
  have u: "Option.bind (op_unary m opcode (stk s)) (on_stack s) \<noteq> None"
    if "opcode \<in> {OP_1ADD, OP_1SUB, OP_NEGATE, OP_ABS, OP_NOT, OP_0NOTEQUAL}" for m
    using op_unary_ok [OF that, of m "stk s"] by (auto simp: on_stack_def)
  have b: "Option.bind (op_binary m opcode (stk s)) (on_stack s) \<noteq> None"
    if "opcode \<in> {OP_ADD, OP_SUB} \<or> (OP_BOOLAND \<le> opcode \<and> opcode \<le> OP_MAX)" for m
    using op_binary_ok [OF that, of m "stk s"] by (auto simp: on_stack_def)
  have c: "op_if env f n s \<noteq> None" "op_else s \<noteq> None" "op_endif s \<noteq> None" "op_toaltstack s \<noteq> None"
    "op_fromaltstack s \<noteq> None" "on_stack s r \<noteq> None" for n r
    by (auto simp: op_if_def op_else_def op_endif_def op_toaltstack_def op_fromaltstack_def on_stack_def Let_def split: list.splits)
  show ?thesis
    unfolding exec_op_def None Let_def option.case
    by (simp only: c option.distinct not_False_eq_True split: if_split) (use u b in blast)
qed (simp add: exec_op_def on_stack_def)

lemma eval_step_total: "eval_step env pc s \<noteq> None"
proof -
  obtain ok opcode vch pc1 where g: "GetOp2 pc = (ok, opcode, vch, pc1)" by (metis prod_cases4)
  have "eval_instr env opcode vch pc1 s' \<noteq> None" for s'
    using exec_op_total by (simp add: eval_instr_def Let_def)
  then show ?thesis by (simp add: eval_step_def g Let_def)
qed

lemma eval_loop_total: "eval_loop env pc s \<noteq> None"
proof (induction env pc s rule: eval_loop.induct)
  case (1 env pc s)
  obtain r where r: "eval_step env pc s = Some r" using eval_step_total by fastforce
  show ?case
  proof (cases r)
    case (Inr a)
    obtain s' pc' where a: "a = (s', pc')" by fastforce
    show ?thesis using 1 [OF _ r Inr a [symmetric]] r Inr a by (subst eval_loop.simps) simp
  qed (use r in \<open>subst eval_loop.simps, simp\<close>)
qed

lemma EvalScript_total: "\<exists>r. EvalScript env st script = Some r"
  using eval_loop_total [of env script "\<lparr>stk = st, altstk = [], vfExec = [], nOps = 0, codehash = script\<rparr>"]
  by (auto simp: EvalScript_def)

lemma eval_true_total: "\<exists>r. eval_true env st script = Some r"
  using EvalScript_total [of env st script] by (auto simp: eval_true_def)

lemma DecodeOP_N_total: "opcode = OP_0 \<or> (OP_1 \<le> opcode \<and> opcode \<le> OP_16) \<Longrightarrow> \<exists>n. DecodeOP_N opcode = Some n"
  by (auto simp: DecodeOP_N_def)

lemma IsWitnessProgram_total: "\<exists>r. IsWitnessProgram s = Some r"
proof (cases "unat (s ! 0) \<noteq> OP_0 \<and> (unat (s ! 0) < OP_1 \<or> unat (s ! 0) > OP_16)")
  case False
  then obtain n where "DecodeOP_N (unat (s ! 0)) = Some n" using DecodeOP_N_total [of "unat (s ! 0)"] by fastforce
  then have "DecodeOP_N (unat (s ! 0)) \<bind> (\<lambda>v. Some (Some (v, drop 2 s))) = Some (Some (n, drop 2 s))" by simp
  then show ?thesis by (auto simp only: IsWitnessProgram_def split: if_split)
qed (auto simp: IsWitnessProgram_def)

text \<open>The evaluation of a witness script.\<close>

lemma VerifyWitnessProgram_total: "\<exists>r. VerifyWitnessProgram env witness version program = Some r"
proof -
  define run where "run = (\<lambda>st scriptPubKey.
    if \<exists>x\<in>set st. length x > MAX_SCRIPT_ELEMENT_SIZE then Some (Inl SCRIPT_ERR_PUSH_SIZE)
    else do {
      r \<leftarrow> EvalScript (env\<lparr>sigversion := SIGVERSION_WITNESS_V0\<rparr>) st scriptPubKey;
      Some (case r of
              Inl e \<Rightarrow> Inl e
            | Inr st \<Rightarrow>
                if length st \<noteq> 1 then Inl SCRIPT_ERR_EVAL_FALSE
                else if \<not> CastToBool (hd st) then Inl SCRIPT_ERR_EVAL_FALSE
                else Inr ()) })"
  have run: "\<exists>r. run st script = Some r" for st script
    using EvalScript_total [of "env\<lparr>sigversion := SIGVERSION_WITNESS_V0\<rparr>" st script] by (auto simp: run_def)
  have p: "\<exists>p. push_data program = Some p" if "length program = 20" using that by (simp add: push_data_def)
  show ?thesis
    unfolding VerifyWitnessProgram_def run_def [symmetric] Let_def using run p by (auto split: if_split)
qed

lemma verify_witness_total: "\<exists>r. verify_witness env witness script malleated err st h = Some r"
proof -
  obtain w where w: "IsWitnessProgram script = Some w" using IsWitnessProgram_total by blast
  have v: "VerifyWitnessProgram env witness v p = Some (the (VerifyWitnessProgram env witness v p))" for v p
    using VerifyWitnessProgram_total [of env witness v p] by auto
  show ?thesis
    unfolding verify_witness_def w by (subst v) (auto split: option.split)
qed

text \<open>Evaluating a pay-to-script-hash script on the empty stack fails, as the comment at the assertion says.\<close>

lemma EvalScript_p2sh_empty:
  assumes "IsPayToScriptHash script"
  shows "EvalScript env [] script = Some (Inl SCRIPT_ERR_INVALID_STACK_OPERATION)"
proof -
  have len: "length script = 23" and first: "unat (script ! 0) = OP_HASH160"
    using assms by (auto simp: IsPayToScriptHash_def)
  then obtain c rest where c: "script = c # rest" "unat c = OP_HASH160" by (cases script) auto
  let ?s = "\<lparr>stk = [], altstk = [], vfExec = [], nOps = 0, codehash = script\<rparr>"
  have g: "GetOp2 script = (True, OP_HASH160, [], rest)" using c by (simp add: GetOp2_def)
  have "eval_instr env OP_HASH160 [] rest (?s\<lparr>nOps := 1\<rparr>) = Some (Inl SCRIPT_ERR_INVALID_STACK_OPERATION)"
    by (simp add: eval_instr_def exec_op_def plain_stack_op_def on_stack_def)
  then have "eval_step env script ?s = Some (Inl SCRIPT_ERR_INVALID_STACK_OPERATION)"
    by (simp add: eval_step_def g disabled_opcode_def MAX_OPS_PER_SCRIPT_def MAX_SCRIPT_ELEMENT_SIZE_def check_size_def)
  then have "eval_loop env script ?s = Some (Inl SCRIPT_ERR_INVALID_STACK_OPERATION)"
    using c by (subst eval_loop.simps) simp
  then show ?thesis using len by (simp add: EvalScript_def MAX_SCRIPT_SIZE_def)
qed

lemma verify_p2sh_total:
  assumes "eval_true env stackCopy script = Some (Inr st')"
  shows "\<exists>r. verify_p2sh env scriptSig script witness stackCopy st h = Some r"
proof (cases stackCopy)
  case Nil
  then have "\<not> IsPayToScriptHash script"
    using assms EvalScript_p2sh_empty [of script env] by (auto simp: eval_true_def)
  then show ?thesis by (simp add: verify_p2sh_def)
next
  case (Cons a st2)
  obtain r where r: "eval_true env st2 a = Some r" using eval_true_total by blast
  then show ?thesis
    using verify_witness_total by (cases r) (auto simp: verify_p2sh_def Cons)
qed

lemma verify_finish_total:
  assumes "has_flag (flags env) SCRIPT_VERIFY_CLEANSTACK \<longrightarrow>
      has_flag (flags env) SCRIPT_VERIFY_P2SH \<and> has_flag (flags env) SCRIPT_VERIFY_WITNESS"
    and "has_flag (flags env) SCRIPT_VERIFY_WITNESS \<longrightarrow> has_flag (flags env) SCRIPT_VERIFY_P2SH"
  shows "\<exists>r. verify_finish env witness st h = Some r"
  using assms by (auto simp: verify_finish_def)

lemma VerifyScript_total:
  assumes f: "has_flag (flags env) SCRIPT_VERIFY_CLEANSTACK \<longrightarrow>
      has_flag (flags env) SCRIPT_VERIFY_P2SH \<and> has_flag (flags env) SCRIPT_VERIFY_WITNESS"
    "has_flag (flags env) SCRIPT_VERIFY_WITNESS \<longrightarrow> has_flag (flags env) SCRIPT_VERIFY_P2SH"
  shows "\<exists>r. VerifyScript env scriptSig scriptPubKey witness = Some r"
proof -
  let ?e = "env\<lparr>sigversion := SIGVERSION_BASE\<rparr>"
  obtain r1 where r1: "EvalScript ?e [] scriptSig = Some r1" using EvalScript_total by blast
  define r2 where "r2 sc = the (eval_true ?e sc scriptPubKey)" for sc
  have r2: "eval_true ?e sc scriptPubKey = Some (r2 sc)" for sc
    using eval_true_total [of ?e sc scriptPubKey] by (auto simp: r2_def)
  define r3 where "r3 m er st = the (verify_witness ?e witness scriptPubKey m er st False)" for m er st
  have r3: "verify_witness ?e witness scriptPubKey m er st False = Some (r3 m er st)" for m er st
    using verify_witness_total [of ?e witness scriptPubKey m er st False] by (auto simp: r3_def)
  have f': "\<exists>r. verify_finish ?e witness st h = Some r" for st h using f by (intro verify_finish_total) simp_all
  have p: "\<exists>r. Option.bind (verify_p2sh ?e scriptSig scriptPubKey witness sc st h)
      (\<lambda>r. case r of Inl e \<Rightarrow> Some (Inl e) | Inr (st, h) \<Rightarrow> verify_finish ?e witness st h) = Some r"
    if "r2 sc = Inr st'" for sc st h st'
    using verify_p2sh_total [of ?e sc scriptPubKey st' scriptSig witness st h] r2 [of sc] that f'
    by (auto split: sum.splits)
  show ?thesis
    unfolding VerifyScript_def Let_def r1 r2 r3 using p by (auto split: sum.splits)
qed

section \<open>Properties\<close>

text \<open>
  C12.  \<open>EvalScript\<close> ends on every script, and no assertion of \<open>CScriptNum\<close> fails, whatever the flags and the
  checker.  From a stack of at most 1000 elements of at most 520 bytes each, a successful evaluation leaves such a stack.
\<close>
theorem eval_script_total_and_bounded:
  assumes "length st \<le> MAX_STACK_SIZE" "list_all (\<lambda>x. length x \<le> MAX_SCRIPT_ELEMENT_SIZE) st"
  shows "\<exists>r. EvalScript env st script = Some r \<and>
    (case r of Inl e \<Rightarrow> True
     | Inr st' \<Rightarrow> length st' \<le> MAX_STACK_SIZE \<and> list_all (\<lambda>x. length x \<le> MAX_SCRIPT_ELEMENT_SIZE) st')"
proof -
  have small: "small = (\<lambda>x. length x \<le> MAX_SCRIPT_ELEMENT_SIZE)" by (simp add: fun_eq_iff small_def)
  from EvalScript_ok [of st env script, unfolded small, OF assms] show ?thesis by (auto split: sum.splits)
qed

theorem eval_script_total_and_bounded_witness:
  "\<exists>r. EvalScript \<lparr>flags = 0, checker = base_checker, sigversion = SIGVERSION_BASE, CheckLowS = (\<lambda>_. True)\<rparr> [] [0x51] = Some r"
  using eval_script_total_and_bounded [of "[]"] by (auto simp: MAX_STACK_SIZE_def)

text \<open>
  C11.  \<open>VerifyScript\<close> ends, and none of its assertions fails, for flags in which \<open>CLEANSTACK\<close> comes with \<open>P2SH\<close> and
  \<open>WITNESS\<close>, and \<open>WITNESS\<close> with \<open>P2SH\<close>.  In particular the stack kept for pay-to-script-hash is never empty where it is
  used: on an empty stack the script itself has failed with an invalid stack operation.
\<close>
theorem verify_script_never_asserts:
  assumes "has_flag (flags env) SCRIPT_VERIFY_CLEANSTACK \<longrightarrow>
      has_flag (flags env) SCRIPT_VERIFY_P2SH \<and> has_flag (flags env) SCRIPT_VERIFY_WITNESS"
    and "has_flag (flags env) SCRIPT_VERIFY_WITNESS \<longrightarrow> has_flag (flags env) SCRIPT_VERIFY_P2SH"
  shows "(\<exists>r. VerifyScript env scriptSig scriptPubKey witness = Some r) \<and>
    (IsPayToScriptHash scriptPubKey \<longrightarrow>
       EvalScript env [] scriptPubKey = Some (Inl SCRIPT_ERR_INVALID_STACK_OPERATION))"
  using VerifyScript_total [OF assms] EvalScript_p2sh_empty by blast

theorem verify_script_never_asserts_witness:
  "\<exists>r. VerifyScript \<lparr>flags = 0x901, checker = base_checker, sigversion = SIGVERSION_BASE, CheckLowS = (\<lambda>_. True)\<rparr>
     [0x51] [0x51] [] = Some r"
  using verify_script_never_asserts
    [of "\<lparr>flags = 0x901, checker = base_checker, sigversion = SIGVERSION_BASE, CheckLowS = (\<lambda>_. True)\<rparr>" "[0x51]" "[0x51]" "[]"]
  by (simp add: has_flag_def)

end
