(* ===== verification/Transaction.thy ===== *)
theory Transaction
  imports Interpreter ConsensusParams
begin

text \<open>
  Transactions, src/src/primitives/transaction.h and transaction.cpp: their data, the two serialization formats, the
  transaction identifiers and the sum of the outputs.  \<open>allow\<close> is \<open>fAllowWitness\<close>, the absence of
  \<open>SERIALIZE_TRANSACTION_NO_WITNESS\<close> from the version of the stream.  The cached hash of a \<open>CTransaction\<close> is a function
  of its other fields, so \<open>CTransaction\<close> and \<open>CMutableTransaction\<close> are one record here.
\<close>

section \<open>Data\<close>

record COutPoint =
  prev_hash :: bytes
  prev_n :: uint32

definition COutPoint_IsNull :: "COutPoint \<Rightarrow> bool" where
  "COutPoint_IsNull p \<longleftrightarrow> blob_IsNull (prev_hash p) \<and> prev_n p = 0xffffffff"

definition COutPoint_less :: "COutPoint \<Rightarrow> COutPoint \<Rightarrow> bool" where
  "COutPoint_less a b =
     (let cmp = memcmp (prev_hash a) (prev_hash b) in cmp < 0 \<or> (cmp = 0 \<and> prev_n a < prev_n b))"

record CTxIn =
  prevout :: COutPoint
  scriptSig :: bytes
  nSequence :: uint32
  scriptWitness :: "bytes list"

definition SEQUENCE_FINAL :: uint32 where "SEQUENCE_FINAL = 0xffffffff"

record CTxOut =
  nValue :: int
  scriptPubKey :: bytes

definition CTxOut_null :: CTxOut where "CTxOut_null = \<lparr>nValue = -1, scriptPubKey = []\<rparr>"

record CTransaction =
  vin :: "CTxIn list"
  vout :: "CTxOut list"
  tx_nVersion :: int
  nLockTime :: uint32

definition HasWitness :: "CTransaction \<Rightarrow> bool" where
  "HasWitness tx \<longleftrightarrow> list_ex (\<lambda>i. scriptWitness i \<noteq> []) (vin tx)"

definition IsCoinBase :: "CTransaction \<Rightarrow> bool" where
  "IsCoinBase tx \<longleftrightarrow> length (vin tx) = 1 \<and> COutPoint_IsNull (prevout (vin tx ! 0))"

section \<open>Serialization\<close>

definition Serialize_COutPoint :: "COutPoint \<Rightarrow> bytes" where
  "Serialize_COutPoint p = prev_hash p @ ser_writedata32 (prev_n p)"

definition Unserialize_COutPoint :: "COutPoint reader" where
  "Unserialize_COutPoint s =
     do { (h, s) \<leftarrow> stream_read 32 s;
          (i, s) \<leftarrow> ser_readdata32 s;
          Some (\<lparr>prev_hash = h, prev_n = i\<rparr>, s) }"

definition Serialize_CTxIn :: "CTxIn \<Rightarrow> bytes" where
  "Serialize_CTxIn i = Serialize_COutPoint (prevout i) @ Serialize_bytes (scriptSig i) @ ser_writedata32 (nSequence i)"

definition Unserialize_CTxIn :: "CTxIn reader" where
  "Unserialize_CTxIn s =
     do { (p, s) \<leftarrow> Unserialize_COutPoint s;
          (g, s) \<leftarrow> Unserialize_bytes s;
          (q, s) \<leftarrow> ser_readdata32 s;
          Some (\<lparr>prevout = p, scriptSig = g, nSequence = q, scriptWitness = []\<rparr>, s) }"

definition Serialize_CTxOut :: "CTxOut \<Rightarrow> bytes" where
  "Serialize_CTxOut out = Serialize_int64 (nValue out) @ Serialize_bytes (scriptPubKey out)"

definition Unserialize_CTxOut :: "CTxOut reader" where
  "Unserialize_CTxOut s =
     do { (v, s) \<leftarrow> Unserialize_int64 s;
          (k, s) \<leftarrow> Unserialize_bytes s;
          Some (\<lparr>nValue = v, scriptPubKey = k\<rparr>, s) }"

definition SerializeTransaction :: "bool \<Rightarrow> CTransaction \<Rightarrow> bytes" where
  "SerializeTransaction allow tx =
     (let flags = allow \<and> HasWitness tx
      in Serialize_int32 (tx_nVersion tx) @
         (if flags then Serialize_vector Serialize_CTxIn [] @ ser_writedata8 1 else []) @
         Serialize_vector Serialize_CTxIn (vin tx) @
         Serialize_vector Serialize_CTxOut (vout tx) @
         (if flags then concat (map (\<lambda>i. Serialize_vector Serialize_bytes (scriptWitness i)) (vin tx)) else []) @
         ser_writedata32 (nLockTime tx))"

fun read_witnesses :: "CTxIn list \<Rightarrow> CTxIn list reader" where
  "read_witnesses [] s = Some ([], s)"
| "read_witnesses (i # is) s =
     do { (w, s) \<leftarrow> Unserialize_vector Unserialize_bytes s;
          (is, s) \<leftarrow> read_witnesses is s;
          Some (i\<lparr>scriptWitness := w\<rparr> # is, s) }"

definition UnserializeTransaction :: "bool \<Rightarrow> CTransaction reader" where
  "UnserializeTransaction allow s =
     do { (ver, s) \<leftarrow> Unserialize_int32 s;
          (ins, s) \<leftarrow> Unserialize_vector Unserialize_CTxIn s;
          (ins, outs, flags, s) \<leftarrow>
            (if ins = [] \<and> allow
             then do { (flags, s) \<leftarrow> ser_readdata8 s;
                       if flags \<noteq> 0
                       then do { (ins, s) \<leftarrow> Unserialize_vector Unserialize_CTxIn s;
                                 (outs, s) \<leftarrow> Unserialize_vector Unserialize_CTxOut s;
                                 Some (ins, outs, flags, s) }
                       else Some (ins, [], flags, s) }
             else do { (outs, s) \<leftarrow> Unserialize_vector Unserialize_CTxOut s; Some (ins, outs, 0, s) });
          (ins, flags, s) \<leftarrow>
            (if flags AND 1 \<noteq> 0 \<and> allow
             then do { (ins, s) \<leftarrow> read_witnesses ins s; Some (ins, flags XOR 1, s) }
             else Some (ins, flags, s));
          assert_opt (flags = 0);
          (lock, s) \<leftarrow> ser_readdata32 s;
          Some (\<lparr>vin = ins, vout = outs, tx_nVersion = ver, nLockTime = lock\<rparr>, s) }"

definition ComputeHash :: "CTransaction \<Rightarrow> bytes" where
  "ComputeHash tx = CHashWriter_GetHash (CHashWriter_write (CHashWriter_new 4 0x40000000) (SerializeTransaction False tx))"

definition GetWitnessHash :: "CTransaction \<Rightarrow> bytes" where
  "GetWitnessHash tx =
     (if \<not> HasWitness tx then ComputeHash tx
      else CHashWriter_GetHash (CHashWriter_write (CHashWriter_new 4 0) (SerializeTransaction True tx)))"

section \<open>Amounts\<close>

definition MAX_MONEY :: int where "MAX_MONEY = 50000000000 * COIN"

definition MoneyRange :: "int \<Rightarrow> bool" where
  "MoneyRange v \<longleftrightarrow> v \<ge> 0 \<and> v \<le> MAX_MONEY"

text \<open>An addition of amounts that leaves 64 bits is undefined, and \<^const>\<open>None\<close>.\<close>

definition add_amount :: "int \<Rightarrow> int \<Rightarrow> int option" where
  "add_amount a b = do { assert_opt (- (2 ^ 63) \<le> a + b \<and> a + b < 2 ^ 63); Some (a + b) }"

text \<open>The left injection is the exception.\<close>

fun value_out_loop :: "bool \<Rightarrow> int \<Rightarrow> CTxOut list \<Rightarrow> (unit + int) option" where
  "value_out_loop enforced nValueOut [] = Some (Inr nValueOut)"
| "value_out_loop enforced nValueOut (out # outs) =
     do { asset \<leftarrow> (if enforced then Some None else IsAssetScript (scriptPubKey out) False);
          if asset \<noteq> None then value_out_loop enforced nValueOut outs
          else do { v \<leftarrow> add_amount nValueOut (nValue out);
                    if \<not> MoneyRange (nValue out) \<or> \<not> MoneyRange v then Some (Inl ())
                    else value_out_loop enforced v outs } }"

definition GetValueOut :: "bool \<Rightarrow> CTransaction \<Rightarrow> (unit + int) option" where
  "GetValueOut enforced tx = value_out_loop enforced 0 (vout tx)"

section \<open>Codecs\<close>

definition valid_outpoint :: "COutPoint \<Rightarrow> bool" where
  "valid_outpoint p \<longleftrightarrow> length (prev_hash p) = 32"

definition valid_txin :: "CTxIn \<Rightarrow> bool" where
  "valid_txin i \<longleftrightarrow> valid_outpoint (prevout i) \<and> length (scriptSig i) \<le> MAX_SIZE"

definition valid_txout :: "CTxOut \<Rightarrow> bool" where
  "valid_txout out \<longleftrightarrow> - (2 ^ 63) \<le> nValue out \<and> nValue out < 2 ^ 63 \<and> length (scriptPubKey out) \<le> MAX_SIZE"

interpretation outpoint_codec: canonical_codec Serialize_COutPoint Unserialize_COutPoint valid_outpoint
proof
  show "Unserialize_COutPoint (Serialize_COutPoint p @ r) = Some (p, r)" if "valid_outpoint p" for p r
    using that by (simp add: valid_outpoint_def Serialize_COutPoint_def Unserialize_COutPoint_def stream_read_eqI u32.unser_ser)
  show "valid_outpoint p \<and> s = Serialize_COutPoint p @ r" if "Unserialize_COutPoint s = Some (p, r)" for s p r
    using that
    by (auto simp: valid_outpoint_def Serialize_COutPoint_def Unserialize_COutPoint_def bind_eq_Some_conv stream_read_Some u32.reads_iff)
qed

interpretation txin_codec: canonical_codec Serialize_CTxIn Unserialize_CTxIn "\<lambda>i. valid_txin i \<and> scriptWitness i = []"
proof
  show "Unserialize_CTxIn (Serialize_CTxIn i @ r) = Some (i, r)" if "valid_txin i \<and> scriptWitness i = []" for i r
    using that
    by (simp add: valid_txin_def Serialize_CTxIn_def Unserialize_CTxIn_def outpoint_codec.unser_ser byte_vector.unser_ser u32.unser_ser)
  show "(valid_txin i \<and> scriptWitness i = []) \<and> s = Serialize_CTxIn i @ r" if "Unserialize_CTxIn s = Some (i, r)" for s i r
    using that
    by (auto simp: valid_txin_def Serialize_CTxIn_def Unserialize_CTxIn_def bind_eq_Some_conv outpoint_codec.reads_iff
      byte_vector.reads_iff u32.reads_iff)
qed

interpretation txout_codec: canonical_codec Serialize_CTxOut Unserialize_CTxOut valid_txout
proof
  show "Unserialize_CTxOut (Serialize_CTxOut out @ r) = Some (out, r)" if "valid_txout out" for out r
    using that by (simp add: valid_txout_def Serialize_CTxOut_def Unserialize_CTxOut_def i64.unser_ser byte_vector.unser_ser)
  show "valid_txout out \<and> s = Serialize_CTxOut out @ r" if "Unserialize_CTxOut s = Some (out, r)" for s out r
    using that
    by (auto simp: valid_txout_def Serialize_CTxOut_def Unserialize_CTxOut_def bind_eq_Some_conv i64.reads_iff byte_vector.reads_iff)
qed

interpretation txins: canonical_codec "Serialize_vector Serialize_CTxIn" "Unserialize_vector Unserialize_CTxIn"
    "\<lambda>xs. length xs \<le> MAX_SIZE \<and> (\<forall>x\<in>set xs. valid_txin x \<and> scriptWitness x = [])"
  by (rule txin_codec.vector_canonical)

interpretation txouts: canonical_codec "Serialize_vector Serialize_CTxOut" "Unserialize_vector Unserialize_CTxOut"
    "\<lambda>xs. length xs \<le> MAX_SIZE \<and> (\<forall>x\<in>set xs. valid_txout x)"
  by (rule txout_codec.vector_canonical)

text \<open>The inputs as the plain part of the format has them, without witnesses.\<close>

definition strip :: "CTxIn \<Rightarrow> CTxIn" where "strip i = i\<lparr>scriptWitness := []\<rparr>"

lemma strip_simps [simp]: "Serialize_CTxIn (strip i) = Serialize_CTxIn i" "scriptWitness (strip i) = []"
  "valid_txin (strip i) = valid_txin i" "(strip i)\<lparr>scriptWitness := scriptWitness i\<rparr> = i"
  by (simp_all add: strip_def Serialize_CTxIn_def valid_txin_def)

lemma strip_id: "scriptWitness i = [] \<Longrightarrow> strip i = i"
  by (simp add: strip_def)

lemma Serialize_strip: "Serialize_vector Serialize_CTxIn (map strip is) = Serialize_vector Serialize_CTxIn is"
  by (simp add: Serialize_vector_def comp_def)

definition valid_witness :: "CTxIn \<Rightarrow> bool" where
  "valid_witness i \<longleftrightarrow> length (scriptWitness i) \<le> MAX_SIZE \<and> (\<forall>x\<in>set (scriptWitness i). length x \<le> MAX_SIZE)"

lemma read_witnesses_ser:
  "\<forall>i\<in>set is. valid_witness i \<Longrightarrow>
   read_witnesses (map strip is) (concat (map (\<lambda>i. Serialize_vector Serialize_bytes (scriptWitness i)) is) @ r) = Some (is, r)"
  by (induction "is") (simp_all add: valid_witness_def byte_vectors.unser_ser)

definition valid_tx :: "CTransaction \<Rightarrow> bool" where
  "valid_tx tx \<longleftrightarrow> - (2 ^ 31) \<le> tx_nVersion tx \<and> tx_nVersion tx < 2 ^ 31 \<and> length (vin tx) \<le> MAX_SIZE \<and> length (vout tx) \<le> MAX_SIZE \<and>
     (\<forall>i\<in>set (vin tx). valid_txin i \<and> valid_witness i) \<and> (\<forall>out\<in>set (vout tx). valid_txout out)"

definition strip_tx :: "CTransaction \<Rightarrow> CTransaction" where
  "strip_tx tx = tx\<lparr>vin := map strip (vin tx)\<rparr>"

lemma Unserialize_strip:
  "valid_tx tx \<Longrightarrow> Unserialize_vector Unserialize_CTxIn (Serialize_vector Serialize_CTxIn (vin tx) @ r) = Some (map strip (vin tx), r)"
  using txins.unser_ser [of "map strip (vin tx)" r] by (auto simp: valid_tx_def Serialize_strip)

lemma no_witness_strip: "\<not> HasWitness tx \<Longrightarrow> strip_tx tx = tx"
proof -
  assume "\<not> HasWitness tx"
  then have "map strip (vin tx) = vin tx" by (auto simp: HasWitness_def list_ex_iff strip_id intro!: map_idI)
  then show ?thesis by (simp add: strip_tx_def)
qed

lemma Unserialize_empty: "Unserialize_vector Unserialize_CTxIn (Serialize_vector Serialize_CTxIn [] @ r) = Some ([], r)"
  using txins.unser_ser [of "[]" r] by (simp add: MAX_SIZE_def)

lemma roundtrip_plain:
  assumes "valid_tx tx" "\<not> allow \<or> \<not> HasWitness tx" "\<not> allow \<or> vin tx \<noteq> []"
  shows "UnserializeTransaction allow (SerializeTransaction allow tx @ r) = Some (strip_tx tx, r)"
proof -
  have v: "- (2 ^ 31) \<le> tx_nVersion tx \<and> tx_nVersion tx < 2 ^ 31" and o: "length (vout tx) \<le> MAX_SIZE \<and> (\<forall>out\<in>set (vout tx). valid_txout out)"
    using assms(1) by (simp_all add: valid_tx_def)
  have "\<not> (allow \<and> HasWitness tx)" "\<not> (map strip (vin tx) = [] \<and> allow)" using assms(2,3) by auto
  then show ?thesis
    unfolding UnserializeTransaction_def SerializeTransaction_def Let_def
    by (simp only: if_False append.simps append_assoc i32.unser_ser [OF v] Option.bind.simps prod.case Unserialize_strip [OF assms(1)]
      txouts.unser_ser [OF o]) (simp add: strip_tx_def u32.unser_ser)
qed

lemma roundtrip_witness:
  assumes "valid_tx tx" "HasWitness tx"
  shows "UnserializeTransaction True (SerializeTransaction True tx @ r) = Some (tx, r)"
proof -
  have v: "- (2 ^ 31) \<le> tx_nVersion tx \<and> tx_nVersion tx < 2 ^ 31" and o: "length (vout tx) \<le> MAX_SIZE \<and> (\<forall>out\<in>set (vout tx). valid_txout out)"
    and w: "\<forall>i\<in>set (vin tx). valid_witness i"
    using assms(1) by (simp_all add: valid_tx_def)
  show ?thesis
    unfolding UnserializeTransaction_def SerializeTransaction_def Let_def
    by (simp add: assms(2) i32.unser_ser [OF v] Unserialize_empty u8.unser_ser Unserialize_strip [OF assms(1)]
      txouts.unser_ser [OF o] u32.unser_ser read_witnesses_ser [OF w])
qed

section \<open>Sums of outputs\<close>

lemma value_out_loop_enforced:
  assumes "MoneyRange acc" "\<forall>out\<in>set outs. - (2 ^ 63) \<le> nValue out \<and> nValue out < 2 ^ 63"
    and "value_out_loop True acc outs = Some (Inr v)"
  shows "v = acc + sum_list (map nValue outs) \<and> MoneyRange v \<and> (\<forall>out\<in>set outs. MoneyRange (nValue out))"
  using assms
proof (induction outs arbitrary: acc)
  case (Cons out outs)
  then have "add_amount acc (nValue out) = Some (acc + nValue out)" "MoneyRange (nValue out)" "MoneyRange (acc + nValue out)"
      "value_out_loop True (acc + nValue out) outs = Some (Inr v)"
    by (auto simp: add_amount_def bind_eq_Some_conv split: if_splits)
  with Cons.IH [of "acc + nValue out"] Cons.prems(2) show ?case by auto
qed simp

lemma value_out_two:
  "MoneyRange a \<Longrightarrow> value_out_loop True 0 [\<lparr>nValue = a, scriptPubKey = p\<rparr>, \<lparr>nValue = b, scriptPubKey = q\<rparr>] =
    Option.bind (add_amount a b) (\<lambda>v. if \<not> MoneyRange b \<or> \<not> MoneyRange v then Some (Inl ()) else Some (Inr v))"
  by (auto simp: add_amount_def MoneyRange_def MAX_MONEY_def COIN_def)

lemma read_witnesses_valid:
  "read_witnesses is s = Some (is', r) \<Longrightarrow>
   length is' = length is \<and> (\<forall>i\<in>set is'. valid_witness i) \<and> map strip is' = map strip is"
proof (induction "is" arbitrary: s is')
  case (Cons i "is")
  then obtain w s1 js where w: "Unserialize_vector Unserialize_bytes s = Some (w, s1)" and js: "read_witnesses is s1 = Some (js, r)"
      and is': "is' = i\<lparr>scriptWitness := w\<rparr> # js"
    by (auto simp: bind_eq_Some_conv)
  have "valid_witness (i\<lparr>scriptWitness := w\<rparr>)" using byte_vectors.ser_unser [OF w] by (simp add: valid_witness_def)
  then show ?case using Cons.IH [OF js] by (simp add: is' strip_def)
qed simp

lemma valid_txin_strip: "map strip is' = map strip is \<Longrightarrow> \<forall>i\<in>set is. valid_txin i \<Longrightarrow> \<forall>i\<in>set is'. valid_txin i"
proof
  fix i assume "map strip is' = map strip is" "\<forall>i\<in>set is. valid_txin i" "i \<in> set is'"
  then have "strip i \<in> strip ` set is" by (metis image_eqI image_set)
  then show "valid_txin i" using \<open>\<forall>i\<in>set is. valid_txin i\<close> by (metis imageE strip_simps(3))
qed

lemma read_witnesses_length: "read_witnesses is s = Some (is', r) \<Longrightarrow> length is' = length is"
  using read_witnesses_valid by blast

lemma read_witnesses_in:
  "read_witnesses is s = Some (is', r) \<Longrightarrow> i \<in> set is' \<Longrightarrow> \<forall>x\<in>set is. valid_txin x \<and> scriptWitness x = [] \<Longrightarrow>
   valid_txin i \<and> valid_witness i"
  using read_witnesses_valid valid_txin_strip by metis

lemma valid_witness_empty: "scriptWitness i = [] \<Longrightarrow> valid_witness i"
  by (simp add: valid_witness_def)

section \<open>Properties\<close>

text \<open>
  C35.  A transaction is read back from what is written, whatever follows it in the stream.  Without witnesses in the
  stream they are lost; with them, the inputs must not be empty, because a transaction without inputs looks like the
  marker of the extended format.
\<close>
theorem transaction_roundtrip:
  assumes "valid_tx tx" "vin tx \<noteq> [] \<or> \<not> allow"
  shows "UnserializeTransaction allow (SerializeTransaction allow tx @ r) = Some (if allow then tx else strip_tx tx, r)"
proof (cases "allow \<and> HasWitness tx")
  case True
  then show ?thesis using roundtrip_witness [OF assms(1), of r] by simp
next
  case False
  then show ?thesis using roundtrip_plain [OF assms(1), of allow r] assms(2) no_witness_strip [of tx] by auto
qed

theorem transaction_roundtrip_witness:
  "let i = \<lparr>prevout = \<lparr>prev_hash = replicate 32 7, prev_n = 1\<rparr>, scriptSig = [0x51], nSequence = 5, scriptWitness = [[1, 2]]\<rparr>;
       tx = \<lparr>vin = [i], vout = [\<lparr>nValue = 9, scriptPubKey = [0x51]\<rparr>], tx_nVersion = 2, nLockTime = 0\<rparr>
   in UnserializeTransaction True (SerializeTransaction True tx @ [1]) = Some (tx, [1])"
  using transaction_roundtrip [of "\<lparr>vin = [\<lparr>prevout = \<lparr>prev_hash = replicate 32 7, prev_n = 1\<rparr>, scriptSig = [0x51], nSequence = 5,
      scriptWitness = [[1, 2]]\<rparr>], vout = [\<lparr>nValue = 9, scriptPubKey = [0x51]\<rparr>], tx_nVersion = 2, nLockTime = 0\<rparr>" True "[1]"]
  by (simp add: Let_def valid_tx_def valid_txin_def valid_outpoint_def valid_txout_def valid_witness_def MAX_SIZE_def)

text \<open>
  C36.  Whatever bytes arrive, a transaction that is read from them is well formed: its version and its amounts fit
  their width, every previous hash has 32 bytes, and every list and string is within the size limit; a stream without
  witnesses gives a transaction without witnesses.
\<close>
theorem transaction_read_valid:
  assumes "UnserializeTransaction allow s = Some (tx, r)"
  shows "valid_tx tx \<and> (HasWitness tx \<longrightarrow> allow)"
proof -
  show ?thesis
    using assms unfolding UnserializeTransaction_def
    by (auto simp: bind_eq_Some_conv valid_tx_def HasWitness_def list_ex_iff valid_witness_empty split: if_splits
      dest!: i32.ser_unser txins.ser_unser txouts.ser_unser dest: read_witnesses_length read_witnesses_in)
qed

theorem transaction_read_valid_witness:
  "valid_tx (strip_tx \<lparr>vin = [], vout = [\<lparr>nValue = 5, scriptPubKey = [0x51]\<rparr>], tx_nVersion = 1, nLockTime = 0\<rparr>)"
  by (rule transaction_read_valid [OF roundtrip_plain [where allow = False and r = "[]"], THEN conjunct1])
    (simp_all add: valid_tx_def valid_txout_def MAX_SIZE_def)

text \<open>
  C39.  With enforced values, a sum that \<open>GetValueOut\<close> returns is the exact sum of the outputs, and it and every output are
  in the range of money.  But the addition comes before the test: since \<open>MAX_MONEY\<close> is more than half of the largest
  64-bit amount, two outputs in the range can overflow, which has no defined result.
\<close>
theorem value_out_exact_or_overflow:
  assumes "\<forall>out\<in>set (vout tx). - (2 ^ 63) \<le> nValue out \<and> nValue out < 2 ^ 63"
  shows "(GetValueOut True tx = Some (Inr v) \<longrightarrow>
      v = sum_list (map nValue (vout tx)) \<and> MoneyRange v \<and> (\<forall>out\<in>set (vout tx). MoneyRange (nValue out))) \<and>
    (vout tx = [\<lparr>nValue = MAX_MONEY, scriptPubKey = p\<rparr>, \<lparr>nValue = MAX_MONEY, scriptPubKey = q\<rparr>] \<longrightarrow> GetValueOut True tx = None)"
proof (rule conjI [OF impI impI])
  assume "GetValueOut True tx = Some (Inr v)"
  then show "v = sum_list (map nValue (vout tx)) \<and> MoneyRange v \<and> (\<forall>out\<in>set (vout tx). MoneyRange (nValue out))"
    using value_out_loop_enforced [of 0 "vout tx" v] assms by (simp add: GetValueOut_def MoneyRange_def MAX_MONEY_def COIN_def)
next
  assume "vout tx = [\<lparr>nValue = MAX_MONEY, scriptPubKey = p\<rparr>, \<lparr>nValue = MAX_MONEY, scriptPubKey = q\<rparr>]"
  then show "GetValueOut True tx = None"
    using value_out_two [of MAX_MONEY p MAX_MONEY q]
    by (simp add: GetValueOut_def add_amount_def MoneyRange_def MAX_MONEY_def COIN_def del: value_out_loop.simps)
qed

theorem value_out_exact_or_overflow_witness:
  "GetValueOut True \<lparr>vin = [], vout = [\<lparr>nValue = MAX_MONEY, scriptPubKey = []\<rparr>, \<lparr>nValue = MAX_MONEY, scriptPubKey = []\<rparr>],
     tx_nVersion = 1, nLockTime = 0\<rparr> = None"
  using value_out_exact_or_overflow [of "\<lparr>vin = [], vout = [\<lparr>nValue = MAX_MONEY, scriptPubKey = []\<rparr>, \<lparr>nValue = MAX_MONEY, scriptPubKey = []\<rparr>],
     tx_nVersion = 1, nLockTime = 0\<rparr>" 0 "[]" "[]"]
  by (simp add: MAX_MONEY_def COIN_def)

end
