(* ===== verification/TxVerify.thy ===== *)
theory TxVerify
  imports Transaction BlockIndex
begin

text \<open>
  Lock times of transactions, src/src/consensus/tx_verify.cpp: the absolute lock of \<open>nLockTime\<close> (\<open>IsFinalTx\<close>), the
  relative locks of the sequence numbers (BIP 68, \<open>SequenceLocks\<close>) over the block index, and the count of signature
  operations.  A null result of \<open>GetAncestor\<close> that is dereferenced is \<^const>\<open>None\<close>.
\<close>

section \<open>Definitions\<close>

definition SEQUENCE_LOCKTIME_TYPE_FLAG :: int where "SEQUENCE_LOCKTIME_TYPE_FLAG = 2 ^ 22"

definition SEQUENCE_LOCKTIME_MASK :: int where "SEQUENCE_LOCKTIME_MASK = 0x0000ffff"

definition SEQUENCE_LOCKTIME_GRANULARITY :: nat where "SEQUENCE_LOCKTIME_GRANULARITY = 9"

definition LOCKTIME_VERIFY_SEQUENCE :: int where "LOCKTIME_VERIFY_SEQUENCE = 1"

definition IsFinalTx :: "CTransaction \<Rightarrow> int \<Rightarrow> int \<Rightarrow> bool" where
  "IsFinalTx tx nBlockHeight nBlockTime =
     (if nLockTime tx = 0 then True
      else if uint (nLockTime tx) < (if uint (nLockTime tx) < LOCKTIME_THRESHOLD then nBlockHeight else nBlockTime) then True
      else list_all (\<lambda>txin. nSequence txin = SEQUENCE_FINAL) (vin tx))"

definition sequence_bit :: "uint32 \<Rightarrow> int \<Rightarrow> bool" where
  "sequence_bit q m \<longleftrightarrow> uint q AND m \<noteq> 0"

definition sequence_seconds :: "uint32 \<Rightarrow> int" where
  "sequence_seconds q = uint (push_bit SEQUENCE_LOCKTIME_GRANULARITY (q AND word_of_int SEQUENCE_LOCKTIME_MASK))"

definition sequence_blocks :: "uint32 \<Rightarrow> int" where
  "sequence_blocks q = uint (q AND word_of_int SEQUENCE_LOCKTIME_MASK)"

text \<open>The loop over the inputs and the heights of their coins; the third result is the updated \<open>prevHeights\<close>.\<close>

fun sequence_locks_loop :: "arena \<Rightarrow> ptr \<Rightarrow> CTxIn list \<Rightarrow> int list \<Rightarrow> int \<Rightarrow> int \<Rightarrow> (int \<times> int \<times> int list) option" where
  "sequence_locks_loop A block (txin # ins) (nCoinHeight # prevHeights) nMinHeight nMinTime =
     (if sequence_bit (nSequence txin) SEQUENCE_LOCKTIME_DISABLE_FLAG
      then do { (h, t, hs) \<leftarrow> sequence_locks_loop A block ins prevHeights nMinHeight nMinTime; Some (h, t, 0 # hs) }
      else if sequence_bit (nSequence txin) SEQUENCE_LOCKTIME_TYPE_FLAG
      then do { anc \<leftarrow> GetAncestor A block (max (nCoinHeight - 1) 0);
                p \<leftarrow> anc;
                nCoinTime \<leftarrow> GetMedianTimePast A p;
                (h, t, hs) \<leftarrow> sequence_locks_loop A block ins prevHeights nMinHeight
                  (max nMinTime (nCoinTime + sequence_seconds (nSequence txin) - 1));
                Some (h, t, nCoinHeight # hs) }
      else do { (h, t, hs) \<leftarrow> sequence_locks_loop A block ins prevHeights
                  (max nMinHeight (nCoinHeight + sequence_blocks (nSequence txin) - 1)) nMinTime;
                Some (h, t, nCoinHeight # hs) })"
| "sequence_locks_loop A block _ prevHeights nMinHeight nMinTime = Some (nMinHeight, nMinTime, prevHeights)"

definition CalculateSequenceLocks ::
    "arena \<Rightarrow> CTransaction \<Rightarrow> int \<Rightarrow> int list \<Rightarrow> ptr \<Rightarrow> (int \<times> int \<times> int list) option" where
  "CalculateSequenceLocks A tx nflags prevHeights block =
     do { assert_opt (length prevHeights = length (vin tx));
          let fEnforceBIP68 = (uint (word_of_int (tx_nVersion tx) :: uint32) \<ge> 2 \<and> nflags AND LOCKTIME_VERIFY_SEQUENCE \<noteq> 0)
          in if \<not> fEnforceBIP68 then Some (-1, -1, prevHeights)
             else sequence_locks_loop A block (vin tx) prevHeights (-1) (-1) }"

definition EvaluateSequenceLocks :: "arena \<Rightarrow> ptr \<Rightarrow> int \<times> int \<Rightarrow> bool option" where
  "EvaluateSequenceLocks A block lockPair =
     do { b \<leftarrow> A block;
          q \<leftarrow> pprev b;
          nBlockTime \<leftarrow> GetMedianTimePast A q;
          Some (if fst lockPair \<ge> nHeight b \<or> snd lockPair \<ge> nBlockTime then False else True) }"

definition SequenceLocks :: "arena \<Rightarrow> CTransaction \<Rightarrow> int \<Rightarrow> int list \<Rightarrow> ptr \<Rightarrow> (bool \<times> int list) option" where
  "SequenceLocks A tx nflags prevHeights block =
     do { (h, t, hs) \<leftarrow> CalculateSequenceLocks A tx nflags prevHeights block;
          ok \<leftarrow> EvaluateSequenceLocks A block (h, t);
          Some (ok, hs) }"

definition GetLegacySigOpCount :: "CTransaction \<Rightarrow> nat" where
  "GetLegacySigOpCount tx =
     (let nSigOps = foldl (\<lambda>n txin. n + GetSigOpCount (scriptSig txin) False) 0 (vin tx)
      in foldl (\<lambda>n txout. n + GetSigOpCount (scriptPubKey txout) False) nSigOps (vout tx))"

section \<open>Relative locks\<close>

text \<open>
  The reference: the lock of one input, in seconds after the median time of the block before its coin's or in blocks
  after it, has passed.
\<close>

definition lock_passed :: "arena \<Rightarrow> ptr \<Rightarrow> int \<Rightarrow> int \<Rightarrow> CTxIn \<Rightarrow> int \<Rightarrow> bool" where
  "lock_passed A block height time i coin \<longleftrightarrow>
     (if sequence_bit (nSequence i) SEQUENCE_LOCKTIME_DISABLE_FLAG then True
      else if sequence_bit (nSequence i) SEQUENCE_LOCKTIME_TYPE_FLAG
      then (case GetAncestor A block (max (coin - 1) 0) of
              Some (Some p) \<Rightarrow> (case GetMedianTimePast A p of Some m \<Rightarrow> m + 512 * (uint (nSequence i) mod 2 ^ 16) \<le> time | None \<Rightarrow> False)
            | _ \<Rightarrow> False)
      else coin + uint (nSequence i) mod 2 ^ 16 \<le> height)"

lemma sequence_blocks_mod: "sequence_blocks q = uint q mod 2 ^ 16"
proof -
  have "q AND word_of_int SEQUENCE_LOCKTIME_MASK = take_bit 16 q"
    by (simp add: SEQUENCE_LOCKTIME_MASK_def take_bit_eq_mask mask_numeral)
  then show ?thesis unfolding sequence_blocks_def using uint_take_bit_eq [of 16 q] by simp
qed

lemma sequence_seconds_mult: "sequence_seconds q = 512 * (uint q mod 2 ^ 16)"
proof -
  have "uint q mod 2 ^ 16 < 65536" "0 \<le> uint q mod 2 ^ 16" by simp_all
  then show ?thesis
    unfolding sequence_seconds_def SEQUENCE_LOCKTIME_GRANULARITY_def uint_push_bit_eq sequence_blocks_mod [unfolded sequence_blocks_def]
    by simp
qed

lemma sequence_locks_loop_iff:
  assumes "length is = length cs" "sequence_locks_loop A block is cs h0 t0 = Some (h, t, hs)"
  shows "(h < height \<and> t < time) \<longleftrightarrow>
    h0 < height \<and> t0 < time \<and> (\<forall>(i, c) \<in> set (zip is cs). lock_passed A block height time i c)"
  using assms
proof (induction "is" cs arbitrary: h0 t0 h t hs rule: list_induct2)
  case Nil
  then show ?case by simp
next
  case (Cons i "is" c cs)
  let ?q = "nSequence i"
  consider (off) "sequence_bit ?q SEQUENCE_LOCKTIME_DISABLE_FLAG"
    | (time) p m where "\<not> sequence_bit ?q SEQUENCE_LOCKTIME_DISABLE_FLAG" "sequence_bit ?q SEQUENCE_LOCKTIME_TYPE_FLAG"
        "GetAncestor A block (max (c - 1) 0) = Some (Some p)" "GetMedianTimePast A p = Some m"
    | (blocks) "\<not> sequence_bit ?q SEQUENCE_LOCKTIME_DISABLE_FLAG" "\<not> sequence_bit ?q SEQUENCE_LOCKTIME_TYPE_FLAG"
    using Cons.prems by (auto simp: bind_eq_Some_conv split: if_splits)
  then show ?case
  proof cases
    case off
    then obtain hs' where "sequence_locks_loop A block is cs h0 t0 = Some (h, t, hs')"
      using Cons.prems by (auto simp: bind_eq_Some_conv)
    from Cons.IH [OF this] off show ?thesis by (simp add: lock_passed_def)
  next
    case time
    then obtain hs' where "sequence_locks_loop A block is cs h0 (max t0 (m + sequence_seconds ?q - 1)) = Some (h, t, hs')"
      using Cons.prems by (auto simp: bind_eq_Some_conv)
    from Cons.IH [OF this] time show ?thesis by (auto simp: lock_passed_def sequence_seconds_mult)
  next
    case blocks
    then obtain hs' where "sequence_locks_loop A block is cs (max h0 (c + sequence_blocks ?q - 1)) t0 = Some (h, t, hs')"
      using Cons.prems by (auto simp: bind_eq_Some_conv)
    from Cons.IH [OF this] blocks show ?thesis by (auto simp: lock_passed_def sequence_blocks_mod)
  qed
qed

section \<open>Properties\<close>

text \<open>
  C37.  The relative locks of a transaction that enforces BIP 68 hold in a block exactly if the lock of each input by
  itself has passed: taking the maximum over the inputs and the last invalid height and time loses nothing.
\<close>
theorem sequence_locks_iff:
  assumes "SequenceLocks A tx nflags prevHeights block = Some (ok, hs)" "A block = Some b" "pprev b = Some q"
    and "GetMedianTimePast A q = Some m" "0 \<le> nHeight b" "0 \<le> m"
    and "2 \<le> tx_nVersion tx" "tx_nVersion tx < 2 ^ 31" "nflags AND LOCKTIME_VERIFY_SEQUENCE \<noteq> 0"
  shows "ok \<longleftrightarrow> (\<forall>(i, c) \<in> set (zip (vin tx) prevHeights). lock_passed A block (nHeight b) m i c)"
proof -
  have "uint (word_of_int (tx_nVersion tx) :: uint32) = tx_nVersion tx"
    using assms(7,8) by (simp add: uint_word_of_int)
  then obtain h t where l: "length (vin tx) = length prevHeights" "sequence_locks_loop A block (vin tx) prevHeights (-1) (-1) = Some (h, t, hs)"
      and ok: "ok = (h < nHeight b \<and> t < m)"
    using assms by (auto simp: SequenceLocks_def CalculateSequenceLocks_def EvaluateSequenceLocks_def bind_eq_Some_conv Let_def split: if_splits)
  show ?thesis unfolding ok sequence_locks_loop_iff [OF l] using assms(5,6) by simp
qed

theorem sequence_locks_iff_witness:
  "lock_passed (blockArena sample_tree) 2 2 160
     \<lparr>prevout = \<lparr>prev_hash = replicate 32 7, prev_n = 0\<rparr>, scriptSig = [], nSequence = 1, scriptWitness = []\<rparr> 1"
proof -
  let ?i = "\<lparr>prevout = \<lparr>prev_hash = replicate 32 7, prev_n = 0\<rparr>, scriptSig = [], nSequence = 1, scriptWitness = []\<rparr>"
  let ?tx = "\<lparr>vin = [?i], vout = [], tx_nVersion = 2, nLockTime = 0\<rparr>"
  obtain b where b: "blockArena sample_tree 2 = Some b" "pprev b = Some 1" "nHeight b = 2"
    using sample_tree_facts(2) by auto
  have "SequenceLocks (blockArena sample_tree) ?tx 1 [1] 2 = Some (True, [1])"
    using b sample_tree_facts(3)
    by (simp add: SequenceLocks_def CalculateSequenceLocks_def EvaluateSequenceLocks_def LOCKTIME_VERIFY_SEQUENCE_def sequence_bit_def
      SEQUENCE_LOCKTIME_DISABLE_FLAG_def SEQUENCE_LOCKTIME_TYPE_FLAG_def sequence_blocks_mod)
  from sequence_locks_iff [OF this b(1,2) sample_tree_facts(3)] b(3) show ?thesis
    by (simp add: LOCKTIME_VERIFY_SEQUENCE_def)
qed



end
