(* ===== verification/Spending.thy ===== *)
theory Spending
  imports Interpreter "HOL-Library.Sublist"
begin

text \<open>
  What the usual scripts mean: a pay-to-public-key-hash script accepts a signature and a key exactly if the key has
  the hash and the signature checks, and the loop of \<open>OP_CHECKMULTISIG\<close>, which stops as soon as fewer keys than
  signatures are left, succeeds exactly if the signatures can be matched to keys in order.
\<close>

section \<open>Pay to public key hash\<close>

lemma eval_loop_instr:
  assumes "GetOp2 pc = (True, opcode, vch, pc')" "length vch \<le> MAX_SCRIPT_ELEMENT_SIZE" "\<not> disabled_opcode opcode"
    and "s0 = (if opcode > OP_16 then s\<lparr>nOps := nOps s + 1\<rparr> else s)" "nOps s0 \<le> MAX_OPS_PER_SCRIPT"
    and "eval_instr env opcode vch pc' s0 = Some (Inr s')" "length (stk s') + length (altstk s') \<le> MAX_STACK_SIZE"
  shows "eval_loop env pc s = eval_loop env pc' s'"
proof -
  have "pc \<noteq> []" using GetOp2_length [OF assms(1)] by auto
  moreover have "eval_step env pc s = Some (Inr (s', pc'))"
    using assms by (simp add: eval_step_def check_size_def Let_def)
  ultimately show ?thesis by (subst eval_loop.simps) simp
qed

lemma eval_loop_instr_error:
  assumes "GetOp2 pc = (True, opcode, vch, pc')" "length vch \<le> MAX_SCRIPT_ELEMENT_SIZE" "\<not> disabled_opcode opcode"
    and "s0 = (if opcode > OP_16 then s\<lparr>nOps := nOps s + 1\<rparr> else s)" "nOps s0 \<le> MAX_OPS_PER_SCRIPT"
    and "eval_instr env opcode vch pc' s0 = Some (Inl e)"
  shows "eval_loop env pc s = Some (Inl e)"
proof -
  have "pc \<noteq> []" using GetOp2_length [OF assms(1)] by auto
  moreover have "eval_step env pc s = Some (Inl e)"
    using assms by (simp add: eval_step_def check_size_def Let_def)
  ultimately show ?thesis by (subst eval_loop.simps) simp
qed

lemmas eval_limits = MAX_SCRIPT_ELEMENT_SIZE_def MAX_OPS_PER_SCRIPT_def MAX_STACK_SIZE_def disabled_opcode_def
lemmas eval_defs = eval_instr_def exec_op_def plain_stack_op_def on_stack_def Let_def

definition p2pkh_script :: "bytes \<Rightarrow> bytes" where
  "p2pkh_script h = [of_nat OP_DUP, of_nat OP_HASH160, 20] @ h @ [of_nat OP_EQUALVERIFY, of_nat OP_CHECKSIG]"

lemma p2pkh_index: "i < 25 \<Longrightarrow> i < 3 \<or> (\<exists>j. i = j + 3 \<and> j < 20) \<or> i = 23 \<or> i = (24 :: nat)"
  by presburger

lemma IsPayToPublicKeyHash_iff: "IsPayToPublicKeyHash s \<longleftrightarrow> (\<exists>h. length h = 20 \<and> s = p2pkh_script h)"
proof
  assume p: "IsPayToPublicKeyHash s"
  then have l: "length s = 25" by (simp add: IsPayToPublicKeyHash_def)
  define h where "h = take 20 (drop 3 s)"
  have "s = p2pkh_script h"
  proof (rule nth_equalityI)
    show "length s = length (p2pkh_script h)" using l by (simp add: p2pkh_script_def h_def)
    fix i assume "i < length s"
    then consider "i < 3" | j where "i = j + 3" "j < 20" | "i = 23" | "i = 24"
      using l p2pkh_index [of i] by auto
    then show "s ! i = p2pkh_script h ! i"
    proof cases
      case 1
      then have "i = 0 \<or> i = 1 \<or> i = 2" by linarith
      then show ?thesis using p by (auto simp: p2pkh_script_def IsPayToPublicKeyHash_def word_unat_eq_iff)
    next
      case 2
      then show ?thesis using l by (simp add: p2pkh_script_def h_def nth_append numeral_3_eq_3)
    next
      case 3
      then show ?thesis using p l by (simp add: p2pkh_script_def h_def nth_append IsPayToPublicKeyHash_def word_unat_eq_iff)
    next
      case 4
      then show ?thesis using p l by (simp add: p2pkh_script_def h_def nth_append IsPayToPublicKeyHash_def word_unat_eq_iff)
    qed
  qed
  then show "\<exists>h. length h = 20 \<and> s = p2pkh_script h" using l by (intro exI [of _ h]) (simp add: h_def)
next
  assume "\<exists>h. length h = 20 \<and> s = p2pkh_script h"
  then show "IsPayToPublicKeyHash s" by (auto simp: IsPayToPublicKeyHash_def p2pkh_script_def nth_append)
qed

lemma EvalScript_p2pkh:
  assumes h: "length h = 20"
  shows "EvalScript env [pk, sig] (p2pkh_script h) =
    (if Hash160 pk = h
     then Some (op_checksig env (p2pkh_script h) False [pk, sig])
     else Some (Inl SCRIPT_ERR_EQUALVERIFY))"
proof -
  let ?sc = "p2pkh_script h"
  define s where "s st n = \<lparr>stk = st, altstk = [], vfExec = [], nOps = n, codehash = ?sc\<rparr>" for st n
  let ?t1 = "of_nat OP_HASH160 # 20 # h @ [of_nat OP_EQUALVERIFY, of_nat OP_CHECKSIG] :: bytes"
  let ?t2 = "20 # h @ [of_nat OP_EQUALVERIFY, of_nat OP_CHECKSIG] :: bytes"
  let ?t3 = "[of_nat OP_EQUALVERIFY, of_nat OP_CHECKSIG] :: bytes"
  have 1: "eval_loop env ?sc (s [pk, sig] 0) = eval_loop env ?t1 (s [pk, pk, sig] 1)"
    by (rule eval_loop_instr [where opcode = OP_DUP and vch = "[]", OF _ _ _ refl])
      (simp_all add: p2pkh_script_def GetOp2_def eval_limits eval_defs s_def)
  have 2: "eval_loop env ?t1 (s [pk, pk, sig] 1) = eval_loop env ?t2 (s [Hash160 pk, pk, sig] 2)"
    by (rule eval_loop_instr [where opcode = OP_HASH160 and vch = "[]", OF _ _ _ refl])
      (simp_all add: GetOp2_def eval_limits eval_defs s_def op_hash_eq del: op_hash.simps(2))
  have 3: "eval_loop env ?t2 (s [Hash160 pk, pk, sig] 2) = eval_loop env ?t3 (s [h, Hash160 pk, pk, sig] 2)"
    using h by (intro eval_loop_instr [where opcode = 20 and vch = h, OF _ _ _ refl])
      (simp_all add: GetOp2_def push_size_def eval_limits eval_defs s_def CheckMinimalPush_def)
  have 4: "eval_loop env ?t3 (s [h, Hash160 pk, pk, sig] 2) =
      (if Hash160 pk = h then eval_loop env [of_nat OP_CHECKSIG] (s [pk, sig] 3) else Some (Inl SCRIPT_ERR_EQUALVERIFY))"
  proof (cases "Hash160 pk = h")
    case True
    then show ?thesis
      unfolding if_P [OF True] by (intro eval_loop_instr [where opcode = OP_EQUALVERIFY and vch = "[]", OF _ _ _ refl]) (simp_all add: GetOp2_def eval_limits eval_defs s_def)
  next
    case False
    then show ?thesis
      unfolding if_not_P [OF False] by (intro eval_loop_instr_error [where opcode = OP_EQUALVERIFY and vch = "[]", OF _ _ _ refl]) (simp_all add: GetOp2_def eval_limits eval_defs s_def)
  qed
  have 5: "eval_loop env [of_nat OP_CHECKSIG] (s [pk, sig] 3) =
      Some (case op_checksig env ?sc False [pk, sig] of Inl e \<Rightarrow> Inl e | Inr st \<Rightarrow> Inr (s st 4))"
  proof (cases "op_checksig env ?sc False [pk, sig]")
    case (Inl e)
    then show ?thesis
      by (simp only: sum.case, intro eval_loop_instr_error [where opcode = OP_CHECKSIG and vch = "[]", OF _ _ _ refl])
        (simp_all add: GetOp2_def eval_limits eval_defs s_def del: op_checksig.simps)
  next
    case (Inr st)
    have "length st = 1" using Inr by (auto simp: Let_def split: option.splits if_splits)
    then have "eval_loop env [of_nat OP_CHECKSIG] (s [pk, sig] 3) = eval_loop env [] (s st 4)"
      using Inr by (intro eval_loop_instr [where opcode = OP_CHECKSIG and vch = "[]", OF _ _ _ refl])
        (simp_all add: GetOp2_def eval_limits eval_defs s_def del: op_checksig.simps)
    then show ?thesis using Inr by (simp add: eval_loop.simps [of _ "[]"] del: op_checksig.simps)
  qed
  have "length ?sc \<le> MAX_SCRIPT_SIZE" using h by (simp add: p2pkh_script_def MAX_SCRIPT_SIZE_def)
  moreover have "eval_loop env ?sc (s [pk, sig] 0) =
      (if Hash160 pk = h then Some (case op_checksig env ?sc False [pk, sig] of Inl e \<Rightarrow> Inl e | Inr st \<Rightarrow> Inr (s st 4))
       else Some (Inl SCRIPT_ERR_EQUALVERIFY))"
    unfolding 1 2 3 4 5 ..
  ultimately show ?thesis
    unfolding EvalScript_def s_def [symmetric]
    by (cases "op_checksig env ?sc False [pk, sig]"; cases "Hash160 pk = h") (simp_all add: s_def del: op_checksig.simps)
qed

lemma EvalScript_p2pkh_iff:
  assumes "IsPayToPublicKeyHash s"
  shows "EvalScript env [pk, sig] s = Some (Inr [vchTrue]) \<longleftrightarrow>
    Hash160 pk = take 20 (drop 3 s) \<and> CheckSignatureEncoding env sig = None \<and> CheckPubKeyEncoding env pk = None \<and>
    (\<exists>code. drop_signature (sigversion env) s sig = Some code \<and> CheckSig (checker env) sig pk code (sigversion env))"
proof -
  from assms obtain h where h: "length h = 20" and s: "s = p2pkh_script h" by (auto simp: IsPayToPublicKeyHash_iff)
  have t: "take 20 (drop 3 s) = h" using h by (simp add: s p2pkh_script_def)
  show ?thesis
    unfolding t unfolding s EvalScript_p2pkh [OF h]
    by (auto simp: Let_def vchTrue_def vchFalse_def split: option.splits)
qed

text \<open>No push of another length than 20 occurs in the script, so nothing is removed from it.\<close>

lemma delete_loop_skip:
  assumes "b \<noteq> []" "hd pc \<noteq> hd b" "GetOp2 pc = (True, opcode, v, pc')" "\<forall>r p. snd (snd (delete_loop b r p pc' 0)) = 0"
  shows "\<forall>r p. snd (snd (delete_loop b r p pc 0)) = 0"
proof -
  have "pc \<noteq> []" using GetOp2_length [OF assms(3)] by auto
  then have "take (length b) pc \<noteq> b" using assms(1,2) by (cases b; cases pc) auto
  then have "skip_matches b pc 0 = (pc, 0)" by (simp add: skip_matches.simps)
  then show ?thesis using assms(3,4) by (subst delete_loop.simps) (simp add: Let_def)
qed

lemma delete_loop_end: "b \<noteq> [] \<Longrightarrow> \<forall>r p. snd (snd (delete_loop b r p [] 0)) = 0"
  by (subst delete_loop.simps) (simp add: Let_def skip_matches.simps GetOp2_def)

lemma push_data_head: "push_data v = Some b \<Longrightarrow> b \<noteq> [] \<and> (unat (hd b) < 76 \<and> unat (hd b) = length v \<or> unat (hd b) \<in> {76, 77, 78})"
  by (auto simp: push_data_def unat_of_nat split: if_splits)

lemma FindAndDelete_p2pkh:
  assumes "length h = 20" "push_data v = Some b" "length v \<noteq> 20"
  shows "FindAndDelete (p2pkh_script h) b = (p2pkh_script h, 0)"
proof -
  have b: "b \<noteq> []" and hd: "unat (hd b) \<notin> {20, 118, 136, 169, 172}" using push_data_head [OF assms(2)] assms(3) by auto
  have n: "hd b \<noteq> 20" "hd b \<noteq> 118" "hd b \<noteq> 136" "hd b \<noteq> 169" "hd b \<noteq> 172" using hd by auto
  note skip = delete_loop_skip [OF b]
  have 5: "\<forall>r p. snd (snd (delete_loop b r p [of_nat OP_CHECKSIG] 0)) = 0"
    by (rule skip [OF _ _ delete_loop_end [OF b], where opcode = OP_CHECKSIG and v = "[]"]) (use n in \<open>auto simp: GetOp2_def\<close>)
  have 4: "\<forall>r p. snd (snd (delete_loop b r p [of_nat OP_EQUALVERIFY, of_nat OP_CHECKSIG] 0)) = 0"
    by (rule skip [OF _ _ 5, where opcode = OP_EQUALVERIFY and v = "[]"]) (use n in \<open>auto simp: GetOp2_def\<close>)
  have 3: "\<forall>r p. snd (snd (delete_loop b r p (20 # h @ [of_nat OP_EQUALVERIFY, of_nat OP_CHECKSIG]) 0)) = 0"
    by (rule skip [OF _ _ 4, where opcode = 20 and v = h]) (use n assms(1) in \<open>auto simp: GetOp2_def push_size_def\<close>)
  have 2: "\<forall>r p. snd (snd (delete_loop b r p (of_nat OP_HASH160 # 20 # h @ [of_nat OP_EQUALVERIFY, of_nat OP_CHECKSIG]) 0)) = 0"
    by (rule skip [OF _ _ 3, where opcode = OP_HASH160 and v = "[]"]) (use n in \<open>auto simp: GetOp2_def\<close>)
  have "\<forall>r p. snd (snd (delete_loop b r p (p2pkh_script h) 0)) = 0"
    by (rule skip [OF _ _ 2, where opcode = OP_DUP and v = "[]"]) (use n in \<open>auto simp: GetOp2_def p2pkh_script_def\<close>)
  then have "snd (snd (delete_loop b [] (p2pkh_script h) (p2pkh_script h) 0)) = 0" by blast
  then show ?thesis using b by (auto simp: FindAndDelete_def Let_def split: prod.splits)
qed

lemma drop_signature_p2pkh:
  "length h = 20 \<Longrightarrow> length sig \<noteq> 20 \<Longrightarrow> length sig \<le> 0xffffffff \<Longrightarrow> drop_signature ver (p2pkh_script h) sig = Some (p2pkh_script h)"
  using FindAndDelete_p2pkh [of h sig] by (auto simp: drop_signature_def push_data_def split: option.splits)

section \<open>Multiple signatures\<close>

text \<open>The signatures match the keys in their order: some keys may be left out, none is used twice.\<close>

definition ordered_match :: "('a \<Rightarrow> 'b \<Rightarrow> bool) \<Rightarrow> 'a list \<Rightarrow> 'b list \<Rightarrow> bool" where
  "ordered_match check sigs keys \<longleftrightarrow> (\<exists>ks. subseq ks keys \<and> list_all2 check sigs ks)"

lemma ordered_match_Nil [simp]: "ordered_match check [] keys"
  by (auto simp: ordered_match_def)

lemma ordered_match_short: "ordered_match check sigs keys \<Longrightarrow> length sigs \<le> length keys"
  unfolding ordered_match_def by (metis list_all2_lengthD list_emb_length)

lemma ordered_match_Cons:
  "ordered_match check (s # sigs) (k # keys) \<longleftrightarrow>
     (if check s k then ordered_match check sigs keys else ordered_match check (s # sigs) keys)"
proof -
  have sub: "subseq ks keys" if "subseq (k' # ks) (k # keys)" for k' ks
    using that by (cases "k' = k") (auto simp: subseq_Cons2_iff dest: subseq_Cons')
  show ?thesis
  proof (cases "check s k")
    case True
    have "ordered_match check (s # sigs) (k # keys) \<longleftrightarrow> ordered_match check sigs keys"
    proof
      assume "ordered_match check (s # sigs) (k # keys)"
      then obtain k' ks where "subseq (k' # ks) (k # keys)" "list_all2 check sigs ks"
        by (auto simp: ordered_match_def list_all2_Cons1)
      then show "ordered_match check sigs keys" using sub by (auto simp: ordered_match_def)
    next
      assume "ordered_match check sigs keys"
      then obtain ks where "subseq ks keys" "list_all2 check sigs ks" by (auto simp: ordered_match_def)
      then show "ordered_match check (s # sigs) (k # keys)"
        using True by (auto simp: ordered_match_def intro!: exI [of _ "k # ks"])
    qed
    then show ?thesis using True by simp
  next
    case False
    have "subseq (k' # ks) (k # keys) \<longleftrightarrow> subseq (k' # ks) keys" if "check s k'" for k' ks
    proof -
      have "k' \<noteq> k" using that False by auto
      then show ?thesis by (simp add: subseq_Cons2_iff)
    qed
    then show ?thesis using False by (auto simp: ordered_match_def list_all2_Cons1)
  qed
qed

lemma stacktop_nth: "1 \<le> i \<Longrightarrow> i \<le> int (length st) \<Longrightarrow> stacktop st i = Some (st ! nat (i - 1))"
  by (simp add: stacktop_def)

lemma stacktop_drop: "drop (nat (i - 1)) st = x # xs \<Longrightarrow> 1 \<le> i \<Longrightarrow> stacktop st i = Some x \<and> drop (nat i) st = xs"
proof -
  assume d: "drop (nat (i - 1)) st = x # xs" and i: "1 \<le> i"
  have l: "nat (i - 1) < length st" using d by (metis drop_eq_Nil linorder_not_le list.distinct(1))
  then have "st ! nat (i - 1) = x" "drop (Suc (nat (i - 1))) st = xs"
    using d by (metis Cons_nth_drop_Suc list.inject)+
  moreover have "Suc (nat (i - 1)) = nat i" using i by linarith
  ultimately show ?thesis using l i by (simp add: stacktop_def)
qed

lemma multisig_loop_match:
  assumes "drop (nat (isig - 1)) st = sigs @ r1" "drop (nat (ikey - 1)) st = keys @ r2" "1 \<le> isig" "1 \<le> ikey"
    and "length sigs \<le> length keys"
    and "\<forall>s\<in>set sigs. CheckSignatureEncoding env s = None" "\<forall>k\<in>set keys. CheckPubKeyEncoding env k = None"
  shows "multisig_loop env code st isig ikey (int (length sigs)) (int (length keys)) =
    Inr (ordered_match (\<lambda>s k. CheckSig (checker env) s k code (sigversion env)) sigs keys)"
  using assms
proof (induction keys arbitrary: isig ikey sigs)
  case Nil
  then show ?case by (simp add: multisig_loop.simps)
next
  case (Cons k keys)
  let ?c = "\<lambda>s k. CheckSig (checker env) s k code (sigversion env)"
  show ?case
  proof (cases sigs)
    case Nil
    then show ?thesis by (simp add: multisig_loop.simps)
  next
    case sigs: (Cons s sigs')
    have S: "stacktop st isig = Some s" "drop (nat isig) st = sigs' @ r1"
      using stacktop_drop [of isig st s "sigs' @ r1"] Cons.prems sigs by auto
    have K: "stacktop st ikey = Some k" "drop (nat ikey) st = keys @ r2"
      using stacktop_drop [of ikey st k "keys @ r2"] Cons.prems by auto
    have e: "CheckSignatureEncoding env s = None" "CheckPubKeyEncoding env k = None"
      using Cons.prems sigs by auto
    show ?thesis
    proof (cases "?c s k")
      case True
      have "multisig_loop env code st (isig + 1) (ikey + 1) (int (length sigs')) (int (length keys)) =
          Inr (ordered_match ?c sigs' keys)"
        using Cons.prems sigs S(2) K(2) by (intro Cons.IH) auto
      then show ?thesis
        using True S K e sigs Cons.prems(5) by (subst multisig_loop.simps) (simp add: ordered_match_Cons)
    next
      case False
      show ?thesis
      proof (cases "length sigs \<le> length keys")
        case le: True
        have "multisig_loop env code st isig (ikey + 1) (int (length sigs)) (int (length keys)) =
            Inr (ordered_match ?c sigs keys)"
          using Cons.prems K(2) le by (intro Cons.IH) auto
        then show ?thesis
          using False S K e sigs le by (subst multisig_loop.simps) (simp add: ordered_match_Cons)
      next
        case gt: False
        then have "\<not> ordered_match ?c sigs keys" using ordered_match_short by blast
        then show ?thesis
          using False S K e sigs gt by (subst multisig_loop.simps) (simp add: ordered_match_Cons)
      qed
    qed
  qed
qed

section \<open>Properties\<close>

text \<open>
  C34.  The loop of \<open>OP_CHECKMULTISIG\<close> walks once over the keys and stops as soon as fewer keys than signatures are
  left.  If the encodings are right, it succeeds exactly if some subsequence of the keys matches the signatures one by
  one, so the greedy choice loses no matching.
\<close>
theorem multisig_loop_complete:
  assumes "length sigs \<le> length keys"
    and "\<forall>s\<in>set sigs. CheckSignatureEncoding env s = None" "\<forall>k\<in>set keys. CheckPubKeyEncoding env k = None"
  shows "multisig_loop env code (nkeys # keys @ cnt # sigs @ rest) (int (length keys) + 3) 2 (int (length sigs)) (int (length keys)) =
    Inr (\<exists>ks. subseq ks keys \<and> list_all2 (\<lambda>s k. CheckSig (checker env) s k code (sigversion env)) sigs ks)"
proof -
  have "nat (int (length keys) + 3 - 1) = Suc (Suc (length keys))" by linarith
  then show ?thesis
    using multisig_loop_match [of "int (length keys) + 3" "nkeys # keys @ cnt # sigs @ rest" sigs rest 2 keys "cnt # sigs @ rest" env code] assms
    by (simp add: ordered_match_def)
qed

theorem multisig_loop_complete_witness:
  "multisig_loop \<lparr>flags = 0, checker = base_checker\<lparr>CheckSig := \<lambda>s k c v. s = k\<rparr>, sigversion = SIGVERSION_BASE, CheckLowS = (\<lambda>_. True)\<rparr>
     [] [[2], [5], [6], [1], [6], []] 5 2 1 2 = Inr True"
proof -
  let ?e = "\<lparr>flags = 0, checker = base_checker\<lparr>CheckSig := \<lambda>s k c v. s = k\<rparr>, sigversion = SIGVERSION_BASE, CheckLowS = (\<lambda>_. True)\<rparr>"
  have "\<exists>ks. subseq ks [[5], [6 :: uint8]] \<and> list_all2 (\<lambda>s k. s = k) [[6]] ks"
    by (intro exI [of _ "[[6]]"]) simp
  then show ?thesis
    using multisig_loop_complete [of "[[6]]" "[[5], [6]]" ?e "[]" "[2]" "[1]" "[[]]"]
    by (simp add: CheckSignatureEncoding_def CheckPubKeyEncoding_def has_flag_def)
qed

end
