(* ===== verification/SigHash.thy ===== *)
theory SigHash
  imports TxVerify Spending
begin

text \<open>
  The message that a signature signs, \<open>SignatureHash\<close> of src/src/script/interpreter.cpp, and the checker that uses it,
  \<open>TransactionSignatureChecker\<close>.  The verification of a signature under a public key is the elliptic-curve library's
  and an argument (\<open>VerifySig\<close>).

  The reference for the old format is the definition by copying: blank the other inputs, cut the outputs, and
  serialize the changed transaction.
\<close>

section \<open>The old format\<close>

definition fAnyoneCanPay :: "int \<Rightarrow> bool" where "fAnyoneCanPay nHashType \<longleftrightarrow> nHashType AND 0x80 \<noteq> 0"

definition fHashSingle :: "int \<Rightarrow> bool" where "fHashSingle nHashType \<longleftrightarrow> nHashType AND 0x1f = 3"

definition fHashNone :: "int \<Rightarrow> bool" where "fHashNone nHashType \<longleftrightarrow> nHashType AND 0x1f = 2"

function count_separators :: "bytes \<Rightarrow> nat \<Rightarrow> nat" where
  "count_separators it nCodeSeparators =
     (case GetOp2 it of (ok, opcode, v, it') \<Rightarrow>
        if ok then count_separators it' (if opcode = OP_CODESEPARATOR then nCodeSeparators + 1 else nCodeSeparators)
        else nCodeSeparators)"
  by pat_completeness auto
termination by (relation "measure (\<lambda>(it, _). length it)") (auto dest: GetOp2_length [OF sym])

text \<open>The second loop writes the parts between the separators; its result has the two iterators at the end.\<close>

function write_parts :: "bytes \<Rightarrow> bytes \<Rightarrow> bytes \<times> bytes \<times> bytes" where
  "write_parts itBegin it =
     (case GetOp2 it of (ok, opcode, v, it') \<Rightarrow>
        if ok
        then if opcode = OP_CODESEPARATOR
             then (case write_parts it' it' of (w, b, e) \<Rightarrow> (take (length itBegin - length it' - 1) itBegin @ w, b, e))
             else write_parts itBegin it'
        else ([], itBegin, it'))"
  by pat_completeness auto
termination by (relation "measure (\<lambda>(_, it). length it)") (auto dest: GetOp2_length [OF sym])

declare count_separators.simps [simp del] write_parts.simps [simp del]

definition SerializeScriptCode :: "bytes \<Rightarrow> bytes" where
  "SerializeScriptCode scriptCode =
     WriteCompactSize (length scriptCode - count_separators scriptCode 0) @
     (case write_parts scriptCode scriptCode of (w, itBegin, it) \<Rightarrow>
        if itBegin \<noteq> [] then w @ take (length itBegin - length it) itBegin else w)"

definition SerializeInput :: "CTransaction \<Rightarrow> bytes \<Rightarrow> nat \<Rightarrow> int \<Rightarrow> nat \<Rightarrow> bytes" where
  "SerializeInput txTo scriptCode nIn nHashType nInput =
     (let nInput = (if fAnyoneCanPay nHashType then nIn else nInput);
          txin = vin txTo ! nInput
      in Serialize_COutPoint (prevout txin) @
         (if nInput \<noteq> nIn then Serialize_bytes [] else SerializeScriptCode scriptCode) @
         (if nInput \<noteq> nIn \<and> (fHashSingle nHashType \<or> fHashNone nHashType) then Serialize_int32 0
          else ser_writedata32 (nSequence txin)))"

definition SerializeOutput :: "CTransaction \<Rightarrow> nat \<Rightarrow> int \<Rightarrow> nat \<Rightarrow> bytes" where
  "SerializeOutput txTo nIn nHashType nOutput =
     (if fHashSingle nHashType \<and> nOutput \<noteq> nIn then Serialize_CTxOut CTxOut_null else Serialize_CTxOut (vout txTo ! nOutput))"

definition SerializeForSignature :: "CTransaction \<Rightarrow> bytes \<Rightarrow> nat \<Rightarrow> int \<Rightarrow> bytes" where
  "SerializeForSignature txTo scriptCode nIn nHashType =
     (let nInputs = (if fAnyoneCanPay nHashType then 1 else length (vin txTo));
          nOutputs = (if fHashNone nHashType then 0 else if fHashSingle nHashType then nIn + 1 else length (vout txTo))
      in Serialize_int32 (tx_nVersion txTo) @
         WriteCompactSize nInputs @ concat (map (SerializeInput txTo scriptCode nIn nHashType) [0..<nInputs]) @
         WriteCompactSize nOutputs @ concat (map (SerializeOutput txTo nIn nHashType) [0..<nOutputs]) @
         ser_writedata32 (nLockTime txTo))"

section \<open>The signature hash\<close>

definition hash_pieces :: "bytes list \<Rightarrow> bytes" where
  "hash_pieces ds = CHashWriter_GetHash (foldl CHashWriter_write (CHashWriter_new 4 0) ds)"

definition GetPrevoutHash :: "CTransaction \<Rightarrow> bytes" where
  "GetPrevoutHash txTo = hash_pieces (map (\<lambda>i. Serialize_COutPoint (prevout i)) (vin txTo))"

definition GetSequenceHash :: "CTransaction \<Rightarrow> bytes" where
  "GetSequenceHash txTo = hash_pieces (map (\<lambda>i. ser_writedata32 (nSequence i)) (vin txTo))"

definition GetOutputsHash :: "CTransaction \<Rightarrow> bytes" where
  "GetOutputsHash txTo = hash_pieces (map Serialize_CTxOut (vout txTo))"

record PrecomputedTransactionData =
  hashPrevouts :: bytes
  hashSequence :: bytes
  hashOutputs :: bytes
  ready :: bool

definition PrecomputedTransactionData_new :: "CTransaction \<Rightarrow> PrecomputedTransactionData" where
  "PrecomputedTransactionData_new txTo =
     (if HasWitness txTo
      then \<lparr>hashPrevouts = GetPrevoutHash txTo, hashSequence = GetSequenceHash txTo, hashOutputs = GetOutputsHash txTo, ready = True\<rparr>
      else \<lparr>hashPrevouts = blob_null, hashSequence = blob_null, hashOutputs = blob_null, ready = False\<rparr>)"

definition SignatureHash ::
    "bytes \<Rightarrow> CTransaction \<Rightarrow> nat \<Rightarrow> int \<Rightarrow> int \<Rightarrow> SigVersion \<Rightarrow> PrecomputedTransactionData option \<Rightarrow> bytes option" where
  "SignatureHash scriptCode txTo nIn nHashType amount sigv cache =
     do { assert_opt (nIn < length (vin txTo));
          if sigv = SIGVERSION_WITNESS_V0
          then let cacheready = (case cache of None \<Rightarrow> False | Some c \<Rightarrow> ready c);
                   prevouts = (if \<not> fAnyoneCanPay nHashType
                               then if cacheready then hashPrevouts (the cache) else GetPrevoutHash txTo
                               else blob_null);
                   sequence = (if \<not> fAnyoneCanPay nHashType \<and> \<not> fHashSingle nHashType \<and> \<not> fHashNone nHashType
                               then if cacheready then hashSequence (the cache) else GetSequenceHash txTo
                               else blob_null);
                   outputs = (if \<not> fHashSingle nHashType \<and> \<not> fHashNone nHashType
                              then if cacheready then hashOutputs (the cache) else GetOutputsHash txTo
                              else if fHashSingle nHashType \<and> nIn < length (vout txTo)
                              then hash_pieces [Serialize_CTxOut (vout txTo ! nIn)]
                              else blob_null);
                   txin = vin txTo ! nIn
               in Some (hash_pieces
                    [Serialize_int32 (tx_nVersion txTo), prevouts, sequence, Serialize_COutPoint (prevout txin),
                     Serialize_bytes scriptCode, Serialize_int64 amount, ser_writedata32 (nSequence txin), outputs,
                     ser_writedata32 (nLockTime txTo), Serialize_int32 nHashType])
          else if fHashSingle nHashType \<and> nIn \<ge> length (vout txTo)
          then Some (uint256S ''0000000000000000000000000000000000000000000000000000000000000001'')
          else Some (hash_pieces [SerializeForSignature txTo scriptCode nIn nHashType, Serialize_int32 nHashType]) }"

section \<open>The checker of a transaction\<close>

definition PubKey_GetLen :: "uint8 \<Rightarrow> nat" where
  "PubKey_GetLen chHeader =
     (if chHeader = 2 \<or> chHeader = 3 then 33 else if chHeader = 4 \<or> chHeader = 6 \<or> chHeader = 7 then 65 else 0)"

text \<open>\<open>CPubKey::Set\<close> keeps only byte strings whose first byte announces their length; the others are invalid.\<close>

definition PubKey_valid :: "bytes \<Rightarrow> bool" where
  "PubKey_valid v \<longleftrightarrow> v \<noteq> [] \<and> PubKey_GetLen (hd v) \<noteq> 0 \<and> PubKey_GetLen (hd v) = length v"

definition TxCheckSig ::
    "(bytes \<Rightarrow> bytes \<Rightarrow> bytes \<Rightarrow> bool) \<Rightarrow> CTransaction \<Rightarrow> nat \<Rightarrow> int \<Rightarrow> PrecomputedTransactionData option \<Rightarrow>
     bytes \<Rightarrow> bytes \<Rightarrow> bytes \<Rightarrow> SigVersion \<Rightarrow> bool option" where
  "TxCheckSig VerifySig txTo nIn amount txdata vchSigIn vchPubKey scriptCode sigv =
     (if \<not> PubKey_valid vchPubKey then Some False
      else if vchSigIn = [] then Some False
      else do { sighash \<leftarrow> SignatureHash scriptCode txTo nIn (uint (last vchSigIn)) amount sigv txdata;
                Some (VerifySig vchPubKey sighash (butlast vchSigIn)) })"

definition TxCheckLockTime :: "CTransaction \<Rightarrow> nat \<Rightarrow> int \<Rightarrow> bool" where
  "TxCheckLockTime txTo nIn lockTime =
     (let txLock = uint (nLockTime txTo)
      in if \<not> ((txLock < LOCKTIME_THRESHOLD \<and> lockTime < LOCKTIME_THRESHOLD) \<or>
               (txLock \<ge> LOCKTIME_THRESHOLD \<and> lockTime \<ge> LOCKTIME_THRESHOLD)) then False
         else if lockTime > txLock then False
         else if SEQUENCE_FINAL = nSequence (vin txTo ! nIn) then False
         else True)"

definition TxCheckSequence :: "CTransaction \<Rightarrow> nat \<Rightarrow> int \<Rightarrow> bool" where
  "TxCheckSequence txTo nIn sequence =
     (let txToSequence = uint (nSequence (vin txTo ! nIn))
      in if uint (word_of_int (tx_nVersion txTo) :: uint32) < 2 then False
         else if txToSequence AND SEQUENCE_LOCKTIME_DISABLE_FLAG \<noteq> 0 then False
         else let nLockTimeMask = SEQUENCE_LOCKTIME_TYPE_FLAG OR SEQUENCE_LOCKTIME_MASK;
                  txToSequenceMasked = txToSequence AND nLockTimeMask;
                  nSequenceMasked = sequence AND nLockTimeMask
         in if \<not> ((txToSequenceMasked < SEQUENCE_LOCKTIME_TYPE_FLAG \<and> nSequenceMasked < SEQUENCE_LOCKTIME_TYPE_FLAG) \<or>
                  (txToSequenceMasked \<ge> SEQUENCE_LOCKTIME_TYPE_FLAG \<and> nSequenceMasked \<ge> SEQUENCE_LOCKTIME_TYPE_FLAG)) then False
         else if nSequenceMasked > txToSequenceMasked then False
         else True)"

text \<open>The functions of the class as a checker of the interpreter; a failed assertion of \<open>CheckSig\<close> counts as a refusal.\<close>

definition TransactionSignatureChecker ::
    "(bytes \<Rightarrow> bytes \<Rightarrow> bytes \<Rightarrow> bool) \<Rightarrow> CTransaction \<Rightarrow> nat \<Rightarrow> int \<Rightarrow> PrecomputedTransactionData option \<Rightarrow> BaseSignatureChecker" where
  "TransactionSignatureChecker VerifySig txTo nIn amount txdata =
     \<lparr>CheckSig = (\<lambda>sig key code ver. TxCheckSig VerifySig txTo nIn amount txdata sig key code ver = Some True),
      CheckLockTime = TxCheckLockTime txTo nIn, CheckSequence = TxCheckSequence txTo nIn\<rparr>"

lemma TxCheckSig_total:
  "nIn < length (vin tx) \<Longrightarrow> \<exists>r. TxCheckSig VerifySig tx nIn amount txdata sig key code ver = Some r"
  by (auto simp: TxCheckSig_def SignatureHash_def Let_def)

section \<open>The reference for the old format\<close>

text \<open>A script is readable if every operation of it can be read.\<close>

function readable :: "bytes \<Rightarrow> bool" where
  "readable pc = (pc = [] \<or> (case GetOp2 pc of (ok, opcode, v, pc') \<Rightarrow> if ok then readable pc' else False))"
  by pat_completeness auto
termination by (relation "measure length") (auto dest: GetOp2_length [OF sym])

function remove_separators :: "bytes \<Rightarrow> bytes" where
  "remove_separators pc =
     (case GetOp2 pc of (ok, opcode, v, pc') \<Rightarrow>
        if ok then (if opcode = OP_CODESEPARATOR then [] else take (length pc - length pc') pc) @ remove_separators pc' else [])"
  by pat_completeness auto
termination by (relation "measure length") (auto dest: GetOp2_length [OF sym])

declare readable.simps [simp del] remove_separators.simps [simp del]

text \<open>The transaction that is signed: a changed copy.\<close>

definition signed_input :: "bytes \<Rightarrow> nat \<Rightarrow> int \<Rightarrow> nat \<Rightarrow> CTxIn \<Rightarrow> CTxIn" where
  "signed_input code nIn nHashType k i =
     (if k = nIn then i\<lparr>scriptSig := code\<rparr>
      else i\<lparr>scriptSig := [], nSequence := (if fHashSingle nHashType \<or> fHashNone nHashType then 0 else nSequence i)\<rparr>)"

definition signed_copy :: "CTransaction \<Rightarrow> bytes \<Rightarrow> nat \<Rightarrow> int \<Rightarrow> CTransaction" where
  "signed_copy tx code nIn nHashType =
     tx\<lparr>vin := (if fAnyoneCanPay nHashType then [(vin tx ! nIn)\<lparr>scriptSig := code\<rparr>]
                else map (\<lambda>k. signed_input code nIn nHashType k (vin tx ! k)) [0..<length (vin tx)]),
        vout := (if fHashNone nHashType then []
                 else if fHashSingle nHashType then replicate nIn CTxOut_null @ [vout tx ! nIn]
                 else vout tx)\<rparr>"

lemma GetOp2_suffix: "GetOp2 pc = (True, opcode, v, pc') \<Longrightarrow> suffix pc' pc"
  by (auto simp: GetOp2_def Let_def push_size_def split: list.splits if_splits option.splits
    intro: suffix_ConsI suffix_drop suffix_order.trans [OF suffix_drop suffix_drop])

lemma GetOp2_split: "GetOp2 pc = (True, opcode, v, pc') \<Longrightarrow> pc = take (length pc - length pc') pc @ pc'"
  using GetOp2_suffix [of pc opcode v pc'] by (auto simp: suffix_def)

lemma GetOp2_separator: "GetOp2 pc = (True, OP_CODESEPARATOR, v, pc') \<Longrightarrow> length pc = Suc (length pc')"
  by (auto simp: GetOp2_def Let_def split: list.splits if_splits option.splits)

lemma readable_Nil [simp]: "readable []" "remove_separators [] = []" "count_separators [] n = n"
  by (simp_all add: readable.simps [of "[]"] remove_separators.simps [of "[]"] count_separators.simps [of "[]"] GetOp2_def)

lemma readable_cases:
  assumes "readable pc"
  obtains "pc = []" | opcode v pc' where "GetOp2 pc = (True, opcode, v, pc')" "readable pc'"
  using assms by (subst (asm) readable.simps) (auto split: prod.splits if_splits)

lemma count_separators_length:
  "readable it \<Longrightarrow> count_separators it n + length (remove_separators it) = n + length it"
proof (induction it arbitrary: n rule: measure_induct_rule [of length])
  case (less it)
  from less.prems show ?case
  proof (cases rule: readable_cases)
    case 1
    then show ?thesis by simp
  next
    case (2 opcode v it')
    note l = GetOp2_length [OF 2(1)]
    show ?thesis
      using less.IH [OF l 2(2), of n] less.IH [OF l 2(2), of "Suc n"] 2(1) l GetOp2_separator [of it v it']
      by (subst count_separators.simps, subst remove_separators.simps) auto
  qed
qed

lemma write_parts_eq:
  "readable it \<Longrightarrow> write_parts (pre @ it) it = (w, b, e) \<Longrightarrow> w @ take (length b - length e) b = pre @ remove_separators it"
proof (induction it arbitrary: pre w b e rule: measure_induct_rule [of length])
  case (less it)
  from less.prems(1) show ?case
  proof (cases rule: readable_cases)
    case 1
    then show ?thesis using less.prems(2) by (auto simp: write_parts.simps [of _ "[]"] GetOp2_def)
  next
    case (2 opcode v it')
    note l = GetOp2_length [OF 2(1)]
    let ?op = "take (length it - length it') it"
    have s: "it = ?op @ it'" by (rule GetOp2_split [OF 2(1)])
    show ?thesis
    proof (cases "opcode = OP_CODESEPARATOR")
      case True
      then have n: "length it = Suc (length it')" using GetOp2_separator 2(1) by blast
      obtain w' where w': "write_parts it' it' = (w', b, e)" "w = take (length (pre @ it) - length it' - 1) (pre @ it) @ w'"
        using less.prems(2) 2(1) True by (subst (asm) write_parts.simps) (auto split: prod.splits)
      have "w' @ take (length b - length e) b = remove_separators it'" using less.IH [OF l 2(2), of "[]" w' b e] w'(1) by simp
      then show ?thesis using 2(1) True n w'(2) by (subst remove_separators.simps) simp
    next
      case False
      have "write_parts (pre @ it) it' = (w, b, e)"
        using less.prems(2) 2(1) False by (subst (asm) write_parts.simps) simp
      then have "write_parts ((pre @ ?op) @ it') it' = (w, b, e)" using s by (metis append.assoc)
      from less.IH [OF l 2(2) this] show ?thesis using 2(1) False by (subst remove_separators.simps) simp
    qed
  qed
qed

lemma SerializeScriptCode_readable:
  assumes "readable code"
  shows "SerializeScriptCode code = Serialize_bytes (remove_separators code)"
proof -
  obtain w b e where w: "write_parts code code = (w, b, e)" by (metis prod_cases3)
  have "w @ take (length b - length e) b = remove_separators code" using write_parts_eq [of code "[]" w b e] assms w by simp
  moreover have "length code - count_separators code 0 = length (remove_separators code)"
    using count_separators_length [OF assms, of 0] by simp
  ultimately show ?thesis by (auto simp: SerializeScriptCode_def Serialize_bytes_def w)
qed

lemma Serialize_int32_0: "Serialize_int32 0 = ser_writedata32 0"
  by (simp add: Serialize_int32_def)

lemma SerializeInput_copy:
  assumes "readable code" "\<not> fAnyoneCanPay ht"
  shows "SerializeInput tx code nIn ht k = Serialize_CTxIn (signed_input (remove_separators code) nIn ht k (vin tx ! k))"
  using assms by (simp add: SerializeInput_def Let_def signed_input_def Serialize_CTxIn_def SerializeScriptCode_readable Serialize_int32_0)

lemma SerializeForSignature_copy:
  assumes "readable code" "nIn < length (vin tx)" "fHashSingle ht \<longrightarrow> nIn < length (vout tx)"
  shows "SerializeForSignature tx code nIn ht = SerializeTransaction False (signed_copy tx (remove_separators code) nIn ht)"
proof -
  let ?c = "signed_copy tx (remove_separators code) nIn ht"
  have i: "WriteCompactSize (if fAnyoneCanPay ht then 1 else length (vin tx)) @
      concat (map (SerializeInput tx code nIn ht) [0..<if fAnyoneCanPay ht then 1 else length (vin tx)]) = Serialize_vector Serialize_CTxIn (vin ?c)"
  proof (cases "fAnyoneCanPay ht")
    case True
    then show ?thesis using assms(1)
      by (simp add: signed_copy_def Serialize_vector_def SerializeInput_def Let_def Serialize_CTxIn_def SerializeScriptCode_readable)
  next
    case False
    then have "SerializeInput tx code nIn ht = (\<lambda>k. Serialize_CTxIn (signed_input (remove_separators code) nIn ht k (vin tx ! k)))"
      using SerializeInput_copy [OF assms(1)] by blast
    then show ?thesis using False by (simp add: signed_copy_def Serialize_vector_def comp_def)
  qed
  have s: "map (SerializeOutput tx nIn ht) [0..<Suc nIn] = map Serialize_CTxOut (replicate nIn CTxOut_null @ [vout tx ! nIn])" if "fHashSingle ht"
    using that by (intro nth_equalityI) (auto simp: SerializeOutput_def nth_append less_Suc_eq simp del: upt_Suc)
  have a: "map (SerializeOutput tx nIn ht) [0..<length (vout tx)] = map Serialize_CTxOut (vout tx)" if "\<not> fHashSingle ht"
    using that by (intro nth_equalityI) (simp_all add: SerializeOutput_def)
  have o: "WriteCompactSize (if fHashNone ht then 0 else if fHashSingle ht then nIn + 1 else length (vout tx)) @
      concat (map (SerializeOutput tx nIn ht) [0..<if fHashNone ht then 0 else if fHashSingle ht then nIn + 1 else length (vout tx)]) =
      Serialize_vector Serialize_CTxOut (vout ?c)"
    using s a by (simp add: signed_copy_def Serialize_vector_def del: upt_Suc)
  show ?thesis
    unfolding SerializeForSignature_def SerializeTransaction_def Let_def
    using i o by (simp add: signed_copy_def)
qed

lemma hash_pieces_eq: "hash_pieces ds = sha256d (concat ds)"
  by (simp add: hash_pieces_def CHashWriter_pieces)

lemma SignatureHash_base:
  assumes "readable scriptCode" "nIn < length (vin tx)" "fHashSingle nHashType \<longrightarrow> nIn < length (vout tx)"
  shows "SignatureHash scriptCode tx nIn nHashType amount SIGVERSION_BASE cache =
    Some (sha256d (SerializeTransaction False (signed_copy tx (remove_separators scriptCode) nIn nHashType) @ Serialize_int32 nHashType))"
  using assms(2,3) SerializeForSignature_copy [OF assms]
  by (auto simp: SignatureHash_def hash_pieces_eq)

lemma p2pkh_readable:
  assumes "length h = 20"
  shows "readable (p2pkh_script h) \<and> remove_separators (p2pkh_script h) = p2pkh_script h"
proof -
  have g: "GetOp2 (20 # h @ r) = (True, 20, h, r)" for r using assms by (simp add: GetOp2_def push_size_def)
  have 1: "readable [136, 172]" "remove_separators [136, 172] = [136, 172]"
    by (simp_all add: readable.simps [of "_ # _"] remove_separators.simps [of "_ # _"] GetOp2_def)
  have 2: "readable (20 # h @ [136, 172])" "remove_separators (20 # h @ [136, 172]) = 20 # h @ [136, 172]"
    using 1 assms by (simp_all add: readable.simps [of "20 # _"] remove_separators.simps [of "20 # _"] g)
  then show ?thesis
    by (simp add: p2pkh_script_def readable.simps [of "118 # _"] readable.simps [of "169 # _"]
      remove_separators.simps [of "118 # _"] remove_separators.simps [of "169 # _"] GetOp2_def)
qed

section \<open>Properties\<close>

text \<open>
  C10.  The old signature hash.  The serializer that blanks parts of the transaction while it writes gives the hash of a
  changed copy of the transaction: the other inputs' scripts empty, their sequence numbers zero and the outputs cut
  as the hash type says, and in the signed input the script without its \<open>OP_CODESEPARATOR\<close>s, followed by the hash type.
\<close>
theorem legacy_sighash_is_hash_of_copy:
  assumes "readable scriptCode" "nIn < length (vin tx)" "fHashSingle nHashType \<longrightarrow> nIn < length (vout tx)"
  shows "SignatureHash scriptCode tx nIn nHashType amount SIGVERSION_BASE cache =
    Some (sha256d (SerializeTransaction False (signed_copy tx (remove_separators scriptCode) nIn nHashType) @ Serialize_int32 nHashType))"
  by (rule SignatureHash_base [OF assms])

theorem legacy_sighash_is_hash_of_copy_witness:
  "let i = \<lparr>prevout = \<lparr>prev_hash = replicate 32 7, prev_n = 1\<rparr>, scriptSig = [0x51], nSequence = 5, scriptWitness = []\<rparr>;
       tx = \<lparr>vin = [i], vout = [\<lparr>nValue = 9, scriptPubKey = [0x51]\<rparr>], tx_nVersion = 2, nLockTime = 0\<rparr>
   in SignatureHash [] tx 0 1 0 SIGVERSION_BASE None =
     Some (sha256d (SerializeTransaction False (tx\<lparr>vin := [i\<lparr>scriptSig := []\<rparr>]\<rparr>) @ Serialize_int32 1))"
  using legacy_sighash_is_hash_of_copy [of "[]" 0 "\<lparr>vin = [\<lparr>prevout = \<lparr>prev_hash = replicate 32 7, prev_n = 1\<rparr>, scriptSig = [0x51],
      nSequence = 5, scriptWitness = []\<rparr>], vout = [\<lparr>nValue = 9, scriptPubKey = [0x51]\<rparr>], tx_nVersion = 2, nLockTime = 0\<rparr>" 1 0 None]
  by (simp add: Let_def signed_copy_def signed_input_def fHashSingle_def fHashNone_def fAnyoneCanPay_def)

text \<open>
  The cache of hashes of a transaction is transparent: with the data precomputed for the same transaction, and
  without, every signature hash is the same.
\<close>
lemma sighash_cache_transparent:
  "SignatureHash scriptCode tx nIn nHashType amount ver (Some (PrecomputedTransactionData_new tx)) =
   SignatureHash scriptCode tx nIn nHashType amount ver None"
  by (simp add: SignatureHash_def PrecomputedTransactionData_new_def Let_def)

end
