(* ===== verification/Compressor.thy ===== *)
theory Compressor
  imports Transaction Spending
begin

text \<open>
  The compact format of outputs in the coin database, src/src/compressor.h and compressor.cpp.  Amounts are unsigned
  64-bit numbers with the wrap-around of the additions and multiplications written out.  The operations of the
  elliptic-curve library, whether an uncompressed key is a point of the curve (\<open>IsFullyValid\<close>) and the uncompressed form of a
  key (\<open>DecompressKey\<close>), are arguments.

  Amounts up to \<open>2 * 10 ^ 18\<close> come back unchanged; above a ninth of \<open>2 ^ 64\<close> the compressed amount can wrap around, and
  \<open>MAX_MONEY\<close> is above it.
\<close>

section \<open>Amounts\<close>

function strip_zeros :: "nat \<Rightarrow> nat \<Rightarrow> nat \<times> nat" where
  "strip_zeros n e = (if n mod 10 = 0 \<and> e < 9 then strip_zeros (n div 10) (e + 1) else (n, e))"
  by pat_completeness auto
termination by (relation "measure (\<lambda>(_, e). 9 - e)") auto

declare strip_zeros.simps [simp del]

definition CompressAmount :: "nat \<Rightarrow> nat option" where
  "CompressAmount n =
     (if n = 0 then Some 0
      else case strip_zeros n 0 of (n, e) \<Rightarrow>
        if e < 9
        then let d = n mod 10
             in do { assert_opt (d \<ge> 1 \<and> d \<le> 9); Some ((1 + (n div 10 * 9 + d - 1) * 10 + e) mod 2 ^ 64) }
        else Some ((1 + (n - 1) * 10 + 9) mod 2 ^ 64))"

fun times_ten :: "nat \<Rightarrow> nat \<Rightarrow> nat" where
  "times_ten 0 n = n"
| "times_ten (Suc e) n = times_ten e (n * 10 mod 2 ^ 64)"

definition DecompressAmount :: "nat \<Rightarrow> nat" where
  "DecompressAmount x =
     (if x = 0 then 0
      else let x = x - 1; e = x mod 10; x = x div 10;
               n = (if e < 9 then (x div 9 * 10 + (x mod 9 + 1)) mod 2 ^ 64 else (x + 1) mod 2 ^ 64)
           in times_ten e n)"

section \<open>Scripts\<close>

definition nSpecialScripts :: nat where "nSpecialScripts = 6"

definition IsToKeyID :: "bytes \<Rightarrow> bytes option" where
  "IsToKeyID script =
     (if length script = 25 \<and> script ! 0 = of_nat OP_DUP \<and> script ! 1 = of_nat OP_HASH160 \<and> script ! 2 = 20 \<and>
         script ! 23 = of_nat OP_EQUALVERIFY \<and> script ! 24 = of_nat OP_CHECKSIG
      then Some (take 20 (drop 3 script)) else None)"

definition IsToScriptID :: "bytes \<Rightarrow> bytes option" where
  "IsToScriptID script =
     (if length script = 23 \<and> script ! 0 = of_nat OP_HASH160 \<and> script ! 1 = 20 \<and> script ! 22 = of_nat OP_EQUAL
      then Some (take 20 (drop 2 script)) else None)"

definition IsToPubKey :: "(bytes \<Rightarrow> bool) \<Rightarrow> bytes \<Rightarrow> bytes option" where
  "IsToPubKey IsFullyValid script =
     (if length script = 35 \<and> script ! 0 = 33 \<and> script ! 34 = of_nat OP_CHECKSIG \<and> (script ! 1 = 2 \<or> script ! 1 = 3)
      then Some (take 33 (drop 1 script))
      else if length script = 67 \<and> script ! 0 = 65 \<and> script ! 66 = of_nat OP_CHECKSIG \<and> script ! 1 = 4
      then let pubkey = take 65 (drop 1 script) in if IsFullyValid pubkey then Some pubkey else None
      else None)"

definition Compress :: "(bytes \<Rightarrow> bool) \<Rightarrow> bytes \<Rightarrow> bytes option" where
  "Compress IsFullyValid script =
     (case IsToKeyID script of
        Some keyID \<Rightarrow> Some (0 # keyID)
      | None \<Rightarrow>
          (case IsToScriptID script of
             Some scriptID \<Rightarrow> Some (1 # scriptID)
           | None \<Rightarrow>
               (case IsToPubKey IsFullyValid script of
                  None \<Rightarrow> None
                | Some pubkey \<Rightarrow>
                    if pubkey ! 0 = 2 \<or> pubkey ! 0 = 3 then Some (pubkey ! 0 # take 32 (drop 1 pubkey))
                    else if pubkey ! 0 = 4 then Some ((4 OR (pubkey ! 64 AND 1)) # take 32 (drop 1 pubkey))
                    else None)))"

definition GetSpecialSize :: "nat \<Rightarrow> nat" where
  "GetSpecialSize nSize =
     (if nSize = 0 \<or> nSize = 1 then 20 else if nSize = 2 \<or> nSize = 3 \<or> nSize = 4 \<or> nSize = 5 then 32 else 0)"

text \<open>The result has the new script, if there is one; the outer option is the assertion.\<close>

definition Decompress :: "(bytes \<Rightarrow> bytes option) \<Rightarrow> nat \<Rightarrow> bytes \<Rightarrow> bytes option option" where
  "Decompress DecompressKey nSize inp =
     (if nSize = 0
      then Some (Some ([of_nat OP_DUP, of_nat OP_HASH160, 20] @ take 20 inp @ [of_nat OP_EQUALVERIFY, of_nat OP_CHECKSIG]))
      else if nSize = 1 then Some (Some ([of_nat OP_HASH160, 20] @ take 20 inp @ [of_nat OP_EQUAL]))
      else if nSize = 2 \<or> nSize = 3 then Some (Some ([33, of_nat nSize] @ take 32 inp @ [of_nat OP_CHECKSIG]))
      else if nSize = 4 \<or> nSize = 5
      then (case DecompressKey (of_nat (nSize - 2) # take 32 inp) of
              None \<Rightarrow> Some None
            | Some pubkey \<Rightarrow> do { assert_opt (length pubkey = 65); Some (Some ([65] @ pubkey @ [of_nat OP_CHECKSIG])) })
      else Some None)"

definition Serialize_script :: "(bytes \<Rightarrow> bool) \<Rightarrow> bytes \<Rightarrow> bytes" where
  "Serialize_script IsFullyValid script =
     (case Compress IsFullyValid script of
        Some compr \<Rightarrow> compr
      | None \<Rightarrow> WriteVarInt (length script + nSpecialScripts) @ script)"

text \<open>\<open>script\<close> is what the object held before; a special form that cannot be decompressed leaves it.\<close>

definition Unserialize_script :: "(bytes \<Rightarrow> bytes option) \<Rightarrow> bytes \<Rightarrow> bytes reader" where
  "Unserialize_script DecompressKey script s =
     do { (nSize, s) \<leftarrow> ReadVarInt max_uint32 s;
          if nSize < nSpecialScripts
          then do { (vch, s) \<leftarrow> stream_read (GetSpecialSize nSize) s;
                    r \<leftarrow> Decompress DecompressKey nSize vch;
                    Some (case r of None \<Rightarrow> script | Some script \<Rightarrow> script, s) }
          else let nSize = nSize - nSpecialScripts
               in if nSize > MAX_SCRIPT_SIZE
                  then do { assert_opt (nSize < 2 ^ 31); (ignored, s) \<leftarrow> stream_read nSize s; Some (script @ [of_nat OP_RETURN], s) }
                  else stream_read nSize s }"

definition Serialize_compressed :: "(bytes \<Rightarrow> bool) \<Rightarrow> CTxOut \<Rightarrow> bytes option" where
  "Serialize_compressed IsFullyValid txout =
     do { nVal \<leftarrow> CompressAmount (nat (nValue txout mod 2 ^ 64));
          Some (WriteVarInt nVal @ Serialize_script IsFullyValid (scriptPubKey txout)) }"

definition Unserialize_compressed :: "(bytes \<Rightarrow> bytes option) \<Rightarrow> CTxOut \<Rightarrow> CTxOut reader" where
  "Unserialize_compressed DecompressKey txout s =
     do { (nVal, s) \<leftarrow> ReadVarInt max_uint64 s;
          (k, s) \<leftarrow> Unserialize_script DecompressKey (scriptPubKey txout) s;
          Some (\<lparr>nValue = sint (of_nat (DecompressAmount nVal) :: uint64), scriptPubKey = k\<rparr>, s) }"

section \<open>Amounts come back\<close>

lemma strip_zeros_spec:
  "strip_zeros n e = (n', e') \<Longrightarrow> 0 < n \<Longrightarrow> e \<le> 9 \<Longrightarrow>
   n = n' * 10 ^ (e' - e) \<and> 0 < n' \<and> e \<le> e' \<and> e' \<le> 9 \<and> (e' < 9 \<longrightarrow> n' mod 10 \<noteq> 0)"
proof (induction n e rule: strip_zeros.induct)
  case (1 n e)
  show ?case
  proof (cases "n mod 10 = 0 \<and> e < 9")
    case True
    then have "n = 10 * (n div 10)" by presburger
    moreover have "0 < n div 10" using True 1(3) by presburger
    moreover have "strip_zeros (n div 10) (e + 1) = (n', e')" using 1(2) True by (simp add: strip_zeros.simps [of n e])
    ultimately have IH: "n div 10 = n' * 10 ^ (e' - (e + 1)) \<and> 0 < n' \<and> e + 1 \<le> e' \<and> e' \<le> 9 \<and> (e' < 9 \<longrightarrow> n' mod 10 \<noteq> 0)"
      using 1(1) [OF True] True by simp
    then have "e' - e = Suc (e' - (e + 1))" by linarith
    then have "n' * 10 ^ (e' - e) = 10 * (n' * 10 ^ (e' - (e + 1)))" by simp
    then show ?thesis using IH \<open>n = 10 * (n div 10)\<close> by simp
  next
    case False
    then have "n' = n" "e' = e" using 1(2) by (auto simp: strip_zeros.simps [of n e])
    then show ?thesis using False 1(3,4) by auto
  qed
qed

lemma times_ten_eq: "n < 2 ^ 64 \<Longrightarrow> times_ten e n = n * 10 ^ e mod 2 ^ 64"
proof (induction e arbitrary: n)
  case (Suc e)
  then show ?case using Suc.IH [of "n * 10 mod 2 ^ 64"] by (simp add: mod_mult_left_eq mult.assoc del: power_Suc) (simp add: mult.assoc)
qed simp

lemma CompressAmount_digits:
  assumes "0 < n" "n \<le> 2 * 10 ^ 18" "strip_zeros n 0 = (m, e)"
  shows "CompressAmount n = Some (if e < 9 then 1 + (m div 10 * 9 + m mod 10 - 1) * 10 + e else 1 + (m - 1) * 10 + 9)"
proof -
  have s: "n = m * 10 ^ e" "0 < m" "e \<le> 9" "e < 9 \<longrightarrow> m mod 10 \<noteq> 0" using strip_zeros_spec [OF assms(3)] assms(1) by simp_all
  have "m * 1 \<le> m * 10 ^ e" by (intro mult_le_mono2) simp
  then have m: "m \<le> 2 * 10 ^ 18" using s(1) assms(2) by linarith
  have m9: "m \<le> 2 * 10 ^ 9" if "e = 9" using s(1) assms(2) that by simp
  have "1 + (m div 10 * 9 + m mod 10 - 1) * 10 + e < 2 ^ 64" if "e < 9"
  proof -
    have "m div 10 * 10 + m mod 10 = m" "m mod 10 \<le> 9" by simp_all
    then show ?thesis using m that by simp
  qed
  moreover have "1 + (m - 1) * 10 + 9 < 2 ^ 64" if "e = 9" using m9 [OF that] by simp
  moreover have "m mod 10 \<le> 9" by simp
  ultimately show ?thesis using assms(1,3) s(3,4) by (auto simp: CompressAmount_def Let_def)
qed

lemma DecompressAmount_digits:
  assumes "0 < m" "e \<le> 9" "e < 9 \<longrightarrow> m mod 10 \<noteq> 0" "m * 10 ^ e < 2 ^ 64"
  shows "DecompressAmount (if e < 9 then 1 + (m div 10 * 9 + m mod 10 - 1) * 10 + e else 1 + (m - 1) * 10 + 9) = m * 10 ^ e"
proof -
  have "m * 1 \<le> m * 10 ^ e" by (intro mult_le_mono2) simp
  then have m: "m < 2 ^ 64" using assms(4) by linarith
  show ?thesis
  proof (cases "e < 9")
    case True
    let ?y = "m div 10 * 9 + m mod 10 - 1"
    obtain q d where q: "q = m div 10" and d: "m mod 10 = Suc d" using True assms(3) by (metis not0_implies_Suc)
    have "Suc d < 10" using d by (metis mod_less_divisor zero_less_numeral)
    then have y: "?y = d + q * 9" "(d + q * 9) div 9 = q" "(d + q * 9) mod 9 = d" using d q by simp_all
    have "?y div 9 * 10 + (?y mod 9 + 1) = m" unfolding y(1) y(2,3) using div_mult_mod_eq [of m 10] d q by simp
    moreover have "(?y * 10 + e) mod 10 = e" "(?y * 10 + e) div 10 = ?y" using True by simp_all
    ultimately show ?thesis using True m assms(4) by (simp add: DecompressAmount_def Let_def times_ten_eq)
  next
    case False
    then have e: "e = 9" using assms(2) by simp
    have "((m - 1) * 10 + 9) mod 10 = 9" "((m - 1) * 10 + 9) div 10 = m - 1" by simp_all
    then show ?thesis using e assms(1,4) m by (simp add: DecompressAmount_def Let_def times_ten_eq)
  qed
qed

lemma amount_roundtrip: "n \<le> 2 * 10 ^ 18 \<Longrightarrow> \<exists>x. CompressAmount n = Some x \<and> x < 2 ^ 64 \<and> DecompressAmount x = n"
proof (cases "n = 0")
  case True
  then show ?thesis by (simp add: CompressAmount_def DecompressAmount_def)
next
  case False
  assume n: "n \<le> 2 * 10 ^ 18"
  obtain m e where s: "strip_zeros n 0 = (m, e)" by fastforce
  have sp: "n = m * 10 ^ e" "0 < m" "e \<le> 9" "e < 9 \<longrightarrow> m mod 10 \<noteq> 0" using strip_zeros_spec [OF s] False by simp_all
  define x where "x = (if e < 9 then 1 + (m div 10 * 9 + m mod 10 - 1) * 10 + e else 1 + (m - 1) * 10 + 9)"
  have "CompressAmount n = Some x" using CompressAmount_digits [OF _ n s] False by (simp add: x_def)
  moreover from this have "x < 2 ^ 64" by (auto simp: CompressAmount_def Let_def False s split: if_splits)
  moreover have "DecompressAmount x = n"
    unfolding x_def using DecompressAmount_digits [OF sp(2,3,4)] sp(1) n by simp
  ultimately show ?thesis by blast
qed

lemma big_amount_wraps: "map_option DecompressAmount (CompressAmount 4000000000000000001) = Some 5409209967279921888"
proof -
  have "strip_zeros 4000000000000000001 0 = (4000000000000000001, 0)" by (subst strip_zeros.simps) simp
  then have "CompressAmount 4000000000000000001 = Some 17553255926290448385" by (simp add: CompressAmount_def Let_def)
  moreover have "DecompressAmount 17553255926290448385 = 5409209967279921888"
    by (simp add: DecompressAmount_def Let_def times_ten_eq)
  ultimately show ?thesis by simp
qed

section \<open>Scripts come back\<close>

lemma drop_one: "length s = Suc j \<Longrightarrow> drop j s = [s ! j]"
  using Cons_nth_drop_Suc [of j s] by simp

lemma take_two: "2 \<le> length s \<Longrightarrow> take 2 s = [s ! 0, s ! 1]"
  by (cases s; cases "tl s") (auto simp: take_Cons' numeral_2_eq_2)

lemma two_elements: "2 \<le> length s \<Longrightarrow> \<exists>a c r. s = a # c # r"
  by (cases s; cases "tl s") auto

lemma split_script: "s = take m s @ take n (drop m s) @ drop (m + n) s"
  by (metis add.commute append_take_drop_id drop_drop)

lemma IsToKeyID_Some: "IsToKeyID s = Some h \<Longrightarrow> length h = 20 \<and> s = p2pkh_script h"
proof -
  assume a: "IsToKeyID s = Some h"
  then have "IsPayToPublicKeyHash s" by (auto simp: IsToKeyID_def IsPayToPublicKeyHash_def split: if_splits)
  then obtain h' where h': "length h' = 20" "s = p2pkh_script h'" by (auto simp: IsPayToPublicKeyHash_iff)
  moreover have "h = take 20 (drop 3 s)" using a by (auto simp: IsToKeyID_def split: if_splits)
  ultimately show ?thesis by (simp add: p2pkh_script_def)
qed

lemma IsToScriptID_Some:
  "IsToScriptID s = Some h \<Longrightarrow> length h = 20 \<and> s = [of_nat OP_HASH160, 20] @ h @ [of_nat OP_EQUAL]"
  using split_script [of s 2 20] take_two [of s] drop_one [of s 22]
  by (auto simp: IsToScriptID_def split: if_splits)

lemma IsToPubKey_Some:
  assumes "IsToPubKey V s = Some k"
  obtains (short) c x where "c = 2 \<or> c = 3" "length x = 32" "k = c # x" "s = [33, c] @ x @ [of_nat OP_CHECKSIG]"
    | (long) x y where "length x = 32" "length y = 32" "k = 4 # x @ y" "V k" "s = [65] @ k @ [of_nat OP_CHECKSIG]"
proof (cases "length s = 35 \<and> s ! 0 = 33 \<and> s ! 34 = of_nat OP_CHECKSIG \<and> (s ! 1 = 2 \<or> s ! 1 = 3)")
  case True
  have k: "k = take 33 (drop 1 s)" using assms True by (simp add: IsToPubKey_def)
  obtain a c r where s: "s = a # c # r" using two_elements [of s] True by auto
  have d: "drop 32 r = [r ! 32]" using True s by (intro drop_one) simp
  have "take 32 r @ [r ! 32] = r" unfolding d [symmetric] by (rule append_take_drop_id)
  then show thesis using True s k by (intro short [of c "take 32 r"]) simp_all
next
  case False
  then have l: "length s = 67" "s ! 0 = 65" "s ! 66 = of_nat OP_CHECKSIG" "s ! 1 = 4" and k: "k = take 65 (drop 1 s)" "V k"
    using assms by (auto simp: IsToPubKey_def Let_def split: if_splits)
  obtain a c r where s: "s = a # c # r" using l(1) two_elements [of s] by auto
  have r: "take 32 r @ take 32 (drop 32 r) = take 64 r" using take_add [of 32 32 r] by simp
  have d: "drop 64 r = [r ! 64]" using l(1) s by (intro drop_one) simp
  have "take 64 r @ [r ! 64] = r" unfolding d [symmetric] by (rule append_take_drop_id)
  then show thesis using l s k r by (intro long [of "take 32 r" "take 32 (drop 32 r)"]) simp_all
qed

lemma ReadVarInt_small: "x < 128 \<Longrightarrow> ReadVarInt max_uint32 (of_nat x # r) = Some (x, r)"
proof -
  assume x: "x < 128"
  then have "WriteVarInt x = [of_nat x]" by (simp add: WriteVarInt_def varint_digits.simps)
  then show ?thesis using varint32.unser_ser [of x r] x by (simp add: max_uint32_def)
qed

lemma script_special:
  "n < 6 \<Longrightarrow> length d = GetSpecialSize n \<Longrightarrow> Decompress D n d = Some (Some s) \<Longrightarrow>
   Unserialize_script D old (of_nat n # d @ r) = Some (s, r)"
  by (simp add: Unserialize_script_def ReadVarInt_small nSpecialScripts_def stream_read_eqI)

lemma parity_byte: "(4 OR (b AND 1) :: uint8) = (if odd b then 5 else 4)"
  by (cases "odd b") (simp_all add: and_one_eq even_iff_mod_2_eq_zero odd_iff_mod_2_eq_one)

lemma script_roundtrip:
  assumes law: "\<And>x y. length x = 32 \<Longrightarrow> length y = 32 \<Longrightarrow> V (4 # x @ y) \<Longrightarrow> D ((if odd (last y) then 3 else 2) # x) = Some (4 # x @ y)"
    and "length s \<le> MAX_SCRIPT_SIZE"
  shows "Unserialize_script D old (Serialize_script V s @ r) = Some (s, r)"
proof (cases "Compress V s")
  case None
  have "length s + nSpecialScripts \<le> max_uint32"
    using assms(2) by (simp add: max_uint32_def MAX_SCRIPT_SIZE_def nSpecialScripts_def)
  then show ?thesis
    using None assms(2) by (simp add: Serialize_script_def Unserialize_script_def varint32.unser_ser)
next
  case (Some c)
  then consider (key) h where "IsToKeyID s = Some h" "c = 0 # h"
    | (script) h where "IsToScriptID s = Some h" "c = 1 # h"
    | (pub) k where "IsToPubKey V s = Some k" "c = (if k ! 0 = 2 \<or> k ! 0 = 3 then k ! 0 else 4 OR (k ! 64 AND 1)) # take 32 (drop 1 k)"
    by (auto simp: Compress_def split: option.splits if_splits)
  then have "\<exists>n d. c = of_nat n # d \<and> n < 6 \<and> length d = GetSpecialSize n \<and> Decompress D n d = Some (Some s)"
  proof cases
    case key
    then show ?thesis using IsToKeyID_Some [OF key(1)]
      by (intro exI [of _ 0] exI [of _ h]) (simp add: GetSpecialSize_def Decompress_def p2pkh_script_def)
  next
    case script
    then show ?thesis using IsToScriptID_Some [OF script(1)]
      by (intro exI [of _ 1] exI [of _ h]) (simp add: GetSpecialSize_def Decompress_def)
  next
    case pub
    from pub(1) show ?thesis
    proof (cases rule: IsToPubKey_Some)
      case (short a x)
      then show ?thesis using pub(2)
        by (intro exI [of _ "unat a"] exI [of _ x]) (auto simp: GetSpecialSize_def Decompress_def)
    next
      case (long x y)
      have "k ! 64 = last y" using long by (simp add: nth_append last_conv_nth flip: length_greater_0_conv)
      then have "c = (if odd (last y) then 5 else 4) # x" using pub(2) long by (simp add: parity_byte)
      then show ?thesis using long law [of x y]
        by (cases "odd (last y)"; intro exI [of _ "if odd (last y) then 5 else 4"] exI [of _ x]) (simp_all add: GetSpecialSize_def Decompress_def)
    qed
  qed
  then show ?thesis using Some script_special by (auto simp: Serialize_script_def)
qed

section \<open>Properties\<close>

text \<open>
  C40.  An output with an amount up to 2 * 10^18 and a script within the size limit comes back from its compact form,
  if the elliptic-curve library decompresses a key that is on the curve from its first coordinate and the parity of the
  second.  For larger amounts this fails: \<open>CompressAmount\<close> computes about nine times an amount that is no multiple of ten, modulo 2^64, so
  amounts within the range of money come back changed.
\<close>
theorem compressed_output_roundtrip:
  assumes key_decompression: "\<And>x y. length x = 32 \<Longrightarrow> length y = 32 \<Longrightarrow> IsFullyValid (4 # x @ y) \<Longrightarrow>
      DecompressKey ((if odd (last y) then 3 else 2) # x) = Some (4 # x @ y)"
    and "length (scriptPubKey out) \<le> MAX_SCRIPT_SIZE" "0 \<le> nValue out" "nValue out \<le> 2 * 10 ^ 18"
  shows "(\<exists>b. Serialize_compressed IsFullyValid out = Some b \<and>
      Unserialize_compressed DecompressKey old (b @ r) = Some (out, r)) \<and>
    MoneyRange 4000000000000000001 \<and>
    map_option DecompressAmount (CompressAmount 4000000000000000001) = Some 5409209967279921888"
proof -
  have v: "nat (nValue out mod 2 ^ 64) = nat (nValue out)" "nat (nValue out) \<le> 2 * 10 ^ 18" using assms(3,4) by simp_all
  obtain x where x: "CompressAmount (nat (nValue out)) = Some x" "x < 2 ^ 64" "DecompressAmount x = nat (nValue out)"
    using amount_roundtrip [OF v(2)] by blast
  have w: "sint (of_nat (nat (nValue out)) :: uint64) = nValue out"
    using sint_word_of_int64 [of "nValue out"] assms(3,4) by simp
  have n: "ReadVarInt max_uint64 (WriteVarInt x @ t) = Some (x, t)" for t
    using x(2) by (intro varint64.unser_ser) (simp add: max_uint64_def)
  have k: "Unserialize_script DecompressKey (scriptPubKey old) (Serialize_script IsFullyValid (scriptPubKey out) @ r) = Some (scriptPubKey out, r)"
    by (intro script_roundtrip assms(1,2))
  let ?b = "WriteVarInt x @ Serialize_script IsFullyValid (scriptPubKey out)"
  have "Serialize_compressed IsFullyValid out = Some ?b"
    unfolding Serialize_compressed_def v(1) x(1) by simp
  moreover have "Unserialize_compressed DecompressKey old (?b @ r) = Some (out, r)"
    unfolding Unserialize_compressed_def append_assoc n by (simp only: Option.bind.simps prod.case k x(3) w) simp
  ultimately have "\<exists>b. Serialize_compressed IsFullyValid out = Some b \<and> Unserialize_compressed DecompressKey old (b @ r) = Some (out, r)"
    by blast
  moreover have "MoneyRange 4000000000000000001" by (simp add: MoneyRange_def MAX_MONEY_def COIN_def)
  moreover note big_amount_wraps
  ultimately show ?thesis by blast
qed

theorem compressed_output_roundtrip_witness:
  "\<exists>b. Serialize_compressed (\<lambda>k. k = 4 # replicate 64 0) \<lparr>nValue = 5, scriptPubKey = [0x51]\<rparr> = Some b \<and>
    Unserialize_compressed (\<lambda>k. Some (4 # tl k @ replicate 32 0)) CTxOut_null (b @ [1]) = Some (\<lparr>nValue = 5, scriptPubKey = [0x51]\<rparr>, [1])"
proof (rule compressed_output_roundtrip [THEN conjunct1])
  fix x y :: bytes
  assume l: "length x = 32" "length y = 32" and "4 # x @ y = 4 # replicate 64 0"
  then have "x @ y = replicate 32 0 @ replicate 32 0" by (simp flip: replicate_add)
  then have "x = replicate 32 0" "y = replicate 32 0" using l by simp_all
  then show "Some (4 # tl ((if odd (last y) then 3 else 2) # x) @ replicate 32 0) = Some (4 # x @ y)" by simp
qed (simp_all add: MAX_SCRIPT_SIZE_def)

end
