(* ===== verification/Spec2Isabelle.thy ===== *)
theory Spec2Isabelle
  imports Pow VersionBits PartialMerkle SigHash Compressor
begin

text \<open>
  A verification development for the PHICOIN node, a C++ program derived from Bitcoin Core and
  Ravencoin (sources under src/src/).

  \<^bold>\<open>The program.\<close>  The node keeps a tree of block headers (\<open>CBlockIndex\<close>), of which one branch is
  the active chain (\<open>CChain\<close>).  A header is linked to its parent, gets the accumulated work of its branch,
  computed with 256-bit integers from the compact target \<open>nBits\<close>, and must carry the target that the
  difficulty rules demand of it.  Rule changes are activated by version bits counted along the branch.
  A block commits to its transactions by a Merkle root, and a light client receives a partial Merkle tree.
  A transaction input is accepted if its script, run by a stack machine, accepts the data that spends it.
  Below all of this are the hash classes, the byte and text encodings and the parameters of the networks.

  \<^bold>\<open>Conventions.\<close>  A class is a record or the value of its only field, a member function takes the object
  first and returns it updated.  Pointers to index entries are addresses into a finite map (\<open>arena\<close>).
  Unsigned machine integers are words, or naturals with the reduction written out; signed ones are integers
  where the source stays in range.  A failed assertion, a null dereference, an index out of range, a thrown
  exception or a loop that does not end is \<open>None\<close> of the outermost option type.  A loop is a structural
  recursion, a \<open>function\<close> with a termination proof, or a \<open>partial_function\<close> in the option monad; for each
  of the last kind it is proved that it returns.

  \<^bold>\<open>The theories.\<close>
  \<^item> \<open>Prelude\<close>: machine types, the value of limb arrays, \<open>assert_opt\<close>, lemmas on lists, words and options.
  \<^item> \<open>CryptoCommon\<close> (crypto/common.h): endian readers and writers; locale \<open>endian_codec\<close>, interpreted for
    each width and byte order.
  \<^item> \<open>ArithUint256\<close> (arith_uint256.h, arith_uint256.cpp): \<open>base_uint<256>\<close> on eight limbs.  The limb loops
    refine arithmetic modulo 2^256; \<open>SetCompact\<close> and \<open>GetCompact\<close> round trip.  Locale \<open>uint_arith\<close>.
  \<^item> \<open>StrEncodings\<close> (utilstrencodings.cpp), \<open>Uint256\<close> (uint256.h, uint256.cpp): hexadecimal, Base64 and
    Base32 with their round trips (locale \<open>text_codec\<close>), blobs with their printing and order.
  \<^item> \<open>BlockIndex\<close> (chain.h, chain.cpp, AddToBlockIndex of validation.cpp): index entries, skip list, median
    time, work.  Reachable states of the index are an inductive set; on all of them the skip list finds
    what following \<open>pprev\<close> finds, and \<open>AddToBlockIndex\<close> keeps the invariant.
  \<^item> \<open>Chain\<close> (chain.h, chain.cpp): the active chain as the vector of ancestors of its tip, forks, locators.
  \<^item> \<open>ConsensusParams\<close> (consensus/params.h, chainparams.cpp, amount.h): the numeric parameters of the three
    networks, the deployments, the burn addresses and the switches that change them.
  \<^item> \<open>Pow\<close> (pow.cpp): Dark Gravity Wave and the older retarget.  Both return on every well-formed tree, stay
    under the limit and adjust by at most the factor the clamp allows.
  \<^item> \<open>VersionBits\<close> (versionbits.h, versionbits.cpp): the threshold state machine with its cache, equal to the
    state BIP 9 defines period by period from the genesis block.
  \<^item> \<open>Hasher\<close>, \<open>Sha1\<close>, \<open>Sha256\<close>, \<open>Sha512\<close>, \<open>Ripemd160\<close> (crypto/*.cpp): streaming hash classes equal to
    their published standards, for any way to cut the input into pieces; locale \<open>block_hasher\<close>.
  \<^item> \<open>HashLib\<close> (hash.h, hash.cpp, crypto/hmac_*.cpp): double hashes, HMAC, BIP 32 hashes, MurmurHash3, SipHash;
    locale \<open>piecewise_hash\<close>.
  \<^item> \<open>Merkle\<close> (consensus/merkle.cpp): the constant-space root, the mutation flag and branches against the
    tree built by levels.
  \<^item> \<open>PartialMerkle\<close> (merkleblock.h, merkleblock.cpp): building and extracting partial trees.

  \<^item> \<open>Serialize\<close>, \<open>VarInts\<close> (serialize.h, CDataStream::read of streams.h): the wire format of integers, sizes and
    vectors; locales \<open>codec\<close> and \<open>canonical_codec\<close>, interpreted for each format.
  \<^item> \<open>Script\<close> (script/script.h, script/script.cpp): script numbers, pushes, the reader of operations and the loops over
    them, the classification of scripts.
  \<^item> \<open>Interpreter\<close> (script/interpreter.h, script/interpreter.cpp): every operation of \<open>EvalScript\<close>, and \<open>VerifyScript\<close>
    with pay-to-script-hash and witness programs.  Evaluation ends, no assertion fails, the limits hold.
  \<^item> \<open>Spending\<close>: what pay-to-public-key-hash scripts and the loop of \<open>OP_CHECKMULTISIG\<close> accept.
  \<^item> \<open>Transaction\<close> (primitives/transaction.h, primitives/transaction.cpp, amount.h): transactions, their two
    serializations, their hashes and the sum of their outputs; the formats are interpretations of \<open>canonical_codec\<close>.
  \<^item> \<open>TxVerify\<close> (consensus/tx_verify.cpp): absolute and relative lock times over the block index.
  \<^item> \<open>SigHash\<close> (script/interpreter.cpp): the signature hash in both formats, against a changed copy of the transaction, and
    \<open>TransactionSignatureChecker\<close>.
  \<^item> \<open>Compressor\<close> (compressor.h, compressor.cpp): the compact form of amounts and scripts in the coin database.

  This theory holds the property that spans them: when a pay-to-public-key-hash output is spent.

  \<^bold>\<open>Bounds.\<close>  Merkle roots are treated up to 2^31 leaves: \<open>count\<close> is a 32-bit counter and the array \<open>inner\<close>
  has 32 entries.  Partial trees are treated up to the 16666 transactions that \<open>ExtractMatches\<close> accepts.
  Hash classes are treated for messages whose bit length fits the 64-bit counter.  Statements about a hash
  that exclude collisions assume injectivity on the finitely many inputs that occur.

  \<^bold>\<open>Not modelled.\<close>  Code whose work is input and output or concurrency (network, disk files, databases,
  RPC, user interface, wallet storage, process start), the bundled libraries and third-party hash
  functions (leveldb, secp256k1, univalue, the sph family, ethash), and \<open>CDiskBlockIndex\<close>, which only marshals
  entries for the database.  The verification of a signature under a key
  (\<open>VerifySig\<close>), \<open>CPubKey::CheckLowS\<close>, \<open>IsFullyValid\<close> and the decompression of keys are arguments.  The parts of tx_verify.cpp that read the coins view or the
  asset caches (\<open>CheckTransaction\<close>, \<open>CheckTxInputs\<close>, \<open>CheckTxAssets\<close>, the costs of pay-to-script-hash inputs) are left out with them.
   Block hashes are data of an index entry, so no property of the
  proof-of-work hash is used.
\<close>

section \<open>Spending an output\<close>

text \<open>
  C9.  Spending a pay-to-public-key-hash output, through the interpreter, the signature checker, the signature hash
  and the serialization.  A key and a signature on the stack satisfy the script, with the single element true left,
  exactly if the key has the hash that the script names, both have the encodings that the flags ask for, the key has
  the length that its first byte announces, and the signature without its last byte is valid under the key for the
  double SHA-256 of the copy of the transaction that the last byte, the hash type, selects.
\<close>
theorem p2pkh_input_spent_iff:
  assumes "IsPayToPublicKeyHash script" "nIn < length (vin tx)" "sig \<noteq> []" "length sig \<noteq> 20" "length sig \<le> 0xffffffff"
    and "nHashType = uint (last sig)" "fHashSingle nHashType \<longrightarrow> nIn < length (vout tx)"
    and "checker env = TransactionSignatureChecker VerifySig tx nIn amount txdata" "sigversion env = SIGVERSION_BASE"
  shows "EvalScript env [pk, sig] script = Some (Inr [vchTrue]) \<longleftrightarrow>
    Hash160 pk = take 20 (drop 3 script) \<and> CheckSignatureEncoding env sig = None \<and> CheckPubKeyEncoding env pk = None \<and>
    PubKey_valid pk \<and>
    VerifySig pk (sha256d (SerializeTransaction False (signed_copy tx script nIn nHashType) @ Serialize_int32 nHashType)) (butlast sig)"
proof -
  from assms(1) obtain h where h: "length h = 20" and s: "script = p2pkh_script h" by (auto simp: IsPayToPublicKeyHash_iff)
  have "SignatureHash script tx nIn nHashType amount SIGVERSION_BASE txdata =
      Some (sha256d (SerializeTransaction False (signed_copy tx script nIn nHashType) @ Serialize_int32 nHashType))"
    using SignatureHash_base [of script nIn tx nHashType amount txdata] p2pkh_readable [OF h] assms(2,7) by (simp add: s)
  moreover have "drop_signature SIGVERSION_BASE script sig = Some script"
    unfolding s by (rule drop_signature_p2pkh [OF h assms(4,5)])
  ultimately show ?thesis
    using EvalScript_p2pkh_iff [OF assms(1), of env pk sig] assms(3,6,8,9)
    by (auto simp: TransactionSignatureChecker_def TxCheckSig_def)
qed

theorem p2pkh_input_spent_iff_witness:
  "let pk = 2 # replicate 32 0;
       i = \<lparr>prevout = \<lparr>prev_hash = replicate 32 7, prev_n = 1\<rparr>, scriptSig = [], nSequence = 5, scriptWitness = []\<rparr>;
       tx = \<lparr>vin = [i], vout = [], tx_nVersion = 2, nLockTime = 0\<rparr>
   in EvalScript \<lparr>flags = 0, checker = TransactionSignatureChecker (\<lambda>_ _ s. s = [48]) tx 0 0 None, sigversion = SIGVERSION_BASE,
        CheckLowS = (\<lambda>_. True)\<rparr> [pk, [48, 1]] (p2pkh_script (Hash160 pk)) = Some (Inr [vchTrue])"
proof -
  let ?pk = "2 # replicate 32 0 :: bytes"
  let ?tx = "\<lparr>vin = [\<lparr>prevout = \<lparr>prev_hash = replicate 32 7, prev_n = 1\<rparr>, scriptSig = [], nSequence = 5, scriptWitness = []\<rparr>],
     vout = [], tx_nVersion = 2, nLockTime = 0\<rparr>"
  have h: "length (Hash160 ?pk) = 20" by (simp add: Hash160_eq length_ref_ripemd160)
  then have p: "IsPayToPublicKeyHash (p2pkh_script (Hash160 ?pk))" by (auto simp: IsPayToPublicKeyHash_iff)
  have t: "take 20 (drop 3 (p2pkh_script (Hash160 ?pk))) = Hash160 ?pk" using h by (simp add: p2pkh_script_def)
  have v: "PubKey_valid ?pk" by (simp add: PubKey_valid_def PubKey_GetLen_def)
  show ?thesis unfolding Let_def
    by (subst p2pkh_input_spent_iff [OF p, where nIn = 0 and tx = ?tx and VerifySig = "\<lambda>_ _ s. s = [48]" and amount = 0
        and txdata = None and nHashType = 1])
      (use t v in \<open>simp_all add: fHashSingle_def CheckSignatureEncoding_def CheckPubKeyEncoding_def has_flag_def\<close>)
qed

end
